(* ===== verification/Prelude.thy ===== *)
theory Prelude imports Complex_Main "HOL-Library.Word" begin

text \<open>
  Shared vocabulary of the development: the types that stand for the C types of PINT
  (bytes, file descriptors, process ids), the C library's block operations
  (\<open>memcpy\<close>, \<open>memcmp\<close>), the little-endian layout of C integers in memory, decimal
  printing and scanning as \<open>asprintf\<close> and \<open>sscanf\<close> use them, and the generic lemmas on
  lists and counting loops that the component theories rely on.
\<close>

section \<open>Names for the C types\<close>

type_synonym byte = "8 word"
type_synonym fd = int
type_synonym pid = int
type_synonym double = "64 word"
type_synonym timestamp = "64 word"

text \<open>
  The collections that carry the component proofs: \<open>wf_simps\<close> unfolds the well-formedness
  predicates of the model's records, \<open>buf_simps\<close> holds the facts on block copies.
\<close>

named_theorems wf_simps "definitions of well-formedness predicates"
named_theorems buf_simps "facts on block copies and buffer contents"

section \<open>Counting loops\<close>

text \<open>
  A C loop \<open>for (i = 0; i < n; i++)\<close> over a state is \<open>fold\<close> over \<open>[0..<n]\<close>.
\<close>

definition for_upto :: "nat \<Rightarrow> (nat \<Rightarrow> 's \<Rightarrow> 's) \<Rightarrow> 's \<Rightarrow> 's" where
  "for_upto n body s = fold body [0..<n] s"

lemma for_upto_0 [simp]: "for_upto 0 body s = s"
  by (simp add: for_upto_def)

lemma for_upto_Suc: "for_upto (Suc n) body s = body n (for_upto n body s)"
  by (simp add: for_upto_def)

lemma for_upto_indexed_invariant:
  assumes "I 0 s" and "\<And>i t. i < n \<Longrightarrow> I i t \<Longrightarrow> I (Suc i) (body i t)"
  shows "I n (for_upto n body s)"
  using assms(2)
proof (induction n)
  case 0
  then show ?case by (simp add: assms(1))
next
  case (Suc n)
  then show ?case by (simp add: for_upto_Suc)
qed

lemma for_upto_invariant:
  assumes "I s" and "\<And>i t. i < n \<Longrightarrow> I t \<Longrightarrow> I (body i t)"
  shows "I (for_upto n body s)"
  using for_upto_indexed_invariant [where I = "\<lambda>_. I", OF assms] .

lemma for_upto_cong:
  assumes "\<And>i t. i < n \<Longrightarrow> f i t = g i t"
  shows "for_upto n f s = for_upto n g s"
  using assms by (induction n) (simp_all add: for_upto_Suc)

section \<open>Block copy and comparison\<close>

text \<open>
  \<open>memcpy dst d src s n\<close> copies \<open>n\<close> elements from offset \<open>s\<close> of \<open>src\<close> to offset \<open>d\<close> of
  \<open>dst\<close>. A copy that leaves either block changes the length of the result, so the
  invariant "the block keeps its length" is what a copy inside the bounds preserves.
\<close>

definition memcpy :: "'a list \<Rightarrow> nat \<Rightarrow> 'a list \<Rightarrow> nat \<Rightarrow> nat \<Rightarrow> 'a list" where
  "memcpy dst d src s n = take d dst @ take n (drop s src) @ drop (d + n) dst"

lemma length_memcpy [simp]:
  "d + n \<le> length dst \<Longrightarrow> s + n \<le> length src \<Longrightarrow> length (memcpy dst d src s n) = length dst"
  by (simp add: memcpy_def)

lemma memcpy_0 [simp]: "memcpy dst d src s 0 = dst"
  by (simp add: memcpy_def)

lemma memcpy_append:
  "length xs = d \<Longrightarrow> memcpy (xs @ ys) d src s n = xs @ take n (drop s src) @ drop n ys"
  by (simp add: memcpy_def)

lemma nth_memcpy:
  assumes "d + n \<le> length dst" "s + n \<le> length src" "i < length dst"
  shows "memcpy dst d src s n ! i = (if d \<le> i \<and> i < d + n then src ! (s + (i - d)) else dst ! i)"
proof -
  have len: "length (take n (drop s src)) = n" and "length (take d dst) = d"
    using assms by simp_all
  then show ?thesis
    using assms by (auto simp: memcpy_def nth_append)
qed

text \<open>
  \<open>memcmp\<close> compares unsigned bytes; only the sign of the C result is specified, so the model
  returns -1, 0 or 1.
\<close>

fun memcmp :: "byte list \<Rightarrow> byte list \<Rightarrow> nat \<Rightarrow> int" where
  "memcmp (a # as) (b # bs) (Suc n) =
     (if a < b then - 1 else if b < a then 1 else memcmp as bs n)"
| "memcmp _ _ _ = 0"

lemma memcmp_eq_0_iff:
  "n \<le> length xs \<Longrightarrow> n \<le> length ys \<Longrightarrow> memcmp xs ys n = 0 \<longleftrightarrow> take n xs = take n ys"
  by (induction xs ys n rule: memcmp.induct) auto

lemma memcmp_range: "memcmp xs ys n \<in> {- 1, 0, 1}"
  by (induction xs ys n rule: memcmp.induct) auto

section \<open>Integers in memory\<close>

text \<open>Little-endian layout, the byte order of the machines PINT runs on.\<close>

primrec le_bytes :: "nat \<Rightarrow> nat \<Rightarrow> byte list" where
  "le_bytes 0 v = []"
| "le_bytes (Suc k) v = word_of_nat v # le_bytes k (v div 256)"

primrec le_nat :: "byte list \<Rightarrow> nat" where
  "le_nat [] = 0"
| "le_nat (b # bs) = unat b + 256 * le_nat bs"

lemma length_le_bytes [simp]: "length (le_bytes k v) = k"
  by (induction k arbitrary: v) simp_all

lemma le_nat_le_bytes: "le_nat (le_bytes k v) = v mod 256 ^ k"
proof (induction k arbitrary: v)
  case 0
  then show ?case by simp
next
  case (Suc k)
  have "unat (word_of_nat v :: byte) = v mod 256"
    by (simp add: unat_of_nat)
  then show ?case
    using Suc by (simp add: mod_mult2_eq add.commute)
qed

text \<open>A C \<open>int\<close> is four bytes, two's complement; a \<open>long\<close> and a \<open>double\<close> are eight.\<close>

definition int_bytes :: "int \<Rightarrow> byte list" where
  "int_bytes i = le_bytes 4 (nat (i mod 2 ^ 32))"

definition int_of_bytes :: "byte list \<Rightarrow> int" where
  "int_of_bytes bs = (let v = int (le_nat bs) in if v < 2 ^ 31 then v else v - 2 ^ 32)"

definition c_int :: "int \<Rightarrow> bool" where
  "c_int i \<longleftrightarrow> - (2 ^ 31) \<le> i \<and> i < 2 ^ 31"

lemma length_int_bytes [simp]: "length (int_bytes i) = 4"
  by (simp add: int_bytes_def)

lemma int_of_bytes_int_bytes: "c_int i \<Longrightarrow> int_of_bytes (int_bytes i) = i"
proof -
  assume i: "c_int i"
  have "int (le_nat (int_bytes i)) = i mod 2 ^ 32"
    by (simp add: int_bytes_def le_nat_le_bytes)
  moreover have "i mod 2 ^ 32 = (if 0 \<le> i then i else i + 2 ^ 32)"
    using i mod_add_self2 [of i "2 ^ 32"] mod_pos_pos_trivial [of "i + 2 ^ 32" "2 ^ 32"]
    by (simp add: c_int_def)
  ultimately show ?thesis
    using i by (simp add: int_of_bytes_def c_int_def Let_def)
qed

definition u64_bytes :: "64 word \<Rightarrow> byte list" where
  "u64_bytes w = le_bytes 8 (unat w)"

definition u64_of_bytes :: "byte list \<Rightarrow> 64 word" where
  "u64_of_bytes bs = word_of_nat (le_nat bs)"

lemma length_u64_bytes [simp]: "length (u64_bytes w) = 8"
  by (simp add: u64_bytes_def)

lemma u64_of_bytes_u64_bytes [simp]: "u64_of_bytes (u64_bytes w) = w"
proof -
  have "unat w mod 256 ^ 8 = unat w"
    using unsigned_less [of w, where ?'a = nat] by simp
  then show ?thesis
    by (simp add: u64_of_bytes_def u64_bytes_def le_nat_le_bytes)
qed


section \<open>Decimal text\<close>

text \<open>The conversion \<open>%d\<close> of \<open>asprintf\<close>.\<close>

definition digit_char :: "nat \<Rightarrow> char" where
  "digit_char d = char_of (48 + d)"

fun show_nat :: "nat \<Rightarrow> string" where
  "show_nat n = (if n < 10 then [digit_char n] else show_nat (n div 10) @ [digit_char (n mod 10)])"

declare show_nat.simps [simp del]

definition show_int :: "int \<Rightarrow> string" where
  "show_int i = (if i < 0 then CHR ''-'' # show_nat (nat (- i)) else show_nat (nat i))"

text \<open>
  The conversions of \<open>sscanf\<close> that PINT uses: \<open>%m[^:]\<close> takes the characters before a colon and
  needs at least one; \<open>:%d\<close> takes a colon, then white space, an optional sign and at least one
  digit. Each gives the rest of the text, or \<open>None\<close> where the text does not match.
\<close>

definition is_digit :: "char \<Rightarrow> bool" where
  "is_digit c \<longleftrightarrow> 48 \<le> (of_char c :: nat) \<and> (of_char c :: nat) \<le> 57"

definition is_space :: "char \<Rightarrow> bool" where
  "is_space c \<longleftrightarrow> (of_char c :: nat) = 32 \<or> 9 \<le> (of_char c :: nat) \<and> (of_char c :: nat) \<le> 13"

definition digits_value :: "nat \<Rightarrow> string \<Rightarrow> nat" where
  "digits_value a s = fold (\<lambda>c v. 10 * v + ((of_char c :: nat) - 48)) s a"

definition scan_not_colon :: "string \<Rightarrow> (string \<times> string) option" where
  "scan_not_colon s =
     (let t = takeWhile (\<lambda>c. c \<noteq> CHR '':'') s in
      if t = [] then None else Some (t, dropWhile (\<lambda>c. c \<noteq> CHR '':'') s))"

definition scan_nat :: "string \<Rightarrow> (nat \<times> string) option" where
  "scan_nat s =
     (let t = takeWhile is_digit s in
      if t = [] then None else Some (digits_value 0 t, dropWhile is_digit s))"

definition scan_int :: "string \<Rightarrow> (int \<times> string) option" where
  "scan_int s =
     (let s' = dropWhile is_space s in
      case s' of
        [] \<Rightarrow> None
      | c # r \<Rightarrow>
          (if c = CHR ''-'' then map_option (\<lambda>(n, t). (- int n, t)) (scan_nat r)
           else if c = CHR ''+'' then map_option (\<lambda>(n, t). (int n, t)) (scan_nat r)
           else map_option (\<lambda>(n, t). (int n, t)) (scan_nat s')))"

definition scan_colon_int :: "string \<Rightarrow> (int \<times> string) option" where
  "scan_colon_int s =
     (case s of [] \<Rightarrow> None | c # r \<Rightarrow> if c = CHR '':'' then scan_int r else None)"

text \<open>\<open>atoi\<close>; C leaves its result undefined where the number does not fit an \<open>int\<close>.\<close>

definition atoi :: "string \<Rightarrow> int" where
  "atoi s = (case scan_int s of None \<Rightarrow> 0 | Some (i, _) \<Rightarrow> i)"

lemma of_char_digit [simp]: "d < 10 \<Longrightarrow> (of_char (digit_char d) :: nat) = 48 + d"
  by (simp add: digit_char_def)

lemma show_nat_digits: "show_nat n \<noteq> [] \<and> (\<forall>c \<in> set (show_nat n). is_digit c)"
proof (induction n rule: show_nat.induct)
  case (1 n)
  then show ?case
    by (subst (1 2) show_nat.simps) (auto simp: is_digit_def)
qed

lemma length_show_nat: "n < 10 ^ k \<Longrightarrow> 0 < k \<Longrightarrow> length (show_nat n) \<le> k"
proof (induction n arbitrary: k rule: show_nat.induct)
  case (1 n)
  show ?case
  proof (cases "n < 10")
    case False
    with 1(2,3) obtain k' where k: "k = Suc k'" "0 < k'" by (cases k) (auto, metis gr0I power_0 power_one_right less_one mult_1_right power_Suc)
    have "n div 10 < 10 ^ k'" using 1(2) k by (simp add: less_mult_imp_div_less mult.commute)
    then show ?thesis using 1(1) [OF False _ k(2)] False k by (subst show_nat.simps) simp
  qed (use 1(3) in \<open>subst show_nat.simps; simp\<close>)
qed

lemma show_int_text: "c \<in> set (show_int i) \<Longrightarrow> is_digit c \<or> c = CHR ''-''"
  using show_nat_digits by (auto simp: show_int_def split: if_splits)

lemma digits_value_append: "digits_value a (s @ t) = digits_value (digits_value a s) t"
  by (simp add: digits_value_def)

lemma digits_value_show_nat: "digits_value 0 (show_nat n) = n"
proof (induction n rule: show_nat.induct)
  case (1 n)
  then show ?case
    by (subst show_nat.simps) (simp add: digits_value_append, simp add: digits_value_def)
qed

lemma scan_nat_show_nat:
  assumes "t = [] \<or> \<not> is_digit (hd t)"
  shows "scan_nat (show_nat n @ t) = Some (n, t)"
proof -
  have "takeWhile is_digit (show_nat n @ t) = show_nat n" "dropWhile is_digit (show_nat n @ t) = t"
    using show_nat_digits [of n] assms by (cases t; simp)+
  then show ?thesis
    using show_nat_digits [of n] digits_value_show_nat by (simp add: scan_nat_def)
qed

lemma scan_int_show_int:
  assumes "t = [] \<or> \<not> is_digit (hd t)"
  shows "scan_int (show_int i @ t) = Some (i, t)"
proof (cases "i < 0")
  case True
  have "\<not> is_space CHR ''-''" by (simp add: is_space_def)
  then show ?thesis
    using True scan_nat_show_nat [OF assms, of "nat (- i)"] by (simp add: scan_int_def show_int_def)
next
  case False
  obtain c r where cr: "show_nat (nat i) = c # r"
    using show_nat_digits [of "nat i"] by (cases "show_nat (nat i)") auto
  have c: "is_digit c" using show_nat_digits [of "nat i"] cr by simp
  then have "\<not> is_space c" "c \<noteq> CHR ''-''" "c \<noteq> CHR ''+''"
    by (auto simp: is_digit_def is_space_def)
  then show ?thesis
    using False scan_nat_show_nat [OF assms, of "nat i"] cr
    by (simp add: scan_int_def show_int_def)
qed

lemma scan_colon_int_show:
  "t = [] \<or> \<not> is_digit (hd t) \<Longrightarrow> scan_colon_int (CHR '':'' # show_int i @ t) = Some (i, t)"
  by (simp add: scan_colon_int_def scan_int_show_int)

lemma scan_not_colon_append:
  "s \<noteq> [] \<Longrightarrow> CHR '':'' \<notin> set s \<Longrightarrow>
    scan_not_colon (s @ CHR '':'' # t) = Some (s, CHR '':'' # t)"
  by (auto simp: scan_not_colon_def takeWhile_append dropWhile_append)

end
