(* ===== verification/Config_Lexer.thy ===== *)
theory Config_Lexer imports Prelude "HOL-Library.Sublist" begin

text \<open>
  The scanner of the configuration language (\<open>plumber/pb.l\<close>). A flex specification is a list of rules,
  each a pattern with an action; at every position the scanner takes the longest match, the earliest
  rule among equals, and runs its action. A pattern is the function that gives the length of its
  longest match at the head of a text (0 where it does not match; no pattern matches the empty text),
  an action gives the token it returns, or none where the text is skipped. What the skipped mystery
  characters print is left out.
\<close>

section \<open>Tokens\<close>

datatype token =
    BENCH
  | P_SMR | P_DMR | P_TMR
  | START_PIPE | END_PIPE | START_VOTE | END_VOTE | ASSIGN | DELIM
  | VAR_NAME string
  | NAMED_OB string
  | NUMBER_VAL string
  | EOL

section \<open>Patterns\<close>

definition is_lower :: "char \<Rightarrow> bool" where
  "is_lower c \<longleftrightarrow> 97 \<le> (of_char c :: nat) \<and> (of_char c :: nat) \<le> 122"

definition is_upper :: "char \<Rightarrow> bool" where
  "is_upper c \<longleftrightarrow> 65 \<le> (of_char c :: nat) \<and> (of_char c :: nat) \<le> 90"

definition is_name_char :: "char \<Rightarrow> bool" where
  "is_name_char c \<longleftrightarrow> is_lower c \<or> is_upper c \<or> c = CHR ''_''"

definition m_one :: "(char \<Rightarrow> bool) \<Rightarrow> string \<Rightarrow> nat" where
  "m_one P s = (case s of [] \<Rightarrow> 0 | c # _ \<Rightarrow> if P c then 1 else 0)"

definition m_text :: "string \<Rightarrow> string \<Rightarrow> nat" where
  "m_text t s = (if prefix t s then length t else 0)"

definition m_name :: "(char \<Rightarrow> bool) \<Rightarrow> string \<Rightarrow> nat" where
  "m_name P s =
     (case s of
        [] \<Rightarrow> 0
      | c # r \<Rightarrow> (let n = length (takeWhile is_name_char r) in if P c \<and> 0 < n then 1 + n else 0))"

definition m_digits :: "string \<Rightarrow> nat" where
  "m_digits s = length (takeWhile is_digit s)"

definition m_number :: "string \<Rightarrow> nat" where
  "m_number s =
     (case s of
        [] \<Rightarrow> 0
      | c # r \<Rightarrow> (if c = CHR ''-'' then (if 0 < m_digits r then 1 + m_digits r else 0) else m_digits s))"

definition m_comment :: "string \<Rightarrow> nat" where
  "m_comment s = (if prefix ''//'' s then length (takeWhile (\<lambda>c. c \<noteq> CHR 0x0A) s) else 0)"

section \<open>The rules and the scanner\<close>

type_synonym lex_rule = "(string \<Rightarrow> nat) \<times> (string \<Rightarrow> token option)"

definition lex_rules :: "lex_rule list" where
  "lex_rules =
     [(m_one (\<lambda>c. c \<in> {CHR '' '', CHR 0x09, CHR 0x0D}), \<lambda>_. None),
      (m_text ''Bench'', \<lambda>_. Some BENCH),
      (m_text ''SMR'', \<lambda>_. Some P_SMR),
      (m_text ''DMR'', \<lambda>_. Some P_DMR),
      (m_text ''TMR'', \<lambda>_. Some P_TMR),
      (m_text ''--'', \<lambda>_. Some START_PIPE),
      (m_text ''->'', \<lambda>_. Some END_PIPE),
      (m_text ''('', \<lambda>_. Some START_VOTE),
      (m_text '')'', \<lambda>_. Some END_VOTE),
      (m_text '':='', \<lambda>_. Some ASSIGN),
      (m_text '','', \<lambda>_. Some DELIM),
      (m_name is_lower, \<lambda>yytext. Some (VAR_NAME yytext)),
      (m_name is_upper, \<lambda>yytext. Some (NAMED_OB yytext)),
      (m_number, \<lambda>yytext. Some (NUMBER_VAL yytext)),
      (m_comment, \<lambda>_. Some EOL),
      (m_text [CHR 0x0A], \<lambda>_. Some EOL),
      (m_one (\<lambda>c. c \<noteq> CHR 0x0A), \<lambda>_. None)]"

fun best_rule :: "lex_rule list \<Rightarrow> string \<Rightarrow> nat \<times> (string \<Rightarrow> token option)" where
  "best_rule [] s = (0, \<lambda>_. None)"
| "best_rule ((m, act) # rs) s =
     (case best_rule rs s of (n, act') \<Rightarrow> if n \<le> m s then (m s, act) else (n, act'))"

lemma best_rule_longest: "(m, act) \<in> set rs \<Longrightarrow> m s \<le> fst (best_rule rs s)"
  by (induction rs s rule: best_rule.induct) (auto split: prod.split)

lemma best_rule_progress: "0 < fst (best_rule lex_rules (c # s))"
proof (cases "c = CHR 0x0A")
  case True
  have "(m_text [CHR 0x0A], \<lambda>_. Some EOL) \<in> set lex_rules" by (simp add: lex_rules_def)
  from best_rule_longest [OF this, of "c # s"] True show ?thesis by (simp add: m_text_def)
next
  case False
  have "(m_one (\<lambda>c. c \<noteq> CHR 0x0A), \<lambda>_. None) \<in> set lex_rules" by (simp add: lex_rules_def)
  from best_rule_longest [OF this, of "c # s"] False show ?thesis by (simp add: m_one_def)
qed

text \<open>One call of \<open>yylex\<close>: the next token and the rest of the text, or \<open>None\<close> at the end of the file.\<close>

function yylex :: "string \<Rightarrow> (token \<times> string) option" where
  "yylex [] = None"
| "yylex (c # s) =
     (case best_rule lex_rules (c # s) of
        (n, act) \<Rightarrow>
          (case act (take n (c # s)) of
             Some t \<Rightarrow> Some (t, drop n (c # s))
           | None \<Rightarrow> yylex (drop n (c # s))))"
  by pat_completeness auto

termination
proof (relation "measure length", goal_cases)
  case (2 c s n act)
  then have "0 < n" using best_rule_progress [of c s] by (metis fst_conv)
  then show ?case by simp
qed simp

lemma yylex_shorter: "yylex s = Some (t, r) \<Longrightarrow> length r < length s"
proof (induction s rule: yylex.induct)
  case (2 c s)
  obtain n act where b: "best_rule lex_rules (c # s) = (n, act)" by fastforce
  have n: "0 < n" using best_rule_progress [of c s] b by simp
  show ?case
  proof (cases "act (take n (c # s))")
    case None
    then have "length r < length (drop n (c # s))" using 2 b by auto
    then show ?thesis by simp
  next
    case (Some t')
    then show ?thesis using 2(2) b n by auto
  qed
qed simp

text \<open>The tokens of a file, as the calls of \<open>yylex\<close> deliver them.\<close>

function tokens :: "string \<Rightarrow> token list" where
  "tokens s = (case yylex s of None \<Rightarrow> [] | Some (t, r) \<Rightarrow> t # tokens r)"
  by pat_completeness auto

termination by (relation "measure length") (auto dest: yylex_shorter)

declare tokens.simps [simp del]

section \<open>What the scanner reads\<close>

lemma best_rule_at:
  assumes "i < length rs" "rs ! i = (m, act)" "m s = n" "list_all (\<lambda>r. fst r s < n) (take i rs)"
    "list_all (\<lambda>r. fst r s \<le> n) (drop (Suc i) rs)"
  shows "best_rule rs s = (n, act)"
  using assms
proof (induction rs arbitrary: i)
  case (Cons r rs)
  have le: "list_all (\<lambda>r. fst r s \<le> n) rs' \<Longrightarrow> fst (best_rule rs' s) \<le> n" for rs'
    by (induction rs' s rule: best_rule.induct) (auto split: prod.split)
  show ?case
  proof (cases i)
    case 0
    then show ?thesis using Cons.prems le [of rs] by (auto split: prod.split)
  next
    case (Suc j)
    then have "best_rule rs s = (n, act)" using Cons.IH [of j] Cons.prems by simp
    then show ?thesis using Cons.prems Suc by (cases r) auto
  qed
qed simp

lemma tokens_Nil [simp]: "tokens [] = []"
  by (simp add: tokens.simps)

lemma tokens_step:
  assumes "i < length lex_rules" "fst (lex_rules ! i) s = n" "list_all (\<lambda>r. fst r s < n) (take i lex_rules)"
    "list_all (\<lambda>r. fst r s \<le> n) (drop (Suc i) lex_rules)" "s \<noteq> []"
  shows "tokens s = (case snd (lex_rules ! i) (take n s) of Some t \<Rightarrow> t # tokens (drop n s) | None \<Rightarrow> tokens (drop n s))"
proof -
  obtain c r where s: "s = c # r" using assms(5) by (cases s) auto
  have "best_rule lex_rules s = (n, snd (lex_rules ! i))"
    using assms(1-4) by (intro best_rule_at [where m = "fst (lex_rules ! i)"]) simp_all
  then show ?thesis
    by (subst tokens.simps) (auto simp: s tokens.simps [of "drop n (c # r)"] split: option.splits)
qed

definition stops :: "(char \<Rightarrow> bool) \<Rightarrow> string \<Rightarrow> bool" where
  "stops P s \<longleftrightarrow> s = [] \<or> \<not> P (hd s)"

lemma stops_simps [simp]: "stops P []" "stops P (c # s) \<longleftrightarrow> \<not> P c"
  by (simp_all add: stops_def)

lemma takeWhile_stops: "\<forall>c \<in> set w. P c \<Longrightarrow> stops P s \<Longrightarrow> takeWhile P (w @ s) = w"
  by (cases s) simp_all

lemmas char_class_defs = is_lower_def is_upper_def is_name_char_def is_digit_def
lemmas pattern_defs = m_one_def m_text_def m_name_def m_number_def m_digits_def m_comment_def

lemmas match_simps = lex_rules_def pattern_defs char_class_defs

lemma tokens_blank [simp]: "tokens (CHR '' '' # s) = tokens s"
  by (subst tokens_step [of 0 _ 1]) (simp_all add: match_simps)

lemma tokens_symbol [simp]:
  "tokens (CHR ''('' # s) = START_VOTE # tokens s"
  "tokens (CHR '')'' # s) = END_VOTE # tokens s"
  "tokens (CHR '','' # s) = DELIM # tokens s"
  "tokens (CHR '':'' # CHR ''='' # s) = ASSIGN # tokens s"
  "tokens (CHR ''-'' # CHR ''-'' # s) = START_PIPE # tokens s"
  "tokens (CHR ''-'' # CHR ''>'' # s) = END_PIPE # tokens s"
  "tokens (CHR 0x0A # s) = EOL # tokens s"
proof -
  show "tokens (CHR ''('' # s) = START_VOTE # tokens s"
    by (subst tokens_step [of 7 _ 1]) (simp_all add: match_simps)
  show "tokens (CHR '')'' # s) = END_VOTE # tokens s"
    by (subst tokens_step [of 8 _ 1]) (simp_all add: match_simps)
  show "tokens (CHR '','' # s) = DELIM # tokens s"
    by (subst tokens_step [of 10 _ 1]) (simp_all add: match_simps)
  show "tokens (CHR '':'' # CHR ''='' # s) = ASSIGN # tokens s"
    by (subst tokens_step [of 9 _ 2]) (simp_all add: match_simps)
  show "tokens (CHR ''-'' # CHR ''-'' # s) = START_PIPE # tokens s"
    by (subst tokens_step [of 5 _ 2]) (simp_all add: match_simps)
  show "tokens (CHR ''-'' # CHR ''>'' # s) = END_PIPE # tokens s"
    by (subst tokens_step [of 6 _ 2]) (simp_all add: match_simps)
  show "tokens (CHR 0x0A # s) = EOL # tokens s"
    by (subst tokens_step [of 15 _ 1]) (simp_all add: match_simps)
qed

lemma tokens_keyword:
  assumes "stops is_name_char s"
  shows "tokens (''Bench'' @ s) = BENCH # tokens s"
    "tokens (''SMR'' @ s) = P_SMR # tokens s"
    "tokens (''DMR'' @ s) = P_DMR # tokens s"
    "tokens (''TMR'' @ s) = P_TMR # tokens s"
proof -
  have e: "takeWhile is_name_char s = []"
    using takeWhile_stops [of "[]" is_name_char s] assms by simp
  show "tokens (''Bench'' @ s) = BENCH # tokens s"
    by (subst tokens_step [of 1 _ 5]) (simp_all add: e match_simps)
  show "tokens (''SMR'' @ s) = P_SMR # tokens s"
    by (subst tokens_step [of 2 _ 3]) (simp_all add: e match_simps)
  show "tokens (''DMR'' @ s) = P_DMR # tokens s"
    by (subst tokens_step [of 3 _ 3]) (simp_all add: e match_simps)
  show "tokens (''TMR'' @ s) = P_TMR # tokens s"
    by (subst tokens_step [of 4 _ 3]) (simp_all add: e match_simps)
qed

definition var_name :: "string \<Rightarrow> bool" where
  "var_name w \<longleftrightarrow> (case w of [] \<Rightarrow> False | c # r \<Rightarrow> is_lower c \<and> r \<noteq> [] \<and> list_all is_name_char r)"

definition named_ob :: "string \<Rightarrow> bool" where
  "named_ob w \<longleftrightarrow> w \<notin> {''Bench'', ''SMR'', ''DMR'', ''TMR''} \<and>
     (case w of [] \<Rightarrow> False | c # r \<Rightarrow> is_upper c \<and> r \<noteq> [] \<and> list_all is_name_char r)"

definition number_val :: "string \<Rightarrow> bool" where
  "number_val w \<longleftrightarrow>
     (case w of [] \<Rightarrow> False
      | c # r \<Rightarrow> if c = CHR ''-'' then r \<noteq> [] \<and> list_all is_digit r else list_all is_digit w)"

lemma m_name_word:
  assumes "P c" "r \<noteq> []" "list_all is_name_char r" "stops is_name_char s"
  shows "m_name P (c # r @ s) = Suc (length r)"
  using assms takeWhile_stops [of r is_name_char s] by (simp add: m_name_def list_all_iff Let_def)

lemma m_text_word:
  assumes "list_all is_name_char t" "list_all is_name_char w" "stops is_name_char s" "t \<noteq> w" "w \<noteq> []"
  shows "m_text t (w @ s) < length w"
proof (cases "prefix t (w @ s)")
  case True
  consider "prefix t w" | us where "t = w @ us" "prefix us s"
    using True by (auto simp: prefix_append)
  then show ?thesis
  proof cases
    case 1
    then show ?thesis using assms(4,5) True
      by (auto simp: m_text_def prefix_def dest: prefix_length_less)
  next
    case 2
    then show ?thesis using assms(1,3,4) by (cases us; cases s) auto
  qed
qed (use assms(5) in \<open>simp add: m_text_def\<close>)

lemma class_other:
  "is_lower c \<Longrightarrow> list_all (\<lambda>a. a \<noteq> c \<and> c \<noteq> a) (''BSDT-(): ,/>'' @ [CHR 0x09, CHR 0x0A, CHR 0x0D]) \<and> \<not> is_upper c \<and> \<not> is_digit c"
  "is_upper c \<Longrightarrow> list_all (\<lambda>a. a \<noteq> c \<and> c \<noteq> a) (''-(): ,/'' @ [CHR 0x09, CHR 0x0A, CHR 0x0D]) \<and> \<not> is_lower c \<and> \<not> is_digit c"
  "is_digit c \<Longrightarrow> list_all (\<lambda>a. a \<noteq> c \<and> c \<noteq> a) (''BSDT-(): ,/>'' @ [CHR 0x09, CHR 0x0A, CHR 0x0D]) \<and> \<not> is_lower c \<and> \<not> is_upper c"
  by (auto simp: char_class_defs)

lemma tokens_var_name:
  assumes "var_name w" "stops is_name_char s"
  shows "tokens (w @ s) = VAR_NAME w # tokens s"
proof -
  obtain c r where w: "w = c # r" "is_lower c" "r \<noteq> []" "list_all is_name_char r"
    using assms(1) by (auto simp: var_name_def split: list.splits)
  show ?thesis
    using class_other(1) [OF w(2)] w m_name_word [of is_lower c r s] assms(2)
    by (subst tokens_step [of 11 _ "length w"])
      (simp_all add: lex_rules_def m_one_def m_text_def m_number_def m_digits_def m_comment_def, simp_all add: m_name_def)
qed

lemma tokens_named_ob:
  assumes "named_ob w" "stops is_name_char s"
  shows "tokens (w @ s) = NAMED_OB w # tokens s"
proof -
  obtain c r where w: "w = c # r" "is_upper c" "r \<noteq> []" "list_all is_name_char r"
    using assms(1) by (auto simp: named_ob_def split: list.splits)
  have "m_text t (w @ s) < length w" if "t \<in> {''Bench'', ''SMR'', ''DMR'', ''TMR''}" for t
    using that assms w by (intro m_text_word) (auto simp: named_ob_def char_class_defs)
  then have kw: "m_text ''Bench'' (c # r @ s) < Suc (length r)" "m_text ''SMR'' (c # r @ s) < Suc (length r)"
    "m_text ''DMR'' (c # r @ s) < Suc (length r)" "m_text ''TMR'' (c # r @ s) < Suc (length r)"
    using w(1) by simp_all
  have sym: "m_text (a # t) (c # r @ s) = 0" if "a \<in> set ''-(): ,/'' \<or> a = CHR 0x0A" for a t
    using that class_other(2) [OF w(2)] by (auto simp: m_text_def)
  show ?thesis
    using class_other(2) [OF w(2)] w m_name_word [of is_upper c r s] assms(2) kw
    by (subst tokens_step [of 12 _ "length w"])
      (simp_all add: lex_rules_def m_one_def sym m_number_def m_digits_def m_comment_def, simp_all add: m_name_def)
qed

lemma tokens_number_val:
  assumes "number_val w" "stops is_digit s"
  shows "tokens (w @ s) = NUMBER_VAL w # tokens s"
proof -
  obtain c r where w: "w = c # r" "c = CHR ''-'' \<and> r \<noteq> [] \<or> is_digit c" "list_all is_digit r"
    using assms(1) by (auto simp: number_val_def split: list.splits if_splits)
  have t: "takeWhile is_digit (r @ s) = r" using takeWhile_stops [of r is_digit s] w(3) assms(2) by (simp add: list_all_iff)
  show ?thesis
  proof (cases "is_digit c")
    case True
    then show ?thesis
      using class_other(3) [OF True] w t
      by (subst tokens_step [of 13 _ "length w"])
        (simp_all add: lex_rules_def m_one_def m_text_def m_number_def m_digits_def m_comment_def, simp_all add: m_name_def)
  next
    case False
    then obtain d r' where r: "c = CHR ''-''" "r = d # r'" "is_digit d" using w by (cases r) auto
    then show ?thesis
      using class_other(3) [OF r(3)] w t
      by (subst tokens_step [of 13 _ "length w"])
        (simp_all add: lex_rules_def m_one_def m_text_def m_number_def m_digits_def m_comment_def, simp_all add: m_name_def char_class_defs)
  qed
qed

lemma tokens_comment:
  assumes "CHR 0x0A \<notin> set w"
  shows "tokens (CHR ''/'' # CHR ''/'' # w @ CHR 0x0A # s) = EOL # EOL # tokens s"
proof -
  have t: "takeWhile (\<lambda>c. c \<noteq> CHR 0x0A) (w @ CHR 0x0A # s) = w"
    using assms by (intro takeWhile_stops) auto
  show ?thesis
    by (subst tokens_step [of 14 _ "2 + length w"])
      (simp_all add: lex_rules_def m_one_def m_text_def m_number_def m_digits_def m_comment_def m_name_def char_class_defs t)
qed

end
