(* ===== verification/Posix.thy ===== *)
theory Posix imports Prelude begin

text \<open>
  The part of POSIX that PINT's processes call: file descriptors, pipes, \<open>read\<close>, \<open>write\<close>,
  \<open>select\<close>, \<open>close\<close>, \<open>kill\<close>, \<open>waitpid\<close>, \<open>fork\<close>, the scheduler calls and the clock. The state
  is the calling process's view of the kernel: its descriptor table (the position in the list is
  the descriptor, the lowest free one is given out), the bytes queued in each pipe, the processes
  that are alive. What other processes contribute is a script that the calls consume: the bytes
  that end a blocking \<open>read\<close> on an empty pipe, the results of \<open>fork\<close>, the clients that \<open>accept\<close>
  meets, the readings of the clock. A blocking \<open>write\<close> completes: the kernel's pipe capacity
  delays a writer and does not change the bytes. \<open>TEMP_FAILURE_RETRY\<close> repeats a call that was
  interrupted, so a call here is the last, uninterrupted attempt.
\<close>

section \<open>State\<close>

datatype fd_object = ReadEnd nat | WriteEnd nat | SocketEnd

datatype signal_t = SIGKILL | RESTART_SIGNAL

datatype policy_t = SCHED_RR | SCHED_OTHER

text \<open>
  What a client that \<open>accept\<close> meets does: it may take the message sent to it or fail to, and the
  bytes it writes back are what the server reads.
\<close>

datatype peer = AcceptFails | Peer (peer_takes: bool) (peer_reply: "byte list")

record os =
  os_fd_table :: "fd_object option list"
  os_fd_max :: nat
  os_pipes :: "byte list list"
  os_hup :: "nat list"
  os_late :: "byte list list"
  os_alive :: "pid list"
  os_zombies :: "pid list"
  os_signals :: "(pid \<times> signal_t) list"
  os_sched :: "(pid \<times> policy_t \<times> int) list"
  os_forks :: "pid list"
  os_execs :: "(pid \<times> string list) list"
  os_peers :: "peer list"
  os_passed :: "(byte list \<times> fd list) list"
  os_clock :: "timestamp list"

section \<open>Descriptors\<close>

definition os_lookup :: "os \<Rightarrow> fd \<Rightarrow> fd_object option" where
  "os_lookup k fd =
     (if 0 \<le> fd \<and> nat fd < length (os_fd_table k) then os_fd_table k ! nat fd else None)"

fun lowest_free :: "'a option list \<Rightarrow> nat" where
  "lowest_free [] = 0"
| "lowest_free (None # xs) = 0"
| "lowest_free (Some x # xs) = Suc (lowest_free xs)"

definition os_alloc :: "os \<Rightarrow> fd_object \<Rightarrow> os \<times> fd" where
  "os_alloc k ob =
     (let n = lowest_free (os_fd_table k) in
      if os_fd_max k \<le> n then (k, - 1)
      else if n < length (os_fd_table k)
        then (k\<lparr>os_fd_table := (os_fd_table k)[n := Some ob]\<rparr>, int n)
        else (k\<lparr>os_fd_table := os_fd_table k @ [Some ob]\<rparr>, int n))"

definition os_close :: "os \<Rightarrow> fd \<Rightarrow> os \<times> int" where
  "os_close k fd =
     (if os_lookup k fd = None then (k, - 1)
      else (k\<lparr>os_fd_table := (os_fd_table k)[nat fd := None]\<rparr>, 0))"

text \<open>\<open>pipe(2)\<close>: a fresh pipe, its read end and its write end; nothing is left open on failure.\<close>

definition os_pipe :: "os \<Rightarrow> os \<times> (fd \<times> fd) option" where
  "os_pipe k =
     (let p = length (os_pipes k);
          (k1, r) = os_alloc k (ReadEnd p);
          (k2, w) = os_alloc k1 (WriteEnd p) in
      if r < 0 \<or> w < 0 then (k, None)
      else (k2\<lparr>os_pipes := os_pipes k @ [[]]\<rparr>, Some (r, w)))"

section \<open>Reading, writing, waiting\<close>

text \<open>
  \<open>os_read\<close> gives \<open>None\<close> for a result of -1 and the bytes read otherwise; no bytes is the result 0
  (end of file, or a request for nothing). A read that would wait for ever, on an empty pipe without
  hang-up when the script of late bytes has ended, gives no bytes as well: \<open>read_waits\<close> tells the two
  apart, and statements on such a read are made with it.
\<close>

definition os_read :: "os \<Rightarrow> fd \<Rightarrow> nat \<Rightarrow> os \<times> byte list option" where
  "os_read k fd n =
     (case os_lookup k fd of
        Some (ReadEnd p) \<Rightarrow>
          (if length (os_pipes k) \<le> p then (k, None)
           else if n = 0 then (k, Some [])
           else if os_pipes k ! p \<noteq> [] then
             (k\<lparr>os_pipes := (os_pipes k)[p := drop n (os_pipes k ! p)]\<rparr>,
              Some (take n (os_pipes k ! p)))
           else if p \<in> set (os_hup k) then (k, Some [])
           else (case os_late k of
                   [] \<Rightarrow> (k, Some [])
                 | bs # rest \<Rightarrow>
                     (k\<lparr>os_late := rest, os_pipes := (os_pipes k)[p := drop n bs]\<rparr>,
                      Some (take n bs))))
      | _ \<Rightarrow> (k, None))"

text \<open>
  \<open>read(2)\<close> waits: the pipe is empty and a write end of it is open, here one that the caller itself holds,
  so that no other process can bring about an end of file.
\<close>

definition read_waits :: "os \<Rightarrow> fd \<Rightarrow> bool" where
  "read_waits k fd \<longleftrightarrow> (\<exists>p. os_lookup k fd = Some (ReadEnd p) \<and> p < length (os_pipes k) \<and> os_pipes k ! p = [] \<and>
     Some (WriteEnd p) \<in> set (os_fd_table k))"

text \<open>
  \<open>os_write k fd mem n\<close> writes the first \<open>n\<close> bytes at the address whose memory is \<open>mem\<close>; a
  negative count is a request beyond the largest size and is refused.
\<close>

definition os_write :: "os \<Rightarrow> fd \<Rightarrow> byte list \<Rightarrow> int \<Rightarrow> os \<times> int" where
  "os_write k fd mem n =
     (case os_lookup k fd of
        Some (WriteEnd p) \<Rightarrow>
          (if length (os_pipes k) \<le> p \<or> n < 0 then (k, - 1)
           else (k\<lparr>os_pipes := (os_pipes k)[p := os_pipes k ! p @ take (nat n) mem]\<rparr>, n))
      | _ \<Rightarrow> (k, - 1))"

definition os_readable :: "os \<Rightarrow> fd \<Rightarrow> bool" where
  "os_readable k fd =
     (case os_lookup k fd of
        Some (ReadEnd p) \<Rightarrow>
          p < length (os_pipes k) \<and> (os_pipes k ! p \<noteq> [] \<or> p \<in> set (os_hup k))
      | _ \<Rightarrow> False)"

text \<open>\<open>select\<close> on a set of descriptors for reading: the members that are ready.\<close>

definition os_select :: "os \<Rightarrow> fd list \<Rightarrow> fd list" where
  "os_select k fds = filter (os_readable k) fds"

section \<open>Processes, signals, scheduling, time\<close>

text \<open>
  A process id of -1 addresses every process the caller may signal. A killed process is a zombie
  of its parent until it is waited for; a signal to a zombie succeeds and has no effect. The ids that
  address process groups, 0 and those below -1, are not distinguished from ids of no process.
\<close>

definition os_kill :: "os \<Rightarrow> pid \<Rightarrow> signal_t \<Rightarrow> os \<times> int" where
  "os_kill k p sig =
     (if p = - 1 then
        (case sig of
           SIGKILL \<Rightarrow> (k\<lparr>os_alive := [], os_zombies := os_zombies k @ os_alive k\<rparr>, 0)
         | _ \<Rightarrow> (k\<lparr>os_signals := os_signals k @ map (\<lambda>q. (q, sig)) (os_alive k)\<rparr>, 0))
      else if p \<in> set (os_alive k) then
        (case sig of
           SIGKILL \<Rightarrow> (k\<lparr>os_alive := removeAll p (os_alive k), os_zombies := os_zombies k @ [p]\<rparr>, 0)
         | _ \<Rightarrow> (k\<lparr>os_signals := os_signals k @ [(p, sig)]\<rparr>, 0))
      else if p \<in> set (os_zombies k) then (k, 0)
      else (k, - 1))"

definition os_waitpid_nohang :: "os \<Rightarrow> os \<times> pid" where
  "os_waitpid_nohang k =
     (case os_zombies k of [] \<Rightarrow> (k, 0) | z # zs \<Rightarrow> (k\<lparr>os_zombies := zs\<rparr>, z))"

text \<open>
  \<open>fork\<close> followed by \<open>execv\<close> in the child, seen from the parent: the child's id, and the argument
  vector it was started with.
\<close>

definition os_fork_exec :: "os \<Rightarrow> string list \<Rightarrow> os \<times> pid" where
  "os_fork_exec k argv =
     (case os_forks k of
        [] \<Rightarrow> (k, - 1)
      | p # ps \<Rightarrow>
          (if p \<le> 0 then (k\<lparr>os_forks := ps\<rparr>, - 1)
           else (k\<lparr>os_forks := ps, os_alive := os_alive k @ [p],
                   os_execs := os_execs k @ [(p, argv)]\<rparr>, p)))"

definition os_sched_setscheduler :: "os \<Rightarrow> pid \<Rightarrow> policy_t \<Rightarrow> int \<Rightarrow> os \<times> int" where
  "os_sched_setscheduler k p pol prio =
     (if p \<in> set (os_alive k) then (k\<lparr>os_sched := os_sched k @ [(p, pol, prio)]\<rparr>, 0) else (k, - 1))"

definition os_setpriority :: "os \<Rightarrow> pid \<Rightarrow> int \<Rightarrow> os \<times> int" where
  "os_setpriority k p nice = (k, if p \<in> set (os_alive k) then 0 else - 1)"

definition os_time :: "os \<Rightarrow> os \<times> timestamp" where
  "os_time k = (case os_clock k of [] \<Rightarrow> (k, 0) | t # ts \<Rightarrow> (k\<lparr>os_clock := ts\<rparr>, t))"

section \<open>What the calls keep\<close>

text \<open>
  Descriptor 0 is standard input: PINT uses 0 for "no descriptor", which is sound as long as it
  stays open. Every pipe end refers to an existing pipe.
\<close>

definition wf_os :: "os \<Rightarrow> bool" where
  "wf_os k \<longleftrightarrow> os_lookup k 0 \<noteq> None \<and>
     (\<forall>ob p. Some ob \<in> set (os_fd_table k) \<and> (ob = ReadEnd p \<or> ob = WriteEnd p) \<longrightarrow>
        p < length (os_pipes k))"

lemma os_lookup_update [simp]:
  "os_lookup (k\<lparr>os_pipes := ps\<rparr>) fd = os_lookup k fd"
  "os_lookup (k\<lparr>os_late := ls\<rparr>) fd = os_lookup k fd"
  "os_lookup (k\<lparr>os_alive := al\<rparr>) fd = os_lookup k fd"
  "os_lookup (k\<lparr>os_zombies := zs\<rparr>) fd = os_lookup k fd"
  "os_lookup (k\<lparr>os_signals := sg\<rparr>) fd = os_lookup k fd"
  "os_lookup (k\<lparr>os_sched := sc\<rparr>) fd = os_lookup k fd"
  "os_lookup (k\<lparr>os_forks := fs\<rparr>) fd = os_lookup k fd"
  "os_lookup (k\<lparr>os_execs := ex\<rparr>) fd = os_lookup k fd"
  "os_lookup (k\<lparr>os_peers := pr\<rparr>) fd = os_lookup k fd"
  "os_lookup (k\<lparr>os_passed := pa\<rparr>) fd = os_lookup k fd"
  "os_lookup (k\<lparr>os_clock := cl\<rparr>) fd = os_lookup k fd"
  by (simp_all add: os_lookup_def)

lemma os_lookup_cong: "os_fd_table k1 = os_fd_table k \<Longrightarrow> os_lookup k1 fd = os_lookup k fd"
  by (simp add: os_lookup_def)

lemma os_lookup_table: "os_lookup k fd = Some ob \<Longrightarrow> Some ob \<in> set (os_fd_table k)"
  by (auto simp: os_lookup_def split: if_splits) (metis nth_mem)

lemma wf_os_lookupD:
  assumes "wf_os k"
  shows "os_lookup k fd = Some (ReadEnd p) \<Longrightarrow> p < length (os_pipes k)"
    and "os_lookup k fd = Some (WriteEnd p) \<Longrightarrow> p < length (os_pipes k)"
  using assms os_lookup_table unfolding wf_os_def by blast+

text \<open>Descriptors are given out from the lowest free one on.\<close>

lemma lowest_free_eq:
  "\<forall>i < n. i < length xs \<and> xs ! i \<noteq> None \<Longrightarrow> n < length xs \<longrightarrow> xs ! n = None \<Longrightarrow> lowest_free xs = n"
proof (induction xs arbitrary: n rule: lowest_free.induct)
  case (2 xs)
  then show ?case using 2(1) [rule_format, of 0] by (cases n) auto
next
  case (3 x xs)
  then obtain m where n: "n = Suc m" by (cases n) auto
  have "\<forall>i < m. i < length xs \<and> xs ! i \<noteq> None" using 3(2) [rule_format, of "Suc i" for i] n by auto
  then show ?case using 3(1) [of m] 3(3) n by simp
qed force

lemma os_alloc_lowest:
  assumes "os_alloc k ob = (k', f)" "0 \<le> f" "\<And>g. 0 \<le> g \<Longrightarrow> g < int n \<Longrightarrow> os_lookup k g \<noteq> None" "os_lookup k (int n) = None"
  shows "f = int n"
proof -
  have "i < length (os_fd_table k) \<and> os_fd_table k ! i \<noteq> None" if "i < n" for i
    using assms(3) [of "int i"] that by (simp add: os_lookup_def split: if_splits)
  moreover have "n < length (os_fd_table k) \<longrightarrow> os_fd_table k ! n = None"
    using assms(4) by (simp add: os_lookup_def split: if_splits)
  ultimately have "lowest_free (os_fd_table k) = n" by (intro lowest_free_eq) blast+
  then show ?thesis using assms(1,2) by (auto simp: os_alloc_def Let_def split: if_splits)
qed

lemma lowest_free_le: "lowest_free xs \<le> length xs"
  by (induction xs rule: lowest_free.induct) auto

lemma lowest_free_None: "lowest_free xs < length xs \<Longrightarrow> xs ! lowest_free xs = None"
  by (induction xs rule: lowest_free.induct) auto

text \<open>The bytes queued behind a descriptor.\<close>

definition fd_queue :: "os \<Rightarrow> fd \<Rightarrow> byte list" where
  "fd_queue k fd =
     (case os_lookup k fd of
        Some (ReadEnd p) \<Rightarrow> os_pipes k ! p
      | Some (WriteEnd p) \<Rightarrow> os_pipes k ! p
      | _ \<Rightarrow> [])"

lemma os_write_queue:
  assumes "os_lookup k fd = Some (WriteEnd p)" "p < length (os_pipes k)" "0 \<le> n"
  shows "os_write k fd mem n =
    (k\<lparr>os_pipes := (os_pipes k)[p := os_pipes k ! p @ take (nat n) mem]\<rparr>, n)"
  using assms by (simp add: os_write_def)

lemma os_alloc_ok:
  assumes "os_alloc k ob = (k', f)" "0 \<le> f"
  shows "os_lookup k f = None" "os_lookup k' g = (if g = f then Some ob else os_lookup k g)"
    "k' = k\<lparr>os_fd_table := os_fd_table k'\<rparr>"
proof -
  let ?t = "os_fd_table k" and ?n = "lowest_free (os_fd_table k)"
  have f: "f = int ?n" and t: "os_fd_table k' = (if ?n < length ?t then ?t[?n := Some ob] else ?t @ [Some ob])"
    and k': "k' = k\<lparr>os_fd_table := os_fd_table k'\<rparr>"
    using assms by (auto simp: os_alloc_def Let_def split: if_splits)
  show "os_lookup k f = None" using f lowest_free_None [of ?t] by (simp add: os_lookup_def)
  show "k' = k\<lparr>os_fd_table := os_fd_table k'\<rparr>" by (rule k')
  show "os_lookup k' g = (if g = f then Some ob else os_lookup k g)"
    using lowest_free_le [of ?t] by (auto simp: os_lookup_def t f nth_append nth_list_update)
qed

lemma os_alloc_fail: "os_alloc k ob = (k', f) \<Longrightarrow> f < 0 \<Longrightarrow> k' = k"
  by (auto simp: os_alloc_def Let_def split: if_splits)

lemma os_close_lookup:
  "os_lookup (fst (os_close k fd)) g = (if g = fd then None else os_lookup k g)"
  by (auto simp: os_close_def os_lookup_def nth_list_update)

lemma os_close_frame:
  "fst (os_close k fd) = k\<lparr>os_fd_table := os_fd_table (fst (os_close k fd))\<rparr>"
  by (simp add: os_close_def)

text \<open>The descriptors that arrive with a message are entered in the receiver's table in order.\<close>

fun os_install :: "os \<Rightarrow> fd_object list \<Rightarrow> os \<times> fd list" where
  "os_install k [] = (k, [])"
| "os_install k (ob # obs) =
     (let (k1, f) = os_alloc k ob in
      if f < 0 then (k1, []) else (let (k2, fs) = os_install k1 obs in (k2, f # fs)))"

lemma os_install_keeps:
  assumes "os_install k obs = (k', fs)" "os_lookup k g \<noteq> None"
  shows "os_lookup k' g = os_lookup k g"
  using assms
proof (induction obs arbitrary: k fs)
  case (Cons ob obs)
  obtain k1 f where a: "os_alloc k ob = (k1, f)" by fastforce
  show ?case
  proof (cases "f < 0")
    case True
    then show ?thesis using Cons.prems a os_alloc_fail [OF a True] by simp
  next
    case False
    then have "os_lookup k1 g = os_lookup k g" using os_alloc_ok(1) [OF a] os_alloc_ok(2) [OF a, of g] Cons.prems(2) by auto
    then show ?thesis using Cons a False by (auto split: prod.splits)
  qed
qed simp

lemma os_install_lookup:
  assumes "os_install k obs = (k', fs)" "i < length fs"
  shows "0 \<le> fs ! i \<and> os_lookup k (fs ! i) = None \<and> os_lookup k' (fs ! i) = Some (obs ! i)"
  using assms
proof (induction obs arbitrary: k fs i)
  case (Cons ob obs)
  obtain k1 f where a: "os_alloc k ob = (k1, f)" by fastforce
  obtain fs' where f: "0 \<le> f" "os_install k1 obs = (k', fs')" "fs = f # fs'"
    using Cons.prems a by (auto split: prod.splits if_splits)
  have l: "os_lookup k1 g = (if g = f then Some ob else os_lookup k g)" for g
    using os_alloc_ok(2) [OF a f(1)] .
  show ?case
  proof (cases i)
    case 0
    then show ?thesis
      using f os_alloc_ok(1) [OF a f(1)] os_install_keeps [OF f(2), of f] l by simp
  next
    case (Suc j)
    then have "os_lookup k1 (fs' ! j) = None" "0 \<le> fs' ! j" "os_lookup k' (fs' ! j) = Some (obs ! j)"
      using Cons.IH [OF f(2), of j] Cons.prems(2) f(3) by auto
    then show ?thesis using Suc f(3) l [of "fs' ! j"] by (auto split: if_splits)
  qed
qed simp

section \<open>Open descriptors\<close>

definition open_fds :: "os \<Rightarrow> fd set" where
  "open_fds k = {fd. os_lookup k fd \<noteq> None}"

lemma open_fds_table: "open_fds k \<subseteq> int ` {..<length (os_fd_table k)}"
  by (auto simp: open_fds_def os_lookup_def image_iff split: if_splits) (metis int_nat_eq lessThan_iff)

lemma finite_open_fds [simp]: "finite (open_fds k)"
  by (rule finite_subset [OF open_fds_table]) simp

lemma card_open_fds_table: "card (open_fds k) \<le> length (os_fd_table k)"
  using card_mono [OF _ open_fds_table, of k] by (simp add: card_image)

lemma lowest_free_below: "i < lowest_free xs \<Longrightarrow> i < length xs \<and> xs ! i \<noteq> None"
proof (induction xs arbitrary: i rule: lowest_free.induct)
  case (3 x xs)
  then show ?case by (cases i) auto
qed auto

lemma lowest_free_card: "lowest_free (os_fd_table k) \<le> card (open_fds k)"
proof -
  have "int ` {..<lowest_free (os_fd_table k)} \<subseteq> open_fds k"
    using lowest_free_below [of _ "os_fd_table k"] by (auto simp: open_fds_def os_lookup_def)
  then have "card (int ` {..<lowest_free (os_fd_table k)}) \<le> card (open_fds k)"
    by (intro card_mono) simp_all
  then show ?thesis by (simp add: card_image)
qed

lemma os_alloc_room:
  assumes "card (open_fds k) < os_fd_max k"
  obtains k' f where "os_alloc k ob = (k', f)" "0 \<le> f" "f \<notin> open_fds k"
    "open_fds k' = insert f (open_fds k)" "card (open_fds k') = Suc (card (open_fds k))"
    "os_lookup k' f = Some ob" "\<And>g. g \<noteq> f \<Longrightarrow> os_lookup k' g = os_lookup k g"
    "k' = k\<lparr>os_fd_table := os_fd_table k'\<rparr>"
proof -
  obtain k' f where a: "os_alloc k ob = (k', f)" by fastforce
  have f: "0 \<le> f"
    using a assms lowest_free_card [of k] by (auto simp: os_alloc_def Let_def split: if_splits)
  note ok = os_alloc_ok [OF a f]
  have "f \<notin> open_fds k" "open_fds k' = insert f (open_fds k)"
    using ok(1,2) by (auto simp: open_fds_def)
  then show thesis
    using that [OF a f] ok by simp
qed

lemma os_pipe_room:
  assumes "card (open_fds k) + 2 \<le> os_fd_max k" "os_lookup k 0 \<noteq> None"
  obtains k' r w where "os_pipe k = (k', Some (r, w))" "0 < r" "0 < w" "r \<noteq> w"
    "r \<notin> open_fds k" "w \<notin> open_fds k" "open_fds k' = open_fds k \<union> {r, w}"
    "card (open_fds k') = card (open_fds k) + 2"
    "os_lookup k' r = Some (ReadEnd (length (os_pipes k)))"
    "os_lookup k' w = Some (WriteEnd (length (os_pipes k)))"
    "\<forall>g \<in> open_fds k. os_lookup k' g = os_lookup k g"
    "k' = k\<lparr>os_fd_table := os_fd_table k', os_pipes := os_pipes k @ [[]]\<rparr>"
proof -
  let ?p = "length (os_pipes k)"
  have "card (open_fds k) < os_fd_max k" using assms(1) by simp
  from os_alloc_room [OF this, of "ReadEnd ?p"] obtain k1 r where
    1: "os_alloc k (ReadEnd ?p) = (k1, r)" "0 \<le> r" "r \<notin> open_fds k"
      "open_fds k1 = insert r (open_fds k)" "card (open_fds k1) = Suc (card (open_fds k))"
      "os_lookup k1 r = Some (ReadEnd ?p)" "\<And>g. g \<noteq> r \<Longrightarrow> os_lookup k1 g = os_lookup k g"
      "k1 = k\<lparr>os_fd_table := os_fd_table k1\<rparr>"
    by blast
  have "os_fd_max k1 = os_fd_max k" by (subst 1(8)) simp
  then have "card (open_fds k1) < os_fd_max k1" using assms(1) 1(5) by simp
  from os_alloc_room [OF this, of "WriteEnd ?p"] obtain k2 w where
    2: "os_alloc k1 (WriteEnd ?p) = (k2, w)" "0 \<le> w" "w \<notin> open_fds k1"
      "open_fds k2 = insert w (open_fds k1)" "card (open_fds k2) = Suc (card (open_fds k1))"
      "os_lookup k2 w = Some (WriteEnd ?p)" "\<And>g. g \<noteq> w \<Longrightarrow> os_lookup k2 g = os_lookup k1 g"
      "k2 = k1\<lparr>os_fd_table := os_fd_table k2\<rparr>"
    by blast
  let ?k = "k2\<lparr>os_pipes := os_pipes k @ [[]]\<rparr>"
  have 0: "0 \<in> open_fds k" using assms(2) by (simp add: open_fds_def)
  have op: "open_fds ?k = open_fds k2" by (simp add: open_fds_def)
  have "os_pipe k = (?k, Some (r, w))"
    using 1(1,2) 2(1,2) by (simp add: os_pipe_def Let_def)
  moreover have "?k = k\<lparr>os_fd_table := os_fd_table ?k, os_pipes := os_pipes k @ [[]]\<rparr>"
    by (subst 2(8), subst 1(8)) simp
  moreover have "r \<noteq> w" "0 < r" "0 < w" "w \<notin> open_fds k"
    using 0 1(2-4) 2(2,3) by (auto simp: less_le)
  moreover have "open_fds ?k = open_fds k \<union> {r, w}" "card (open_fds ?k) = card (open_fds k) + 2"
    using op 1(4,5) 2(4,5) by auto
  moreover have "os_lookup ?k r = Some (ReadEnd ?p)" "os_lookup ?k w = Some (WriteEnd ?p)"
    using \<open>r \<noteq> w\<close> 1(6) 2(6,7) by simp_all
  moreover have "\<forall>g \<in> open_fds k. os_lookup ?k g = os_lookup k g"
    using 1(3,7) 2(7) \<open>w \<notin> open_fds k\<close> by (metis os_lookup_update(1))
  ultimately show thesis
    using that 1(3) by blast
qed

lemma os_pipe_lowest:
  assumes "os_pipe k = (k', Some (r, w))" "\<And>g. 0 \<le> g \<Longrightarrow> g < int n \<Longrightarrow> os_lookup k g \<noteq> None"
    "os_lookup k (int n) = None" "os_lookup k (int n + 1) = None"
  shows "r = int n" "w = int n + 1"
    "os_lookup k' g = (if g = int n then Some (ReadEnd (length (os_pipes k)))
      else if g = int n + 1 then Some (WriteEnd (length (os_pipes k))) else os_lookup k g)"
proof -
  let ?p = "length (os_pipes k)"
  obtain k1 k2 where a: "os_alloc k (ReadEnd ?p) = (k1, r)" "os_alloc k1 (WriteEnd ?p) = (k2, w)" "0 \<le> r" "0 \<le> w"
    "k' = k2\<lparr>os_pipes := os_pipes k @ [[]]\<rparr>"
    using assms(1) by (auto simp: os_pipe_def Let_def split: prod.splits if_splits)
  show r: "r = int n" using os_alloc_lowest [OF a(1,3) assms(2,3)] .
  note l1 = os_alloc_ok(2) [OF a(1,3), unfolded r]
  have "os_lookup k1 h \<noteq> None" if "0 \<le> h" "h < int (Suc n)" for h
    using assms(2) [of h] that l1 by (cases "h = int n") auto
  moreover have "os_lookup k1 (int (Suc n)) = None" using l1 assms(4) by (simp add: add.commute)
  ultimately show w: "w = int n + 1" using os_alloc_lowest [OF a(2,4), of "Suc n"] by simp
  show "os_lookup k' g = (if g = int n then Some (ReadEnd ?p) else if g = int n + 1 then Some (WriteEnd ?p) else os_lookup k g)"
    using l1 [of g] os_alloc_ok(2) [OF a(2,4), of g] unfolding w a(5) by auto
qed

text \<open>\<open>pipes_kept\<close>: the kernel's pipes are untouched, whatever happened to descriptors or processes.\<close>

definition pipes_kept :: "os \<Rightarrow> os \<Rightarrow> bool" where
  "pipes_kept k k' \<longleftrightarrow> os_pipes k' = os_pipes k \<and> os_fd_max k' = os_fd_max k \<and> os_hup k' = os_hup k \<and>
     os_late k' = os_late k"

lemma pipes_kept_refl [simp]: "pipes_kept k k"
  by (simp add: pipes_kept_def)

lemma pipes_kept_trans: "pipes_kept a b \<Longrightarrow> pipes_kept b c \<Longrightarrow> pipes_kept a c"
  by (simp add: pipes_kept_def)

lemma pipes_kept_close [simp]: "pipes_kept k (fst (os_close k' fd)) = pipes_kept k k'"
  by (simp add: pipes_kept_def os_close_def)

lemma pipes_kept_kill [simp]: "pipes_kept k (fst (os_kill k' p s)) = pipes_kept k k'"
  by (cases s) (simp_all add: pipes_kept_def os_kill_def)

lemma os_lookup_kill [simp]: "os_lookup (fst (os_kill k p s)) fd = os_lookup k fd"
  by (cases s) (simp_all add: os_kill_def)

lemma pipes_kept_sched [simp]: "pipes_kept k (k\<lparr>os_sched := x\<rparr>)"
  by (simp add: pipes_kept_def)

text \<open>A call touches only the pipe behind its descriptor.\<close>

lemma os_write_other:
  "os_lookup k fd \<noteq> Some (WriteEnd q) \<Longrightarrow> os_pipes (fst (os_write k fd bs n)) ! q = os_pipes k ! q"
  by (auto simp: os_write_def split: option.splits fd_object.splits)

lemma os_read_other:
  "os_read k fd n = (k', r) \<Longrightarrow> os_lookup k fd \<noteq> Some (ReadEnd q) \<Longrightarrow> os_pipes k' ! q = os_pipes k ! q"
  by (auto simp: os_read_def split: option.splits fd_object.splits if_splits list.splits)

lemma os_write_same:
  "os_lookup k fd = Some (WriteEnd q) \<Longrightarrow> q < length (os_pipes k) \<Longrightarrow> 0 \<le> n \<Longrightarrow>
    os_pipes (fst (os_write k fd bs n)) ! q = os_pipes k ! q @ take (nat n) bs"
  by (simp add: os_write_def)

end
