(* ===== verification/Vote_Buff.thy ===== *)
theory Vote_Buff imports Posix begin

text \<open>
  The vote buffer (\<open>include/vote_buff.h\<close>, \<open>voter/vote_buff.c\<close>): a ring of
  \<open>MAX_VOTE_PIPE_BUFF\<close> bytes per pipe, in which the voter keeps what a replica has written until
  it can be compared and forwarded. The abstract view of a ring is the byte queue \<open>vp_contents\<close>;
  the lemmas show that every operation is the queue operation it stands for, on both sides of the
  wrap-around, and that every block copy stays inside the ring.
\<close>

section \<open>Data\<close>

datatype replication_t = NONE | SMR | DMR | TMR | REP_TYPE_ERROR

abbreviation MAX_VOTE_PIPE_BUFF :: int where
  "MAX_VOTE_PIPE_BUFF \<equiv> 4096"

abbreviation PIPE_LIMIT :: nat where
  "PIPE_LIMIT \<equiv> 10"

record vote_pipe =
  rep_info :: string
  fd_in :: fd
  fd_out :: fd
  timed :: bool
  buff_count :: int
  buff_index :: int
  buffer :: "byte list"

section \<open>Operations\<close>

definition reptypeToEnum :: "string \<Rightarrow> replication_t" where
  "reptypeToEnum type =
     (if type = ''NONE'' then NONE
      else if type = ''SMR'' then SMR
      else if type = ''DMR'' then DMR
      else if type = ''TMR'' then TMR
      else REP_TYPE_ERROR)"

fun REP_TYPE_T :: "replication_t \<Rightarrow> string" where
  "REP_TYPE_T NONE = ''NONE''"
| "REP_TYPE_T SMR = ''SMR''"
| "REP_TYPE_T DMR = ''DMR''"
| "REP_TYPE_T TMR = ''TMR''"
| "REP_TYPE_T REP_TYPE_ERROR = ''REP_TYPE_ERROR''"

fun reptypeToCount :: "replication_t \<Rightarrow> int" where
  "reptypeToCount SMR = 1"
| "reptypeToCount DMR = 2"
| "reptypeToCount TMR = 3"
| "reptypeToCount _ = 0"

definition resetVotePipe :: "os \<Rightarrow> vote_pipe \<Rightarrow> os \<times> vote_pipe" where
  "resetVotePipe k pipe =
     (let (k1, p1) = (if fd_in pipe \<noteq> 0 then (fst (os_close k (fd_in pipe)), pipe\<lparr>fd_in := 0\<rparr>)
                      else (k, pipe));
          (k2, p2) = (if fd_out p1 \<noteq> 0 then (fst (os_close k1 (fd_out p1)), p1\<lparr>fd_out := 0\<rparr>)
                      else (k1, p1))
      in (k2, p2\<lparr>buff_count := 0, buff_index := 0\<rparr>))"

text \<open>The copy of a message into the ring at \<open>end_index\<close>: one block, or two around the end.\<close>

definition ring_store :: "byte list \<Rightarrow> int \<Rightarrow> byte list \<Rightarrow> byte list" where
  "ring_store buf end_index temp =
     (let read_count = int (length temp) in
      if end_index > (end_index + read_count) mod MAX_VOTE_PIPE_BUFF then
        (let part_read = read_count - (end_index + read_count) mod MAX_VOTE_PIPE_BUFF in
         memcpy (memcpy buf (nat end_index) temp 0 (nat part_read))
                0 temp (nat part_read) (nat (read_count - part_read)))
      else memcpy buf (nat end_index) temp 0 (nat read_count))"

definition storeBytes :: "vote_pipe \<Rightarrow> byte list \<Rightarrow> vote_pipe \<times> int" where
  "storeBytes pipe temp =
     (let read_count = int (length temp) in
      if read_count > 0 then
        (if read_count < MAX_VOTE_PIPE_BUFF - buff_count pipe then
           (let end_index = (buff_index pipe + buff_count pipe) mod MAX_VOTE_PIPE_BUFF in
            (pipe\<lparr>buffer := ring_store (buffer pipe) end_index temp,
                  buff_count := buff_count pipe + read_count\<rparr>, 0))
         else (pipe, - 1))
      else (pipe, - 1))"

definition pipeToBuff :: "os \<Rightarrow> vote_pipe \<Rightarrow> os \<times> vote_pipe \<times> int" where
  "pipeToBuff k pipe =
     (case os_read k (fd_in pipe) (nat MAX_VOTE_PIPE_BUFF) of
        (k', None) \<Rightarrow> (k', pipe, - 1)
      | (k', Some temp) \<Rightarrow> (k', storeBytes pipe temp))"

text \<open>\<open>ring_fetch\<close> is the copy of \<open>n\<close> bytes out of the ring that the readers share.\<close>

definition ring_fetch :: "byte list \<Rightarrow> int \<Rightarrow> int \<Rightarrow> byte list" where
  "ring_fetch buf index n =
     (if index + n < MAX_VOTE_PIPE_BUFF then take (nat n) (drop (nat index) buf)
      else (let part = MAX_VOTE_PIPE_BUFF - index in
            take (nat part) (drop (nat index) buf) @ take (nat (n - part)) buf))"

definition copyBuffer :: "vote_pipe \<Rightarrow> byte list \<Rightarrow> int \<Rightarrow> byte list" where
  "copyBuffer pipe out n =
     (if buff_index pipe + n < MAX_VOTE_PIPE_BUFF then
        memcpy out 0 (buffer pipe) (nat (buff_index pipe)) (nat n)
      else (let part_write = MAX_VOTE_PIPE_BUFF - buff_index pipe in
            memcpy (memcpy out 0 (buffer pipe) (nat (buff_index pipe)) (nat part_write))
                   (nat part_write) (buffer pipe) 0 (nat (n - part_write))))"

definition fakeToPipe :: "vote_pipe \<Rightarrow> int \<Rightarrow> vote_pipe" where
  "fakeToPipe pipe n =
     pipe\<lparr>buff_index := (buff_index pipe + n) mod MAX_VOTE_PIPE_BUFF,
          buff_count := buff_count pipe - n\<rparr>"

definition buffToPipe :: "os \<Rightarrow> vote_pipe \<Rightarrow> fd \<Rightarrow> int \<Rightarrow> os \<times> vote_pipe \<times> int" where
  "buffToPipe k pipe out n =
     (if n > buff_count pipe then (k, pipe, - 1)
      else (let k' = fst (os_write k out (ring_fetch (buffer pipe) (buff_index pipe) n) n)
            in (k', fakeToPipe pipe n, 0)))"

definition compareBuffs :: "vote_pipe \<Rightarrow> vote_pipe \<Rightarrow> int \<Rightarrow> int" where
  "compareBuffs pipeA pipeB n =
     (if buff_index pipeA \<noteq> buff_index pipeB then - 1
      else if buff_index pipeA + n < MAX_VOTE_PIPE_BUFF then
        memcmp (drop (nat (buff_index pipeA)) (buffer pipeA))
               (drop (nat (buff_index pipeB)) (buffer pipeB)) (nat n)
      else (let part_cmp = MAX_VOTE_PIPE_BUFF - buff_index pipeA;
                result = memcmp (drop (nat (buff_index pipeA)) (buffer pipeA))
                                (drop (nat (buff_index pipeB)) (buffer pipeB)) (nat part_cmp)
            in if result \<noteq> 0 then result
               else memcmp (buffer pipeA) (buffer pipeB) (nat (n - part_cmp))))"

definition copyPipe :: "vote_pipe \<Rightarrow> vote_pipe \<Rightarrow> vote_pipe" where
  "copyPipe dest src =
     (let d = dest\<lparr>buff_count := buff_count src, buff_index := buff_index src\<rparr> in
      if buff_index src + buff_count src < MAX_VOTE_PIPE_BUFF then
        d\<lparr>buffer := memcpy (buffer d) (nat (buff_index d)) (buffer src) (nat (buff_index src))
                           (nat (buff_count src))\<rparr>
      else (let part_cpy = MAX_VOTE_PIPE_BUFF - buff_index src in
            d\<lparr>buffer := memcpy (memcpy (buffer d) (nat (buff_index d)) (buffer src)
                                        (nat (buff_index src)) (nat part_cpy))
                               0 (buffer src) 0 (nat (buff_count src - part_cpy))\<rparr>))"

text \<open>\<open>printVoteBuff\<close> prints the queued bytes; the model is the list of bytes it prints.\<close>

definition printVoteBuff :: "vote_pipe \<Rightarrow> byte list" where
  "printVoteBuff vp =
     (if buff_index vp + buff_count vp < MAX_VOTE_PIPE_BUFF then
        map (\<lambda>i. buffer vp ! i) [nat (buff_index vp)..<nat (buff_index vp + buff_count vp)]
      else
        map (\<lambda>i. buffer vp ! i) [nat (buff_index vp)..<nat MAX_VOTE_PIPE_BUFF] @
        map (\<lambda>i. buffer vp ! i)
          [0..<nat (buff_count vp - (MAX_VOTE_PIPE_BUFF - buff_index vp))])"

section \<open>The ring as a queue\<close>

definition wf_vp :: "vote_pipe \<Rightarrow> bool" where
  [wf_simps]: "wf_vp vp \<longleftrightarrow> length (buffer vp) = nat MAX_VOTE_PIPE_BUFF \<and>
     0 \<le> buff_index vp \<and> buff_index vp < MAX_VOTE_PIPE_BUFF \<and>
     0 \<le> buff_count vp \<and> buff_count vp < MAX_VOTE_PIPE_BUFF"

definition ring_list :: "byte list \<Rightarrow> int \<Rightarrow> byte list" where
  "ring_list buf index = drop (nat index) buf @ take (nat index) buf"

definition vp_contents :: "vote_pipe \<Rightarrow> byte list" where
  "vp_contents vp = take (nat (buff_count vp)) (ring_list (buffer vp) (buff_index vp))"

lemma length_ring_list [simp]: "length (ring_list buf index) = length buf"
  by (simp add: ring_list_def)

lemma length_vp_contents: "wf_vp vp \<Longrightarrow> length (vp_contents vp) = nat (buff_count vp)"
  by (auto simp: vp_contents_def wf_simps)

lemma mod_wrap: "a < 8192 \<Longrightarrow> a mod 4096 = (if a < 4096 then a else a - 4096)" for a :: nat
  by (auto simp: le_mod_geq)

lemma ring_distance:
  fixes j c m :: nat
  assumes "j < 4096" "c < 4096" "m < 4096"
  shows "((j + m) mod 4096 + 4096 - (j + c) mod 4096) mod 4096 =
    (if c \<le> m then m - c else m + 4096 - c)"
proof -
  have "int (((j + m) mod 4096 + 4096 - (j + c) mod 4096) mod 4096) =
      (int ((j + m) mod 4096) + 4096 - int ((j + c) mod 4096)) mod 4096"
    by (simp add: zmod_int of_nat_diff less_imp_le trans_le_add2)
  also have "\<dots> = (int j + int m + 4096 - (int j + int c)) mod 4096"
    by (intro mod_diff_cong mod_add_cong) (simp_all add: zmod_int)
  also have "\<dots> = (int m - int c + 4096) mod 4096"
    by (simp add: algebra_simps)
  also have "\<dots> = int (if c \<le> m then m - c else m + 4096 - c)"
  proof (cases "c \<le> m")
    case True
    then show ?thesis using assms by simp
  next
    case False
    have "(int m - int c + 4096) mod 4096 = int m - int c + 4096"
      by (rule mod_pos_pos_trivial) (use assms False in simp_all)
    then show ?thesis using False assms by simp
  qed
  finally show ?thesis by linarith
qed

lemma nth_ring_list:
  assumes "length buf = 4096" "j < 4096" "m < 4096"
  shows "ring_list buf (int j) ! m = buf ! ((j + m) mod 4096)"
proof (cases "j + m < 4096")
  case True
  then have "m < 4096 - j" using assms by simp
  with True show ?thesis using assms
    by (simp add: ring_list_def nth_append)
next
  case False
  then have "(j + m) mod 4096 = j + m - 4096" and "\<not> m < 4096 - j"
    using assms by (simp_all add: mod_wrap)
  with False show ?thesis using assms
    by (simp add: ring_list_def nth_append add.commute)
qed

lemma ring_store_nth:
  assumes "length buf = 4096" "e < 4096" "length temp < 4096" "q < 4096"
  shows "length (ring_store buf (int e) temp) = 4096"
    and "ring_store buf (int e) temp ! q =
      (let d = (q + 4096 - e) mod 4096 in if d < length temp then temp ! d else buf ! q)"
proof -
  let ?n = "length temp"
  have "length (ring_store buf (int e) temp) = 4096 \<and> ring_store buf (int e) temp ! q =
      (let d = (q + 4096 - e) mod 4096 in if d < ?n then temp ! d else buf ! q)"
  proof (cases "e + ?n < 4096")
    case True
    have "ring_store buf (int e) temp = memcpy buf e temp 0 ?n"
      using True by (simp add: ring_store_def)
    moreover have "(q + 4096 - e) mod 4096 = (if e \<le> q then q - e else q + 4096 - e)"
      using assms by (simp add: mod_wrap)
    ultimately show ?thesis
      using True assms by (auto simp: nth_memcpy Let_def)
  next
    case False
    then obtain r where "e + ?n = 4096 + r" by (metis le_Suc_ex not_less)
    then have r: "?n = 4096 - e + r" "r < e" "r \<le> 4096" using assms by linarith+
    have m: "(int e + int ?n) mod 4096 = int r"
    proof -
      have "(e + ?n) mod 4096 = r" using \<open>e + ?n = 4096 + r\<close> assms by simp
      then have "int ((e + ?n) mod 4096) = int r" by simp
      then show ?thesis by (simp only: zmod_int of_nat_add of_nat_numeral)
    qed
    have part: "nat (int ?n - int r) = 4096 - e" "nat (int ?n - (int ?n - int r)) = r"
      using r by simp_all
    have eq: "ring_store buf (int e) temp =
        memcpy (memcpy buf e temp 0 (4096 - e)) 0 temp (4096 - e) r" (is "_ = memcpy ?b1 _ _ _ _")
      unfolding ring_store_def Let_def m part using r by simp
    have len: "length ?b1 = 4096"
      using assms r by simp
    have b1: "?b1 ! q = (if e \<le> q then temp ! (q - e) else buf ! q)"
      using assms False nth_memcpy [of e "4096 - e" buf 0 temp q] by simp
    have "memcpy ?b1 0 temp (4096 - e) r ! q = (if q < r then temp ! (4096 - e + q) else ?b1 ! q)"
      using assms r len nth_memcpy [of 0 r ?b1 "4096 - e" temp q] by simp
    moreover have "(q + 4096 - e) mod 4096 = (if e \<le> q then q - e else 4096 - e + q)"
      using assms by (simp add: mod_wrap add.commute)
    moreover have "q - e < ?n" if "e \<le> q" using that assms False by simp
    moreover have "4096 - e + q < ?n \<longleftrightarrow> q < r" using r by linarith
    ultimately have "memcpy ?b1 0 temp (4096 - e) r ! q =
        (let d = (q + 4096 - e) mod 4096 in if d < ?n then temp ! d else buf ! q)"
      using b1 r by (cases "e \<le> q") simp_all
    then show ?thesis
      using eq len r by simp
  qed
  then show "length (ring_store buf (int e) temp) = 4096"
    and "ring_store buf (int e) temp ! q =
      (let d = (q + 4096 - e) mod 4096 in if d < ?n then temp ! d else buf ! q)"
    by blast+
qed


lemma vp_contents_store:
  assumes "length buf = 4096" "j < 4096" "c + length temp < 4096"
  shows "take (c + length temp) (ring_list (ring_store buf (int ((j + c) mod 4096)) temp) (int j)) =
    take c (ring_list buf (int j)) @ temp" (is "?l = ?r")
proof (rule nth_equalityI)
  let ?e = "(j + c) mod 4096" and ?n = "length temp"
  let ?buf = "ring_store buf (int ?e) temp"
  have len: "length ?buf = 4096"
    using ring_store_nth(1) [of buf ?e temp 0] assms by simp
  then show "length ?l = length ?r" using assms by simp
  fix m assume "m < length ?l"
  then have m: "m < c + ?n" using len assms by simp
  let ?q = "(j + m) mod 4096"
  have d: "(?q + 4096 - ?e) mod 4096 = (if c \<le> m then m - c else m + 4096 - c)"
    using m assms by (intro ring_distance) simp_all
  have "?l ! m = ?buf ! ?q"
    using m len assms by (simp add: nth_ring_list)
  also have "\<dots> = (if c \<le> m then temp ! (m - c) else buf ! ?q)"
  proof -
    have "m - c < ?n" if "c \<le> m" using that m by simp
    moreover have "\<not> m + 4096 - c < ?n" if "\<not> c \<le> m" using that assms by simp
    moreover have "?buf ! ?q = (let d = (?q + 4096 - ?e) mod 4096 in
        if d < ?n then temp ! d else buf ! ?q)"
      using assms by (intro ring_store_nth(2)) simp_all
    ultimately show ?thesis unfolding Let_def d by (cases "c \<le> m") simp_all
  qed
  also have "\<dots> = ?r ! m"
    using m assms by (simp add: nth_append nth_ring_list)
  finally show "?l ! m = ?r ! m" .
qed

lemma ring_fetch_eq:
  assumes "length buf = 4096" "0 \<le> i" "i < 4096" "0 \<le> n" "n \<le> 4096"
  shows "ring_fetch buf i n = take (nat n) (ring_list buf i)"
proof (cases "i + n < 4096")
  case True
  then have "nat n - (4096 - nat i) = 0" using assms by simp
  with True show ?thesis using assms by (simp add: ring_fetch_def ring_list_def)
next
  case False
  then have "nat (n - (4096 - i)) = nat n - (4096 - nat i)" "nat (4096 - i) = 4096 - nat i"
    "nat n - (4096 - nat i) \<le> nat i" "4096 - nat i \<le> nat n"
    using assms by linarith+
  with False show ?thesis using assms
    by (simp add: ring_fetch_def ring_list_def Let_def min_def)
qed


section \<open>What each operation does to the queue\<close>

text \<open>The three bytes-free fields of a pipe that no buffer operation writes.\<close>

definition same_ends :: "vote_pipe \<Rightarrow> vote_pipe \<Rightarrow> bool" where
  "same_ends p q \<longleftrightarrow> rep_info p = rep_info q \<and> fd_in p = fd_in q \<and> fd_out p = fd_out q \<and>
     timed p = timed q"

lemma storeBytes_ok:
  assumes "wf_vp p" "bs \<noteq> []" "int (length bs) < 4096 - buff_count p"
  obtains p' where "storeBytes p bs = (p', 0)" "wf_vp p'" "vp_contents p' = vp_contents p @ bs"
    "buff_index p' = buff_index p" "buff_count p' = buff_count p + int (length bs)" "same_ends p' p"
proof -
  define j c where "j = nat (buff_index p)" and "c = nat (buff_count p)"
  have jc: "buff_index p = int j" "buff_count p = int c" "j < 4096" "c + length bs < 4096"
    and len: "length (buffer p) = 4096"
    using assms by (auto simp: j_def c_def wf_simps)
  let ?e = "(j + c) mod 4096"
  let ?p = "p\<lparr>buffer := ring_store (buffer p) (int ?e) bs, buff_count := int c + int (length bs)\<rparr>"
  have "storeBytes p bs = (?p, 0)"
    using assms jc by (simp add: storeBytes_def Let_def zmod_int)
  moreover have "length (ring_store (buffer p) (int ?e) bs) = 4096"
    using ring_store_nth(1) [of "buffer p" ?e bs 0] len jc by simp
  then have "wf_vp ?p" using jc by (simp add: wf_simps)
  moreover have "vp_contents ?p = vp_contents p @ bs"
    using vp_contents_store [OF len jc(3,4)] jc by (simp add: vp_contents_def nat_add_distrib)
  ultimately show thesis
    using that jc by (simp add: same_ends_def)
qed

lemma storeBytes_refused:
  "bs = [] \<or> 4096 - buff_count p \<le> int (length bs) \<Longrightarrow> storeBytes p bs = (p, - 1)"
  by (auto simp: storeBytes_def Let_def)

lemma fakeToPipe_queue:
  assumes "wf_vp p" "0 \<le> n" "n \<le> buff_count p"
  shows "wf_vp (fakeToPipe p n)" "vp_contents (fakeToPipe p n) = drop (nat n) (vp_contents p)"
    "buff_count (fakeToPipe p n) = buff_count p - n"
    "buff_index (fakeToPipe p n) = (buff_index p + n) mod 4096" "same_ends (fakeToPipe p n) p"
proof -
  define j m where "j = nat (buff_index p)" and "m = nat n"
  have jm: "buff_index p = int j" "n = int m" "j < 4096" "m < 4096" "m \<le> nat (buff_count p)"
    "nat (buff_count p) < 4096" and len: "length (buffer p) = 4096"
    using assms by (auto simp: j_def m_def wf_simps)
  have idx: "(buff_index p + n) mod 4096 = int ((j + m) mod 4096)"
    using jm by (simp add: zmod_int)
  show "wf_vp (fakeToPipe p n)"
    using assms by (simp add: wf_simps fakeToPipe_def)
  show "vp_contents (fakeToPipe p n) = drop (nat n) (vp_contents p)" (is "?l = ?r")
  proof (rule nth_equalityI)
    show "length ?l = length ?r"
      using jm len by (simp add: vp_contents_def fakeToPipe_def nat_diff_distrib)
    fix q assume "q < length ?l"
    then have q: "m + q < nat (buff_count p)"
      using jm len by (simp add: vp_contents_def fakeToPipe_def nat_diff_distrib)
    have "?l = take (nat (buff_count p) - m) (ring_list (buffer p) (int ((j + m) mod 4096)))"
      using idx jm by (simp add: vp_contents_def fakeToPipe_def nat_minus_as_int)
    then have "?l ! q = buffer p ! (((j + m) mod 4096 + q) mod 4096)"
      using q jm len nth_ring_list [of "buffer p" "(j + m) mod 4096" q] by (simp del: of_nat_mod)
    also have "((j + m) mod 4096 + q) mod 4096 = (j + (m + q)) mod 4096"
      by (simp add: mod_simps add.assoc)
    finally show "?l ! q = ?r ! q"
      using q jm len by (simp add: vp_contents_def nth_ring_list)
  qed
qed (simp_all add: fakeToPipe_def same_ends_def)

lemma ring_fetch_contents:
  assumes "wf_vp p" "0 \<le> n" "n \<le> buff_count p"
  shows "ring_fetch (buffer p) (buff_index p) n = take (nat n) (vp_contents p)"
proof -
  have "min (nat n) (nat (buff_count p)) = nat n"
    using assms by simp
  then show ?thesis
    using assms by (simp add: ring_fetch_eq vp_contents_def wf_simps)
qed

lemma buffToPipe_queue:
  assumes "wf_vp p" "0 \<le> n" "n \<le> buff_count p"
  shows "buffToPipe k p out n =
    (fst (os_write k out (take (nat n) (vp_contents p)) n), fakeToPipe p n, 0)"
  using assms by (simp add: buffToPipe_def ring_fetch_contents)

lemma buffToPipe_refused: "buff_count p < n \<Longrightarrow> buffToPipe k p out n = (k, p, - 1)"
  by (simp add: buffToPipe_def)

lemma compareBuffs_eq_0_iff:
  assumes "wf_vp a" "wf_vp b" "0 \<le> n" "n \<le> 4096" "buff_index a = buff_index b"
  shows "compareBuffs a b n = 0 \<longleftrightarrow>
    take (nat n) (ring_list (buffer a) (buff_index a)) =
    take (nat n) (ring_list (buffer b) (buff_index b))"
proof (cases "buff_index a + n < 4096")
  case True
  then have "nat n \<le> 4096 - nat (buff_index b)" "nat n - (4096 - nat (buff_index b)) = 0"
    using assms by simp_all
  then show ?thesis
    using True assms by (simp add: compareBuffs_def ring_list_def memcmp_eq_0_iff wf_simps)
next
  case False
  let ?i = "nat (buff_index b)"
  have n: "nat (4096 - buff_index b) = 4096 - ?i"
    "nat (n - (4096 - buff_index b)) = nat n - (4096 - ?i)"
    "nat n - (4096 - ?i) \<le> ?i" "4096 - ?i \<le> nat n" "nat n - (4096 - ?i) \<le> 4096"
    using False assms by (simp_all add: wf_simps) linarith+
  let ?k = "nat n - (4096 - ?i)"
  have "memcmp (drop ?i (buffer a)) (drop ?i (buffer b)) (4096 - ?i) = 0 \<longleftrightarrow>
      drop ?i (buffer a) = drop ?i (buffer b)"
    using assms(1,2) by (subst memcmp_eq_0_iff) (simp_all add: wf_simps)
  moreover have "memcmp (buffer a) (buffer b) ?k = 0 \<longleftrightarrow> take ?k (buffer a) = take ?k (buffer b)"
    using assms(1,2) n(5) by (intro memcmp_eq_0_iff) (simp_all add: wf_simps)
  moreover have "compareBuffs a b n =
      (let result = memcmp (drop ?i (buffer a)) (drop ?i (buffer b)) (4096 - ?i)
       in if result \<noteq> 0 then result else memcmp (buffer a) (buffer b) ?k)"
    unfolding compareBuffs_def assms(5) n(1,2) Let_def using False assms(5) by simp
  ultimately have "compareBuffs a b n = 0 \<longleftrightarrow> drop ?i (buffer a) = drop ?i (buffer b) \<and>
      take ?k (buffer a) = take ?k (buffer b)"
    unfolding Let_def by auto
  moreover have "take (nat n) (ring_list (buffer x) (buff_index b)) =
      drop ?i (buffer x) @ take ?k (buffer x)" if "length (buffer x) = 4096" for x :: vote_pipe
    using that n(3,4) by (simp add: ring_list_def min_absorb1)
  ultimately show ?thesis
    using assms(1,2,5) by (simp add: wf_simps)
qed

lemma compareBuffs_contents:
  assumes "wf_vp a" "wf_vp b" "0 \<le> n" "n \<le> buff_count a" "n \<le> buff_count b"
    "buff_index a = buff_index b"
  shows "compareBuffs a b n = 0 \<longleftrightarrow> take (nat n) (vp_contents a) = take (nat n) (vp_contents b)"
proof -
  have "min (nat n) (nat (buff_count a)) = nat n" "min (nat n) (nat (buff_count b)) = nat n"
    using assms by simp_all
  then show ?thesis
    using assms compareBuffs_eq_0_iff [of a b n] by (simp add: vp_contents_def wf_simps)
qed


lemma copyPipe_fields:
  "buff_count (copyPipe d s) = buff_count s" "buff_index (copyPipe d s) = buff_index s"
  "same_ends (copyPipe d s) d"
  by (simp_all add: copyPipe_def Let_def same_ends_def)

lemma copyPipe_buffer:
  assumes "wf_vp s" "length (buffer d) = 4096"
  defines "j \<equiv> nat (buff_index s)" and "c \<equiv> nat (buff_count s)"
  shows "length (buffer (copyPipe d s)) = 4096"
    and "m < c \<Longrightarrow> buffer (copyPipe d s) ! ((j + m) mod 4096) = buffer s ! ((j + m) mod 4096)"
proof -
  have jc: "buff_index s = int j" "buff_count s = int c" "j < 4096" "c < 4096"
    "length (buffer s) = 4096"
    using assms by (auto simp: wf_simps)
  let ?b = "buffer (copyPipe d s)"
  have "length ?b = 4096 \<and> (m < c \<longrightarrow> ?b ! ((j + m) mod 4096) = buffer s ! ((j + m) mod 4096))"
  proof (cases "j + c < 4096")
    case True
    then have "?b = memcpy (buffer d) j (buffer s) j c"
      using jc by (simp add: copyPipe_def Let_def)
    then show ?thesis using True jc assms(2) by (simp add: nth_memcpy)
  next
    case False
    let ?p = "4096 - j"
    have "nat (4096 - int j) = ?p" "nat (int c - (4096 - int j)) = c - ?p"
      using jc by linarith+
    then have b: "?b = memcpy (memcpy (buffer d) j (buffer s) j ?p) 0 (buffer s) 0 (c - ?p)"
      using False jc by (simp add: copyPipe_def Let_def)
    have "length (memcpy (buffer d) j (buffer s) j ?p) = 4096"
      using jc assms(2) by simp
    then have len: "length ?b = 4096"
      using b jc by simp
    have "?b ! q = (if q < c - ?p \<or> j \<le> q then buffer s ! q
        else buffer d ! q)" if "q < 4096" for q
      using that b jc assms(2) by (simp add: nth_memcpy)
    moreover have "(j + m) mod 4096 < c - ?p \<or> j \<le> (j + m) mod 4096" if "m < c"
      using that jc by (cases "j + m < 4096") (auto simp: mod_wrap)
    ultimately show ?thesis using len by simp
  qed
  then show "length ?b = 4096"
    and "m < c \<Longrightarrow> ?b ! ((j + m) mod 4096) = buffer s ! ((j + m) mod 4096)"
    by blast+
qed

lemma copyPipe_contents:
  assumes "wf_vp s" "length (buffer d) = 4096"
  shows "wf_vp (copyPipe d s)" "vp_contents (copyPipe d s) = vp_contents s"
proof -
  define j c where "j = nat (buff_index s)" and "c = nat (buff_count s)"
  have jc: "buff_index s = int j" "buff_count s = int c" "j < 4096" "c < 4096"
    and len: "length (buffer s) = 4096" "length (buffer (copyPipe d s)) = 4096"
    using assms copyPipe_buffer(1) [OF assms] by (auto simp: j_def c_def wf_simps)
  show "wf_vp (copyPipe d s)"
    using jc len copyPipe_fields [of d s] by (simp add: wf_simps)
  show "vp_contents (copyPipe d s) = vp_contents s"
  proof (rule nth_equalityI)
    fix m assume "m < length (vp_contents (copyPipe d s))"
    then have "m < c" using len jc copyPipe_fields [of d s] by (simp add: vp_contents_def)
    moreover from this have "buffer (copyPipe d s) ! ((j + m) mod 4096) = buffer s ! ((j + m) mod 4096)"
      using copyPipe_buffer(2) [OF assms] unfolding j_def c_def by blast
    ultimately show "vp_contents (copyPipe d s) ! m = vp_contents s ! m"
      using jc len copyPipe_fields [of d s] by (simp add: vp_contents_def nth_ring_list)
  qed (use len jc copyPipe_fields [of d s] in \<open>simp add: vp_contents_def\<close>)
qed

lemma copyBuffer_contents:
  assumes "wf_vp p" "0 \<le> n" "n \<le> buff_count p" "length out = 4096"
  shows "copyBuffer p out n = take (nat n) (vp_contents p) @ drop (nat n) out"
proof (cases "buff_index p + n < 4096")
  case True
  then have "nat n \<le> 4096 - nat (buff_index p)" "nat n - (4096 - nat (buff_index p)) = 0"
    using assms unfolding wf_simps by linarith+
  then show ?thesis
    using True assms
    by (simp add: copyBuffer_def memcpy_def vp_contents_def ring_list_def wf_simps min_absorb1)
next
  case False
  let ?i = "nat (buff_index p)"
  have n: "nat (4096 - buff_index p) = 4096 - ?i" "nat (n - (4096 - buff_index p)) = nat n - (4096 - ?i)"
    "nat n - (4096 - ?i) \<le> ?i" "4096 - ?i \<le> nat n" "nat n \<le> nat (buff_count p)"
    and len: "length (buffer p) = 4096"
    using False assms by (simp_all add: wf_simps) linarith+
  have "copyBuffer p out n = memcpy (memcpy out 0 (buffer p) ?i (4096 - ?i)) (4096 - ?i) (buffer p) 0
      (nat n - (4096 - ?i))"
    using False by (simp add: copyBuffer_def Let_def n)
  also have "memcpy out 0 (buffer p) ?i (4096 - ?i) = drop ?i (buffer p) @ drop (4096 - ?i) out"
    using len by (simp add: memcpy_def)
  also have "memcpy (drop ?i (buffer p) @ drop (4096 - ?i) out) (4096 - ?i) (buffer p) 0
      (nat n - (4096 - ?i)) =
      (drop ?i (buffer p) @ take (nat n - (4096 - ?i)) (buffer p)) @ drop (nat n) out"
    using len n(4) by (subst memcpy_append) simp_all
  also have "drop ?i (buffer p) @ take (nat n - (4096 - ?i)) (buffer p) =
      ring_fetch (buffer p) (buff_index p) n"
    unfolding ring_fetch_def Let_def n(1,2) using False len by simp
  also have "\<dots> = take (nat n) (vp_contents p)"
    using assms by (simp add: ring_fetch_contents)
  finally show ?thesis .
qed

lemma printVoteBuff_contents:
  assumes "wf_vp p"
  shows "printVoteBuff p = vp_contents p"
proof -
  define j c where "j = nat (buff_index p)" and "c = nat (buff_count p)"
  have jc: "buff_index p = int j" "buff_count p = int c" "j < 4096" "c < 4096"
    and len: "length (buffer p) = 4096"
    using assms by (auto simp: j_def c_def wf_simps)
  have m: "map ((!) (buffer p)) [a..<b] = take (b - a) (drop a (buffer p))" if "b \<le> 4096" for a b
    using that len by (intro nth_equalityI) auto
  show ?thesis
  proof (cases "j + c < 4096")
    case True
    then show ?thesis using jc len
      by (simp add: printVoteBuff_def vp_contents_def ring_list_def m nat_add_distrib)
  next
    case False
    then have "nat (int c - (4096 - int j)) = c - (4096 - j)" "c - (4096 - j) \<le> j" "4096 - j \<le> c"
      using jc by linarith+
    then show ?thesis using False jc len
      by (simp add: printVoteBuff_def vp_contents_def ring_list_def m min_absorb1)
  qed
qed


section \<open>The contract of a byte queue\<close>

text \<open>
  What the voter relies on when it buffers a replica's output: a queue of bytes that takes whole
  messages or refuses them, and gives out a prefix or refuses. A history of operations is a list of
  \<open>Put\<close> and \<open>Get\<close>; \<open>fifo_run\<close> gives the bytes accepted, the bytes given out and the final state.
\<close>

datatype fifo_op = Put "byte list" | Get nat

fun fifo_run :: "('s \<Rightarrow> byte list \<Rightarrow> 's option) \<Rightarrow> ('s \<Rightarrow> nat \<Rightarrow> (byte list \<times> 's) option) \<Rightarrow>
    's \<Rightarrow> fifo_op list \<Rightarrow> byte list \<times> byte list \<times> 's" where
  "fifo_run put get q [] = ([], [], q)"
| "fifo_run put get q (Put bs # ops) =
     (case put q bs of
        None \<Rightarrow> fifo_run put get q ops
      | Some q' \<Rightarrow> (let (i, ou, r) = fifo_run put get q' ops in (bs @ i, ou, r)))"
| "fifo_run put get q (Get n # ops) =
     (case get q n of
        None \<Rightarrow> fifo_run put get q ops
      | Some (bs, q') \<Rightarrow> (let (i, ou, r) = fifo_run put get q' ops in (i, bs @ ou, r)))"

locale byte_fifo =
  fixes invar :: "'s \<Rightarrow> bool"
    and contents :: "'s \<Rightarrow> byte list"
    and put :: "'s \<Rightarrow> byte list \<Rightarrow> 's option"
    and get :: "'s \<Rightarrow> nat \<Rightarrow> (byte list \<times> 's) option"
  assumes put_Some: "invar q \<Longrightarrow> put q bs = Some q' \<Longrightarrow> invar q' \<and> contents q' = contents q @ bs"
    and get_Some: "invar q \<Longrightarrow> get q n = Some (bs, q') \<Longrightarrow>
      invar q' \<and> bs = take n (contents q) \<and> contents q' = drop n (contents q)"
begin

lemma run_conserves:
  "invar q \<Longrightarrow> fifo_run put get q ops = (i, ou, r) \<Longrightarrow> invar r \<and> contents q @ i = ou @ contents r"
proof (induction ops arbitrary: q i ou r)
  case Nil
  then show ?case by simp
next
  case (Cons x ops)
  show ?case
  proof (cases x)
    case (Put bs)
    show ?thesis
    proof (cases "put q bs")
      case None
      then show ?thesis using Cons Put by simp
    next
      case (Some q')
      obtain i' where "fifo_run put get q' ops = (i', ou, r)" "i = bs @ i'"
        using Cons.prems Put Some by (auto split: prod.splits)
      then show ?thesis
        using Cons.IH [of q' i' ou r] put_Some [OF Cons.prems(1) Some] by simp
    qed
  next
    case (Get n)
    show ?thesis
    proof (cases "get q n")
      case None
      then show ?thesis using Cons Get by simp
    next
      case (Some bq)
      obtain bs q' where bq: "bq = (bs, q')" by (cases bq)
      then obtain ou' where "fifo_run put get q' ops = (i, ou', r)" "ou = bs @ ou'"
        using Cons.prems Get Some by (auto split: prod.splits)
      moreover have "contents q = bs @ contents q'" "invar q'"
        using get_Some [OF Cons.prems(1), of n bs q'] Some bq by simp_all
      ultimately show ?thesis
        using Cons.IH [of q' i ou' r] by simp
    qed
  qed
qed

end

text \<open>The vote buffer as such a queue: the ring operations with their results read as C does.\<close>

definition vb_put :: "vote_pipe \<Rightarrow> byte list \<Rightarrow> vote_pipe option" where
  "vb_put p bs = (case storeBytes p bs of (p', r) \<Rightarrow> if r = 0 then Some p' else None)"

definition vb_get :: "vote_pipe \<Rightarrow> nat \<Rightarrow> (byte list \<times> vote_pipe) option" where
  "vb_get p n =
     (if int n > buff_count p then None
      else Some (ring_fetch (buffer p) (buff_index p) (int n), fakeToPipe p (int n)))"

interpretation vb: byte_fifo wf_vp vp_contents vb_put vb_get
proof unfold_locales
  fix q bs q'
  assume q: "wf_vp q" "vb_put q bs = Some q'"
  then have "\<not> (bs = [] \<or> 4096 - buff_count q \<le> int (length bs))"
    using storeBytes_refused [of bs q] by (auto simp: vb_put_def)
  then have "bs \<noteq> []" "int (length bs) < 4096 - buff_count q"
    by (auto simp: not_le)
  from storeBytes_ok [OF q(1) this] obtain p' where
    "storeBytes q bs = (p', 0)" "wf_vp p'" "vp_contents p' = vp_contents q @ bs" .
  with q(2) show "wf_vp q' \<and> vp_contents q' = vp_contents q @ bs"
    by (simp add: vb_put_def)
next
  fix q n bs q'
  assume q: "wf_vp q" "vb_get q n = Some (bs, q')"
  then have n: "int n \<le> buff_count q" and bs: "bs = ring_fetch (buffer q) (buff_index q) (int n)"
    and q': "q' = fakeToPipe q (int n)"
    by (auto simp: vb_get_def split: if_splits)
  have "bs = take n (vp_contents q)"
    using ring_fetch_contents [OF q(1) _ n] bs by simp
  then show "wf_vp q' \<and> bs = take n (vp_contents q) \<and> vp_contents q' = drop n (vp_contents q)"
    using fakeToPipe_queue [OF q(1) _ n] q' by simp
qed


section \<open>Properties\<close>

text \<open>
  Two pipes for concrete checks: a ring whose next free slot is two bytes before its end, so that
  any message of three bytes or more wraps, and a kernel in which descriptor 3 reads and
  descriptor 4 writes one pipe.
\<close>

definition demo_vp :: vote_pipe where
  "demo_vp = \<lparr>rep_info = ''MOV_CMD'', fd_in = 3, fd_out = 0, timed = False, buff_count = 0,
     buff_index = 4094, buffer = replicate 4096 0\<rparr>"

definition demo_os :: "byte list \<Rightarrow> os" where
  "demo_os bs = \<lparr>os_fd_table = [Some SocketEnd, Some SocketEnd, Some SocketEnd, Some (ReadEnd 0),
       Some (WriteEnd 0)],
     os_fd_max = 1024, os_pipes = [bs], os_hup = [], os_late = [], os_alive = [], os_zombies = [],
     os_signals = [], os_sched = [], os_forks = [], os_execs = [], os_peers = [], os_passed = [], os_clock = []\<rparr>"

lemma wf_demo_vp: "wf_vp demo_vp"
  by (simp add: demo_vp_def wf_simps)

lemma contents_demo_vp: "vp_contents demo_vp = []"
  by (simp add: demo_vp_def vp_contents_def)

text \<open>
  (C8) The vote buffer is a FIFO queue of bytes: whatever sequence of message arrivals and of
  requests for bytes it serves, with refusals in between and around the end of the ring, the bytes
  given out followed by the bytes still queued are the bytes queued at the start followed by the
  bytes accepted. Nothing is lost, duplicated or reordered, and the ring stays well formed.
\<close>

theorem vote_buffer_fifo:
  assumes "wf_vp p" and "fifo_run vb_put vb_get p ops = (accepted, given, r)"
  shows "wf_vp r \<and> vp_contents p @ accepted = given @ vp_contents r"
  using vb.run_conserves [OF assms] .

lemma demo_fifo_run:
  "fifo_run vb_put vb_get demo_vp [Put [1, 2, 3], Get 5, Get 2] =
    ([1, 2, 3], [1, 2],
     demo_vp\<lparr>buffer := [3] @ replicate 4093 0 @ [1, 2], buff_count := 1, buff_index := 0\<rparr>)"
  by (simp add: vb_put_def vb_get_def storeBytes_def ring_store_def ring_fetch_def fakeToPipe_def
      memcpy_def demo_vp_def Let_def)

theorem vote_buffer_fifo_witness:
  "\<exists>r. fifo_run vb_put vb_get demo_vp [Put [1, 2, 3], Get 5, Get 2] = ([1, 2, 3], [1, 2], r) \<and>
    wf_vp r \<and> [] @ [1, 2, 3] = [1, 2] @ vp_contents r"
  by (rule exI, rule conjI, rule demo_fifo_run,
      rule vote_buffer_fifo [OF wf_demo_vp demo_fifo_run, unfolded contents_demo_vp])

lemma pipeToBuff_read:
  assumes "os_lookup k (fd_in p) = Some (ReadEnd q)" "q < length (os_pipes k)" "os_pipes k ! q \<noteq> []"
  shows "pipeToBuff k p =
    (k\<lparr>os_pipes := (os_pipes k)[q := drop 4096 (os_pipes k ! q)]\<rparr>,
     storeBytes p (take 4096 (os_pipes k ! q)))"
  using assms by (simp add: pipeToBuff_def os_read_def)

text \<open>
  \<open>pipeToBuff\<close> moves bytes from the kernel's pipe to the ring without touching the stream: when
  the bytes of one \<open>read\<close> (at most 4096) are fewer than the room left, it returns 0, and what is
  buffered followed by what is still in the pipe is unchanged as a sequence. The read position of
  the ring, which the comparison of replicas depends on, does not move.
\<close>

theorem pipeToBuff_conserves_stream:
  assumes "wf_vp p" "os_lookup k (fd_in p) = Some (ReadEnd q)" "q < length (os_pipes k)"
    "os_pipes k ! q \<noteq> []" "int (min 4096 (length (os_pipes k ! q))) < 4096 - buff_count p"
  shows "\<exists>k' p'. pipeToBuff k p = (k', p', 0) \<and> wf_vp p' \<and>
    vp_contents p' @ fd_queue k' (fd_in p) = vp_contents p @ fd_queue k (fd_in p) \<and>
    buff_index p' = buff_index p \<and> same_ends p' p"
proof -
  let ?d = "os_pipes k ! q"
  have "take 4096 ?d \<noteq> []" "int (length (take 4096 ?d)) < 4096 - buff_count p"
    using assms(4,5) by (simp_all add: min.commute)
  then obtain p' where "storeBytes p (take 4096 ?d) = (p', 0)" "wf_vp p'"
    "vp_contents p' = vp_contents p @ take 4096 ?d" "buff_index p' = buff_index p" "same_ends p' p"
    by (rule storeBytes_ok [OF assms(1)])
  then show ?thesis
    using pipeToBuff_read [OF assms(2-4)] assms(2,3)
    by (simp add: fd_queue_def)
qed

lemma demo_os_lookup [simp]:
  "os_lookup (demo_os bs) 3 = Some (ReadEnd 0)" "os_lookup (demo_os bs) 4 = Some (WriteEnd 0)"
  "os_pipes (demo_os bs) = [bs]"
  by (simp_all add: demo_os_def os_lookup_def)

theorem pipeToBuff_conserves_stream_witness:
  "\<exists>k' p'. pipeToBuff (demo_os [7, 8, 9]) demo_vp = (k', p', 0) \<and> wf_vp p' \<and>
    vp_contents p' @ fd_queue k' 3 = [7, 8, 9] \<and> buff_index p' = 4094 \<and> same_ends p' demo_vp"
  using pipeToBuff_conserves_stream [of demo_vp "demo_os [7, 8, 9]" 0] wf_demo_vp contents_demo_vp
  by (simp add: fd_queue_def demo_vp_def)

text \<open>
  (C9) The overflow branch of \<open>pipeToBuff\<close> drops data: when the bytes of the \<open>read\<close> do not fit, it
  returns -1 with the ring unchanged, but the bytes have left the kernel's pipe and are in no
  buffer any more. The ring takes at most 4095 bytes: a message that would fill it is refused.
\<close>

theorem pipeToBuff_overflow_drops:
  assumes "os_lookup k (fd_in p) = Some (ReadEnd q)" "q < length (os_pipes k)"
    "os_pipes k ! q \<noteq> []" "4096 - buff_count p \<le> int (min 4096 (length (os_pipes k ! q)))"
  shows "\<exists>k'. pipeToBuff k p = (k', p, - 1) \<and>
    fd_queue k' (fd_in p) = drop 4096 (fd_queue k (fd_in p))"
proof -
  have "storeBytes p (take 4096 (os_pipes k ! q)) = (p, - 1)"
    using assms(4) by (intro storeBytes_refused) (simp add: min.commute)
  then show ?thesis
    using pipeToBuff_read [OF assms(1-3)] assms(1,2) by (simp add: fd_queue_def)
qed

theorem pipeToBuff_overflow_drops_witness:
  "\<exists>k'. pipeToBuff (demo_os [7, 8]) (demo_vp\<lparr>buff_count := 4094\<rparr>) =
      (k', demo_vp\<lparr>buff_count := 4094\<rparr>, - 1) \<and> fd_queue k' 3 = []"
  using pipeToBuff_overflow_drops [of "demo_os [7, 8]" "demo_vp\<lparr>buff_count := 4094\<rparr>" 0]
  by (simp add: fd_queue_def demo_vp_def)

text \<open>
  (C10) \<open>buffToPipe\<close> forwards exactly the oldest \<open>n\<close> buffered bytes, in order and in one piece even
  when they wrap around the end of the ring, and removes exactly those from the ring; a request for
  more than is buffered returns -1 and changes nothing.
\<close>

theorem buffToPipe_forwards_prefix:
  assumes "wf_vp p" "os_lookup k out = Some (WriteEnd q)" "q < length (os_pipes k)" "0 \<le> n"
  shows "if n \<le> buff_count p
    then \<exists>k' p'. buffToPipe k p out n = (k', p', 0) \<and>
      fd_queue k' out = fd_queue k out @ take (nat n) (vp_contents p) \<and>
      vp_contents p' = drop (nat n) (vp_contents p) \<and> wf_vp p'
    else buffToPipe k p out n = (k, p, - 1)"
proof (cases "n \<le> buff_count p")
  case True
  let ?k = "fst (os_write k out (take (nat n) (vp_contents p)) n)"
  have "fd_queue ?k out = fd_queue k out @ take (nat n) (vp_contents p)"
    using assms by (simp add: os_write_def fd_queue_def)
  then show ?thesis
    using True buffToPipe_queue [OF assms(1,4) True, of k out] fakeToPipe_queue [OF assms(1,4) True]
    by simp
qed (simp add: buffToPipe_refused)

definition demo_wrapped :: vote_pipe where
  "demo_wrapped = demo_vp\<lparr>buffer := [3] @ replicate 4093 0 @ [1, 2], buff_count := 3\<rparr>"

lemma demo_wrapped: "wf_vp demo_wrapped" "vp_contents demo_wrapped = [1, 2, 3]"
  by (simp_all add: demo_wrapped_def demo_vp_def wf_simps vp_contents_def ring_list_def)

theorem buffToPipe_forwards_prefix_witness:
  "\<exists>k' p'. buffToPipe (demo_os [9]) demo_wrapped 4 3 = (k', p', 0) \<and>
    fd_queue k' 4 = [9, 1, 2, 3] \<and> vp_contents p' = [] \<and> wf_vp p'"
  using buffToPipe_forwards_prefix [of demo_wrapped "demo_os [9]" 4 0 3] demo_wrapped
  by (simp add: fd_queue_def demo_wrapped_def)

text \<open>
  (C11) \<open>compareBuffs\<close> decides agreement: for two rings that are read from the same position it
  returns 0 exactly when their oldest \<open>n\<close> bytes are equal, on both sides of the wrap-around; for
  rings at different positions it returns -1 whatever they hold.
\<close>

theorem compareBuffs_decides_agreement:
  assumes "wf_vp a" "wf_vp b" "0 \<le> n" "n \<le> buff_count a" "n \<le> buff_count b"
  shows "compareBuffs a b n = 0 \<longleftrightarrow>
    buff_index a = buff_index b \<and> take (nat n) (vp_contents a) = take (nat n) (vp_contents b)"
proof (cases "buff_index a = buff_index b")
  case True
  then show ?thesis using compareBuffs_contents [OF assms True] by simp
qed (simp add: compareBuffs_def)

theorem compareBuffs_decides_agreement_witness:
  "compareBuffs demo_wrapped demo_wrapped 3 = 0 \<and>
   compareBuffs demo_wrapped (demo_wrapped\<lparr>buff_index := 4095\<rparr>) 2 \<noteq> 0"
  using compareBuffs_decides_agreement [of demo_wrapped demo_wrapped 3]
    compareBuffs_decides_agreement [of demo_wrapped "demo_wrapped\<lparr>buff_index := 4095\<rparr>" 2]
  by (simp add: demo_wrapped_def demo_vp_def wf_simps)

text \<open>
  \<open>copyPipe\<close> makes the destination's queue and read position equal to the source's, so that the
  two compare equal, and leaves the destination's own descriptors alone.
\<close>

theorem copyPipe_makes_equal:
  assumes "wf_vp src" "length (buffer dest) = 4096"
  shows "wf_vp (copyPipe dest src) \<and> vp_contents (copyPipe dest src) = vp_contents src \<and>
    compareBuffs (copyPipe dest src) src (buff_count src) = 0 \<and> same_ends (copyPipe dest src) dest"
proof -
  have c: "wf_vp (copyPipe dest src)" "vp_contents (copyPipe dest src) = vp_contents src"
    using copyPipe_contents [OF assms] .
  have "compareBuffs (copyPipe dest src) src (buff_count src) = 0"
    using c assms(1) copyPipe_fields [of dest src]
    by (subst compareBuffs_contents) (simp_all add: wf_simps)
  then show ?thesis using c copyPipe_fields by simp
qed

theorem copyPipe_makes_equal_witness:
  "vp_contents (copyPipe demo_vp demo_wrapped) = [1, 2, 3] \<and>
   compareBuffs (copyPipe demo_vp demo_wrapped) demo_wrapped 3 = 0"
  using copyPipe_makes_equal [of demo_wrapped demo_vp] demo_wrapped
  by (simp add: demo_vp_def demo_wrapped_def)

end
