(* ===== verification/Comm_Types.thy ===== *)
theory Comm_Types imports Vote_Buff begin

text \<open>
  The messages of the robot controllers (\<open>include/commtypes.h\<close>, \<open>src/commtypes.c\<close>): the typed pipe
  and its textual form, the structures sent over pipes with their byte layout, the functions that
  send them and the two functions that receive messages of variable length. A C write outside an
  array is the value \<open>None\<close> of the functions that have one.
\<close>

section \<open>Data\<close>

datatype comm_message_t = COMM_ERROR | WAY_REQ | WAY_RES | MOV_CMD | RANGE_POSE_DATA | MAP_UPDATE
  | COMM_ACK | MSG_BUFFER

abbreviation RANGER_COUNT :: nat where "RANGER_COUNT \<equiv> 16"

fun MESSAGE_T :: "comm_message_t \<Rightarrow> string" where
  "MESSAGE_T COMM_ERROR = ''COMM_ERROR''"
| "MESSAGE_T WAY_REQ = ''WAY_REQ''"
| "MESSAGE_T WAY_RES = ''WAY_RES''"
| "MESSAGE_T MOV_CMD = ''MOV_CMD''"
| "MESSAGE_T RANGE_POSE_DATA = ''RANGE_POSE_DATA''"
| "MESSAGE_T MAP_UPDATE = ''MAP_UPDATE''"
| "MESSAGE_T COMM_ACK = ''COMM_ACK''"
| "MESSAGE_T MSG_BUFFER = ''MSG_BUFFER''"

record typed_pipe =
  tp_type :: comm_message_t
  tp_in :: fd
  tp_out :: fd

record comm_way_res =
  way_point :: "double list"
  way_n_point :: "double list"

record comm_mov_cmd =
  vel_cmd :: "double list"

record comm_range_pose_data =
  rp_ranges :: "double list"
  rp_pose :: "double list"

record comm_map_update =
  mu_pose_x :: int
  mu_pose_y :: int
  mu_obs_count :: int
  mu_obs_x :: "int list"
  mu_obs_y :: "int list"

record comm_ack =
  ack_hash :: int

record comm_msg_buffer =
  mb_length :: int
  mb_message :: "byte list"

definition commToEnum :: "string \<Rightarrow> comm_message_t" where
  "commToEnum name =
     (if name = ''WAY_REQ'' then WAY_REQ
      else if name = ''WAY_RES'' then WAY_RES
      else if name = ''MOV_CMD'' then MOV_CMD
      else if name = ''RANGE_POSE_DATA'' then RANGE_POSE_DATA
      else if name = ''MAP_UPDATE'' then MAP_UPDATE
      else if name = ''COMM_ACK'' then COMM_ACK
      else if name = ''MSG_BUFFER'' then MSG_BUFFER
      else COMM_ERROR)"

lemma commToEnum_MESSAGE_T [simp]: "commToEnum (MESSAGE_T t) = t"
  by (cases t) (simp_all add: commToEnum_def)

section \<open>Typed pipes as text\<close>

definition serializePipe :: "typed_pipe \<Rightarrow> string" where
  "serializePipe pipe =
     (if tp_in pipe = 0
      then MESSAGE_T (tp_type pipe) @ '':'' @ show_int 0 @ '':'' @ show_int (tp_out pipe)
      else MESSAGE_T (tp_type pipe) @ '':'' @ show_int (tp_in pipe) @ '':'' @ show_int 0)"

text \<open>
  \<open>sscanf(serial, "%m[^:]:%d:%d", ...)\<close>: the descriptors keep their initial 0 where the text ends
  early. With no character before the first colon the pointer \<open>type\<close> is never set and the call of
  \<open>commToEnum\<close> reads it: \<open>None\<close>.
\<close>

definition deserializePipe :: "string \<Rightarrow> typed_pipe option" where
  "deserializePipe serial =
     (case scan_not_colon serial of
        None \<Rightarrow> None
      | Some (type, rest) \<Rightarrow>
          (case scan_colon_int rest of
             None \<Rightarrow> Some \<lparr>tp_type = commToEnum type, tp_in = 0, tp_out = 0\<rparr>
           | Some (i, rest2) \<Rightarrow>
               (case scan_colon_int rest2 of
                  None \<Rightarrow> Some \<lparr>tp_type = commToEnum type, tp_in = i, tp_out = 0\<rparr>
                | Some (ou, _) \<Rightarrow> Some \<lparr>tp_type = commToEnum type, tp_in = i, tp_out = ou\<rparr>)))"

definition resetPipe :: "os \<Rightarrow> typed_pipe \<Rightarrow> os \<times> typed_pipe" where
  "resetPipe k pipe =
     (let p0 = pipe\<lparr>tp_type := COMM_ERROR\<rparr>;
          (k1, p1) = (if tp_in p0 \<noteq> 0 then (fst (os_close k (tp_in p0)), p0\<lparr>tp_in := 0\<rparr>) else (k, p0))
      in if tp_out p1 \<noteq> 0 then (fst (os_close k1 (tp_out p1)), p1\<lparr>tp_out := 0\<rparr>) else (k1, p1))"

definition convertTypedToVote ::
    "typed_pipe list \<Rightarrow> nat \<Rightarrow> vote_pipe list \<Rightarrow> vote_pipe list" where
  "convertTypedToVote ext_pipes n new_pipes =
     for_upto n (\<lambda>i ps. ps[i := (ps ! i)\<lparr>fd_in := tp_in (ext_pipes ! i),
                                         fd_out := tp_out (ext_pipes ! i),
                                         rep_info := MESSAGE_T (tp_type (ext_pipes ! i))\<rparr>]) new_pipes"

definition convertVoteToTyped ::
    "vote_pipe list \<Rightarrow> nat \<Rightarrow> typed_pipe list \<Rightarrow> typed_pipe list" where
  "convertVoteToTyped ext_pipes n new_pipes =
     for_upto n (\<lambda>i ps. ps[i := (ps ! i)\<lparr>tp_in := fd_in (ext_pipes ! i),
                                         tp_out := fd_out (ext_pipes ! i),
                                         tp_type := commToEnum (rep_info (ext_pipes ! i))\<rparr>]) new_pipes"

section \<open>Messages of fixed length\<close>

text \<open>A structure of doubles in memory is the concatenation of its fields.\<close>

definition doubles_bytes :: "double list \<Rightarrow> byte list" where
  "doubles_bytes ds = concat (map u64_bytes ds)"

fun doubles_of_bytes :: "nat \<Rightarrow> byte list \<Rightarrow> double list" where
  "doubles_of_bytes 0 bs = []"
| "doubles_of_bytes (Suc n) bs = u64_of_bytes (take 8 bs) # doubles_of_bytes n (drop 8 bs)"

definition way_res_bytes :: "comm_way_res \<Rightarrow> byte list" where
  "way_res_bytes m = doubles_bytes (way_point m @ way_n_point m)"

definition way_res_of_bytes :: "byte list \<Rightarrow> comm_way_res" where
  "way_res_of_bytes bs = (let ds = doubles_of_bytes 6 bs in
     \<lparr>way_point = take 3 ds, way_n_point = drop 3 ds\<rparr>)"

definition range_pose_bytes :: "comm_range_pose_data \<Rightarrow> byte list" where
  "range_pose_bytes m = doubles_bytes (rp_ranges m @ rp_pose m)"

definition range_pose_of_bytes :: "byte list \<Rightarrow> comm_range_pose_data" where
  "range_pose_of_bytes bs = (let ds = doubles_of_bytes 19 bs in
     \<lparr>rp_ranges = take 16 ds, rp_pose = drop 16 ds\<rparr>)"

definition mov_cmd_bytes :: "comm_mov_cmd \<Rightarrow> byte list" where
  "mov_cmd_bytes m = doubles_bytes (vel_cmd m)"

definition mov_cmd_of_bytes :: "byte list \<Rightarrow> comm_mov_cmd" where
  "mov_cmd_of_bytes bs = \<lparr>vel_cmd = doubles_of_bytes 2 bs\<rparr>"

definition commSendWaypoints :: "os \<Rightarrow> typed_pipe \<Rightarrow> double \<Rightarrow> double \<Rightarrow> double \<Rightarrow>
    double \<Rightarrow> double \<Rightarrow> double \<Rightarrow> os \<times> int" where
  "commSendWaypoints k pipe way_x way_y way_a n_way_x n_way_y n_way_a =
     (if tp_out pipe = 0 \<or> tp_type pipe \<noteq> WAY_RES then (k, 0)
      else os_write k (tp_out pipe)
             (way_res_bytes \<lparr>way_point = [way_x, way_y, way_a],
                             way_n_point = [n_way_x, n_way_y, n_way_a]\<rparr>) 48)"

definition commCopyWaypoints :: "comm_way_res \<Rightarrow> double list \<times> double list" where
  "commCopyWaypoints recv_msg =
     (map (\<lambda>i. way_point recv_msg ! i) [0..<3], map (\<lambda>i. way_n_point recv_msg ! i) [0..<3])"

definition commSendWaypointRequest :: "os \<Rightarrow> typed_pipe \<Rightarrow> os \<times> int" where
  "commSendWaypointRequest k pipe =
     (if tp_out pipe = 0 \<or> tp_type pipe \<noteq> WAY_REQ then (k, 0)
      else os_write k (tp_out pipe) (int_bytes 0) 4)"

definition commSendMoveCommand :: "os \<Rightarrow> typed_pipe \<Rightarrow> double \<Rightarrow> double \<Rightarrow> os \<times> int" where
  "commSendMoveCommand k pipe vel_0 vel_1 =
     (if tp_out pipe = 0 \<or> tp_type pipe \<noteq> MOV_CMD then (k, 0)
      else os_write k (tp_out pipe) (mov_cmd_bytes \<lparr>vel_cmd = [vel_0, vel_1]\<rparr>) 16)"

definition commSendRanger :: "os \<Rightarrow> typed_pipe \<Rightarrow> double list \<Rightarrow> double list \<Rightarrow> os \<times> int" where
  "commSendRanger k pipe ranger_data pose_data =
     (if tp_out pipe = 0 \<or> tp_type pipe \<noteq> RANGE_POSE_DATA then (k, 0)
      else os_write k (tp_out pipe)
             (range_pose_bytes \<lparr>rp_ranges = map (\<lambda>i. ranger_data ! i) [0..<RANGER_COUNT],
                                rp_pose = map (\<lambda>i. pose_data ! i) [0..<3]\<rparr>) 152)"

definition commSendAck :: "os \<Rightarrow> typed_pipe \<Rightarrow> int \<Rightarrow> os \<times> int" where
  "commSendAck k pipe state_hash =
     (if tp_out pipe = 0 \<or> tp_type pipe \<noteq> COMM_ACK then (k, 0)
      else os_write k (tp_out pipe) (u64_bytes (word_of_int state_hash)) 8)"

definition commCopyRanger :: "comm_range_pose_data \<Rightarrow> double list \<times> double list" where
  "commCopyRanger recv_msg =
     (map (\<lambda>i. rp_ranges recv_msg ! i) [0..<RANGER_COUNT], map (\<lambda>i. rp_pose recv_msg ! i) [0..<3])"

section \<open>Messages of variable length\<close>

abbreviation MAX_TYPED_PIPE_BUFF :: nat where "MAX_TYPED_PIPE_BUFF \<equiv> 4096"

definition ints_bytes :: "int list \<Rightarrow> byte list" where
  "ints_bytes is = concat (map int_bytes is)"

fun ints_of_bytes :: "nat \<Rightarrow> byte list \<Rightarrow> int list" where
  "ints_of_bytes 0 bs = []"
| "ints_of_bytes (Suc n) bs = int_of_bytes (take 4 bs) # ints_of_bytes n (drop 4 bs)"

text \<open>
  The loop of \<open>commSendMapUpdate\<close> that appends obstacle pairs to the buffer of 1024 ints: the check
  of the size comes after the two stores, so a store outside the buffer happens first.
\<close>

fun put_obstacles :: "comm_map_update \<Rightarrow> nat \<Rightarrow> nat \<Rightarrow> int list \<Rightarrow> int list option" where
  "put_obstacles msg 0 index buf = Some buf"
| "put_obstacles msg (Suc r) index buf =
     (if length (mu_obs_x msg) \<le> index \<or> length (mu_obs_y msg) \<le> index \<or>
         MAX_TYPED_PIPE_BUFF div 4 < length buf + 2 then None
      else (let buf' = buf @ [mu_obs_x msg ! index, mu_obs_y msg ! index] in
            if MAX_TYPED_PIPE_BUFF < length buf' * 4 then Some buf'
            else put_obstacles msg r (Suc index) buf'))"

definition commSendMapUpdate :: "os \<Rightarrow> typed_pipe \<Rightarrow> comm_map_update \<Rightarrow> (os \<times> int) option" where
  "commSendMapUpdate k pipe msg =
     (if tp_out pipe = 0 \<or> tp_type pipe \<noteq> MAP_UPDATE then Some (k, 0)
      else (case put_obstacles msg (nat (mu_obs_count msg)) 0
                   [mu_pose_x msg, mu_pose_y msg, mu_obs_count msg] of
              None \<Rightarrow> None
            | Some buf \<Rightarrow> Some (os_write k (tp_out pipe) (ints_bytes buf) (int (4 * length buf)))))"

text \<open>
  \<open>commRecvMapUpdate\<close> reads the three header ints and then the obstacles. The result is -1 for a
  failed read and the number of bytes of the last read otherwise. More obstacle bytes than the
  1021 remaining ints of the local buffer, or more obstacles than the caller's arrays hold, are
  stores outside an array.
\<close>

definition commRecvMapUpdate ::
    "os \<Rightarrow> typed_pipe \<Rightarrow> comm_map_update \<Rightarrow> (os \<times> comm_map_update \<times> int) option" where
  "commRecvMapUpdate k pipe msg =
     (if tp_in pipe = 0 \<or> tp_type pipe \<noteq> MAP_UPDATE then Some (k, msg, 0)
      else (case os_read k (tp_in pipe) 12 of
        (k1, None) \<Rightarrow> Some (k1, msg, - 1)
      | (k1, Some hdr) \<Rightarrow>
          (if length hdr = 12 then
             (let h = ints_of_bytes 3 hdr;
                  msg1 = msg\<lparr>mu_pose_x := h ! 0, mu_pose_y := h ! 1, mu_obs_count := h ! 2\<rparr>;
                  n = nat (h ! 2)
              in if h ! 2 > 0 then
                   (case os_read k1 (tp_in pipe) (8 * n) of
                      (k2, None) \<Rightarrow> Some (k2, msg1, - 1)
                    | (k2, Some bs) \<Rightarrow>
                        (if MAX_TYPED_PIPE_BUFF - 12 < length bs then None
                         else if length bs = 8 * n then
                           (if length (mu_obs_x msg) < n \<or> length (mu_obs_y msg) < n then None
                            else (let v = ints_of_bytes (2 * n) bs in
                              Some (k2, msg1\<lparr>mu_obs_x := map (\<lambda>i. v ! (2 * i)) [0..<n] @ drop n (mu_obs_x msg),
                                             mu_obs_y := map (\<lambda>i. v ! (2 * i + 1)) [0..<n] @ drop n (mu_obs_y msg)\<rparr>,
                                    int (length bs))))
                         else Some (k2, msg1, int (length bs))))
                 else Some (k1, msg1, 12))
           else Some (k1, msg, int (length hdr)))))"

text \<open>
  \<open>commSendMsgBuffer\<close> copies \<open>length\<close> bytes of the message; a negative length, or one beyond the
  block that \<open>message\<close> points to, is an access outside a block.
\<close>

definition commSendMsgBuffer :: "os \<Rightarrow> typed_pipe \<Rightarrow> comm_msg_buffer \<Rightarrow> (os \<times> int) option" where
  "commSendMsgBuffer k pipe msg =
     (if tp_out pipe = 0 \<or> tp_type pipe \<noteq> MSG_BUFFER then Some (k, 0)
      else if mb_length msg < 0 \<or> int (length (mb_message msg)) < mb_length msg then None
      else Some (os_write k (tp_out pipe)
             (int_bytes (mb_length msg) @ take (nat (mb_length msg)) (mb_message msg))
             (mb_length msg + 4)))"

text \<open>
  \<open>commRecvMsgBuffer\<close> reads the length in place, then allocates the message; of the allocated block
  the model keeps the bytes that were read.
\<close>

definition commRecvMsgBuffer ::
    "os \<Rightarrow> typed_pipe \<Rightarrow> comm_msg_buffer \<Rightarrow> os \<times> comm_msg_buffer \<times> int" where
  "commRecvMsgBuffer k pipe msg =
     (if tp_in pipe = 0 \<or> tp_type pipe \<noteq> MSG_BUFFER then (k, msg, 0)
      else (case os_read k (tp_in pipe) 4 of
        (k1, None) \<Rightarrow> (k1, msg, - 1)
      | (k1, Some hdr) \<Rightarrow>
          (let n = int_of_bytes (memcpy (int_bytes (mb_length msg)) 0 hdr 0 (length hdr)) in
           if length hdr = 4 then
             (let msg1 = \<lparr>mb_length = n, mb_message = []\<rparr> in
              if n > 0 then
                (case os_read k1 (tp_in pipe) (nat n) of
                   (k2, None) \<Rightarrow> (k2, msg1, - 1)
                 | (k2, Some bs) \<Rightarrow> (k2, msg1\<lparr>mb_message := bs\<rparr>, int (length bs)))
              else (k1, msg1, 4))
           else (k1, msg\<lparr>mb_length := n\<rparr>, int (length hdr)))))"

section \<open>Byte layouts\<close>

lemma length_doubles_bytes [simp]: "length (doubles_bytes ds) = 8 * length ds"
  by (induction ds) (simp_all add: doubles_bytes_def)

lemma doubles_of_bytes_append [simp]:
  "doubles_of_bytes (length ds) (doubles_bytes ds @ rest) = ds"
  by (induction ds) (simp_all add: doubles_bytes_def)

lemma length_ints_bytes [simp]: "length (ints_bytes is) = 4 * length is"
  by (induction "is") (simp_all add: ints_bytes_def)

lemma ints_bytes_append [simp]: "ints_bytes (xs @ ys) = ints_bytes xs @ ints_bytes ys"
  by (simp add: ints_bytes_def)

lemma ints_of_bytes_append:
  "\<forall>i \<in> set is. c_int i \<Longrightarrow> ints_of_bytes (length is) (ints_bytes is @ rest) = is"
  by (induction "is") (simp_all add: ints_bytes_def int_of_bytes_int_bytes)

text \<open>
  The contract of a message of fixed length: its image in memory has \<open>size\<close> bytes, and reading
  those bytes back gives the message, whatever follows them. A sender and a receiver that share a
  pipe then see it as a queue of messages.
\<close>

locale wire_codec =
  fixes valid :: "'m \<Rightarrow> bool" and size :: nat
    and enc :: "'m \<Rightarrow> byte list" and dec :: "byte list \<Rightarrow> 'm"
  assumes size_pos: "0 < size"
    and length_enc: "valid m \<Longrightarrow> length (enc m) = size"
    and dec_enc: "valid m \<Longrightarrow> dec (enc m @ rest) = m"
begin

definition carries :: "os \<Rightarrow> nat \<Rightarrow> 'm list \<Rightarrow> bool" where
  "carries k q ms \<longleftrightarrow> q < length (os_pipes k) \<and> (\<forall>m \<in> set ms. valid m) \<and>
     os_pipes k ! q = concat (map enc ms)"

lemma write_carries:
  assumes "carries k q ms" "os_lookup k fd = Some (WriteEnd q)" "valid m"
  shows "\<exists>k'. os_write k fd (enc m) (int size) = (k', int size) \<and> carries k' q (ms @ [m]) \<and>
    os_fd_table k' = os_fd_table k"
  using assms by (simp add: os_write_def carries_def length_enc)

lemma read_carries:
  assumes "carries k q (m # ms)" "os_lookup k fd = Some (ReadEnd q)"
  shows "\<exists>k' bs. os_read k fd size = (k', Some bs) \<and> length bs = size \<and> dec bs = m \<and>
    carries k' q ms \<and> os_fd_table k' = os_fd_table k"
proof -
  have l: "length (enc m) = size" and m: "valid m" using assms length_enc by (auto simp: carries_def)
  then have "enc m \<noteq> []" using size_pos by auto
  then show ?thesis
    using assms l m dec_enc [OF m, of "[]"] size_pos by (simp add: os_read_def carries_def)
qed

end

definition valid_way_res :: "comm_way_res \<Rightarrow> bool" where
  [wf_simps]: "valid_way_res m \<longleftrightarrow> length (way_point m) = 3 \<and> length (way_n_point m) = 3"

definition valid_range_pose :: "comm_range_pose_data \<Rightarrow> bool" where
  [wf_simps]: "valid_range_pose m \<longleftrightarrow> length (rp_ranges m) = 16 \<and> length (rp_pose m) = 3"

definition valid_mov_cmd :: "comm_mov_cmd \<Rightarrow> bool" where
  [wf_simps]: "valid_mov_cmd m \<longleftrightarrow> length (vel_cmd m) = 2"

lemma doubles_roundtrip:
  "length ds = n \<Longrightarrow> doubles_of_bytes n (doubles_bytes ds @ rest) = ds"
  using doubles_of_bytes_append by blast

interpretation way_codec: wire_codec valid_way_res 48 way_res_bytes way_res_of_bytes
proof unfold_locales
  fix m :: comm_way_res and rest
  assume "valid_way_res m"
  then show "length (way_res_bytes m) = 48" "way_res_of_bytes (way_res_bytes m @ rest) = m"
    using doubles_roundtrip [of "way_point m @ way_n_point m" 6 rest]
    by (simp_all add: way_res_bytes_def way_res_of_bytes_def wf_simps Let_def)
qed simp

interpretation range_codec: wire_codec valid_range_pose 152 range_pose_bytes range_pose_of_bytes
proof unfold_locales
  fix m :: comm_range_pose_data and rest
  assume "valid_range_pose m"
  then show "length (range_pose_bytes m) = 152" "range_pose_of_bytes (range_pose_bytes m @ rest) = m"
    using doubles_roundtrip [of "rp_ranges m @ rp_pose m" 19 rest]
    by (simp_all add: range_pose_bytes_def range_pose_of_bytes_def wf_simps Let_def)
qed simp

interpretation mov_codec: wire_codec valid_mov_cmd 16 mov_cmd_bytes mov_cmd_of_bytes
proof unfold_locales
  fix m :: comm_mov_cmd and rest
  assume "valid_mov_cmd m"
  then show "length (mov_cmd_bytes m) = 16" "mov_cmd_of_bytes (mov_cmd_bytes m @ rest) = m"
    using doubles_roundtrip [of "vel_cmd m" 2 rest]
    by (simp_all add: mov_cmd_bytes_def mov_cmd_of_bytes_def wf_simps Let_def)
qed simp

section \<open>Properties\<close>

lemma message_name: "MESSAGE_T t \<noteq> [] \<and> CHR '':'' \<notin> set (MESSAGE_T t)"
  by (cases t) simp_all

text \<open>
  A pipe description survives the command line: whatever its type and descriptors, the text
  that the controllers pass to a replica is read back as the same pipe, with the output end dropped
  when the pipe has an input end.
\<close>

theorem pipe_text_roundtrip:
  "deserializePipe (serializePipe p) = Some (p\<lparr>tp_out := if tp_in p = 0 then tp_out p else 0\<rparr>)"
proof -
  have "deserializePipe (MESSAGE_T (tp_type p) @ '':'' @ show_int i @ '':'' @ show_int j) =
      Some \<lparr>tp_type = tp_type p, tp_in = i, tp_out = j\<rparr>" for i j
    using message_name [of "tp_type p"] scan_colon_int_show [of "[]" j]
    by (simp add: deserializePipe_def scan_not_colon_append scan_colon_int_show is_digit_def)
  then show ?thesis
    by (simp add: serializePipe_def)
qed

text \<open>What \<open>put_obstacles\<close> leaves in the buffer: the pairs of obstacles, as long as they fit.\<close>

definition obstacle_pairs :: "comm_map_update \<Rightarrow> nat \<Rightarrow> nat \<Rightarrow> int list" where
  "obstacle_pairs msg i r = concat (map (\<lambda>j. [mu_obs_x msg ! j, mu_obs_y msg ! j]) [i..<i + r])"

lemma length_obstacle_pairs [simp]: "length (obstacle_pairs msg i r) = 2 * r"
  by (induction r) (simp_all add: obstacle_pairs_def)

lemma obstacle_pairs_Suc:
  "obstacle_pairs msg i (Suc r) = [mu_obs_x msg ! i, mu_obs_y msg ! i] @ obstacle_pairs msg (Suc i) r"
  by (simp add: obstacle_pairs_def upt_conv_Cons del: upt_Suc)

lemma nth_obstacle_pairs:
  "j < r \<Longrightarrow> obstacle_pairs msg i r ! (2 * j) = mu_obs_x msg ! (i + j) \<and>
    obstacle_pairs msg i r ! (2 * j + 1) = mu_obs_y msg ! (i + j)"
proof (induction r arbitrary: i j)
  case (Suc r)
  then show ?case by (cases j) (simp_all add: obstacle_pairs_Suc)
qed simp

lemma put_obstacles_eq:
  assumes "i + r \<le> length (mu_obs_x msg)" "i + r \<le> length (mu_obs_y msg)" "length buf \<le> 1024"
  shows "put_obstacles msg r i buf =
    (if length buf + 2 * r \<le> 1024 then Some (buf @ obstacle_pairs msg i r) else None)"
  using assms
proof (induction r arbitrary: i buf)
  case 0
  then show ?case by (simp add: obstacle_pairs_def)
next
  case (Suc r)
  then show ?case by (simp add: obstacle_pairs_Suc Let_def)
qed

definition obs_arrays :: "comm_map_update \<Rightarrow> nat \<Rightarrow> bool" where
  [wf_simps]: "obs_arrays msg n \<longleftrightarrow> n \<le> length (mu_obs_x msg) \<and> n \<le> length (mu_obs_y msg)"

definition map_update_ints :: "comm_map_update \<Rightarrow> int list" where
  "map_update_ints msg = [mu_pose_x msg, mu_pose_y msg, mu_obs_count msg] @
     obstacle_pairs msg 0 (nat (mu_obs_count msg))"

lemma commSendMapUpdate_eq:
  assumes "tp_out p \<noteq> 0" "tp_type p = MAP_UPDATE" "obs_arrays msg (nat (mu_obs_count msg))"
  shows "commSendMapUpdate k p msg =
    (if mu_obs_count msg \<le> 510
     then Some (os_write k (tp_out p) (ints_bytes (map_update_ints msg))
                  (int (4 * length (map_update_ints msg))))
     else None)"
  using assms by (auto simp: commSendMapUpdate_def put_obstacles_eq map_update_ints_def wf_simps)

text \<open>
  (C27) The buffer of \<open>commSendMapUpdate\<close> holds 510 obstacles and no more: with at most 510 the
  message of \<open>12 + 8 * obs_count\<close> bytes is written to the pipe, with more the store runs past the
  end of the buffer before the size is checked.
\<close>

theorem map_update_buffer_limit:
  assumes "tp_out p \<noteq> 0" "tp_type p = MAP_UPDATE" "0 \<le> mu_obs_count msg"
    "obs_arrays msg (nat (mu_obs_count msg))"
    "os_lookup k (tp_out p) = Some (WriteEnd q)" "q < length (os_pipes k)"
  shows "if mu_obs_count msg \<le> 510
    then \<exists>k'. commSendMapUpdate k p msg = Some (k', 12 + 8 * mu_obs_count msg) \<and>
      int (length (fd_queue k' (tp_out p))) =
        int (length (fd_queue k (tp_out p))) + 12 + 8 * mu_obs_count msg
    else commSendMapUpdate k p msg = None"
proof -
  have len: "int (4 * length (map_update_ints msg)) = 12 + 8 * mu_obs_count msg"
    using assms(3) by (simp add: map_update_ints_def)
  show ?thesis
    unfolding commSendMapUpdate_eq [OF assms(1,2,4)] len
    using assms len by (simp add: os_write_def fd_queue_def)
qed

definition demo_update :: comm_map_update where
  "demo_update = \<lparr>mu_pose_x = 5, mu_pose_y = 7, mu_obs_count = 2, mu_obs_x = [3, - 4],
     mu_obs_y = [8, 9]\<rparr>"

abbreviation demo_map_pipe :: typed_pipe where
  "demo_map_pipe \<equiv> \<lparr>tp_type = MAP_UPDATE, tp_in = 3, tp_out = 4\<rparr>"

theorem map_update_buffer_limit_witness:
  "(\<exists>k'. commSendMapUpdate (demo_os []) demo_map_pipe demo_update = Some (k', 28) \<and>
     length (fd_queue k' 4) = 28) \<and>
   commSendMapUpdate (demo_os []) demo_map_pipe
     (demo_update\<lparr>mu_obs_count := 511, mu_obs_x := replicate 511 0, mu_obs_y := replicate 511 0\<rparr>) = None"
proof
  show "\<exists>k'. commSendMapUpdate (demo_os []) demo_map_pipe demo_update = Some (k', 28) \<and>
     length (fd_queue k' 4) = 28"
    using map_update_buffer_limit [of demo_map_pipe demo_update "demo_os []" 0]
    by (auto simp: demo_update_def wf_simps fd_queue_def)
  show "commSendMapUpdate (demo_os []) demo_map_pipe
     (demo_update\<lparr>mu_obs_count := 511, mu_obs_x := replicate 511 0, mu_obs_y := replicate 511 0\<rparr>) = None"
    using map_update_buffer_limit [of demo_map_pipe "demo_update\<lparr>mu_obs_count := 511,
        mu_obs_x := replicate 511 0, mu_obs_y := replicate 511 0\<rparr>" "demo_os []" 0]
    by (simp add: demo_update_def wf_simps)
qed

definition c_int_update :: "comm_map_update \<Rightarrow> bool" where
  [wf_simps]: "c_int_update msg \<longleftrightarrow> c_int (mu_pose_x msg) \<and> c_int (mu_pose_y msg) \<and>
     (\<forall>i < nat (mu_obs_count msg). c_int (mu_obs_x msg ! i) \<and> c_int (mu_obs_y msg ! i))"

lemma c_int_pairs:
  assumes "c_int_update msg"
  shows "\<forall>i \<in> set (obstacle_pairs msg 0 (nat (mu_obs_count msg))). c_int i"
  using assms by (auto simp: obstacle_pairs_def wf_simps)

lemma commRecvMapUpdate_read:
  assumes "tp_in p \<noteq> 0" "tp_type p = MAP_UPDATE"
    and "os_lookup k (tp_in p) = Some (ReadEnd q)" "q < length (os_pipes k)"
    and "os_pipes k ! q = ints_bytes (map_update_ints msg) @ rest"
    and "0 \<le> mu_obs_count msg" "mu_obs_count msg \<le> 510" "c_int_update msg"
    and "obs_arrays msg (nat (mu_obs_count msg))" "obs_arrays dst (nat (mu_obs_count msg))"
  shows "\<exists>k' dst' r. commRecvMapUpdate k p dst = Some (k', dst', r) \<and> 0 < r \<and>
    mu_pose_x dst' = mu_pose_x msg \<and> mu_pose_y dst' = mu_pose_y msg \<and>
    mu_obs_count dst' = mu_obs_count msg \<and>
    take (nat (mu_obs_count msg)) (mu_obs_x dst') = take (nat (mu_obs_count msg)) (mu_obs_x msg) \<and>
    take (nat (mu_obs_count msg)) (mu_obs_y dst') = take (nat (mu_obs_count msg)) (mu_obs_y msg) \<and>
    k' = k\<lparr>os_pipes := (os_pipes k)[q := rest]\<rparr>"
proof -
  let ?n = "nat (mu_obs_count msg)"
  let ?h = "[mu_pose_x msg, mu_pose_y msg, mu_obs_count msg]" and ?o = "obstacle_pairs msg 0 ?n"
  let ?k1 = "k\<lparr>os_pipes := (os_pipes k)[q := ints_bytes ?o @ rest]\<rparr>"
  have lh: "length (ints_bytes ?h) = 12" by simp
  then have nh: "ints_bytes ?h \<noteq> []" by force
  have "os_pipes k ! q = ints_bytes ?h @ ints_bytes ?o @ rest"
    using assms(5) by (simp add: map_update_ints_def del: append_Cons)
  then have r1: "os_read k (tp_in p) 12 = (?k1, Some (ints_bytes ?h))"
    using assms(3,4) lh nh by (simp add: os_read_def)
  have ih: "ints_of_bytes 3 (ints_bytes ?h) = ?h"
    using ints_of_bytes_append [of ?h "[]"] assms(6-8) by (simp add: wf_simps c_int_def numeral_3_eq_3)
  show ?thesis
  proof (cases "mu_obs_count msg = 0")
    case True
    then have "?o = []" by (simp add: obstacle_pairs_def)
    then show ?thesis
      using assms(1,2) r1 ih lh True
      by (simp add: commRecvMapUpdate_def ints_bytes_def)
  next
    case False
    then have n: "0 < ?n" "?n \<le> 510" using assms(6,7) by auto
    have lo: "length (ints_bytes ?o) = 8 * ?n" by simp
    then have "ints_bytes ?o \<noteq> []" using n by force
    then have r2: "os_read ?k1 (tp_in p) (8 * ?n) =
        (k\<lparr>os_pipes := (os_pipes k)[q := rest]\<rparr>, Some (ints_bytes ?o))"
      using assms(3,4) lo n by (simp add: os_read_def)
    have io: "ints_of_bytes (2 * ?n) (ints_bytes ?o) = ?o"
      using ints_of_bytes_append [of ?o "[]"] c_int_pairs [OF assms(8)] by simp
    have m: "map (\<lambda>i. ?o ! (2 * i)) [0..<?n] = take ?n (mu_obs_x msg)"
      "map (\<lambda>i. ?o ! (2 * i + 1)) [0..<?n] = take ?n (mu_obs_y msg)"
      using assms(9) nth_obstacle_pairs [of _ ?n msg 0] by (auto simp: wf_simps intro: nth_equalityI)
    show ?thesis
      using assms(1,2,6,9,10) r1 r2 ih lh lo io m n False
      by (simp add: commRecvMapUpdate_def Let_def wf_simps)
  qed
qed

text \<open>
  (C26) A map update sent over a pipe is received as it was sent: the pose, the count and all the
  obstacles, in order, with nothing left in the pipe.
\<close>

theorem map_update_roundtrip:
  assumes "tp_out po \<noteq> 0" "tp_type po = MAP_UPDATE" "os_lookup k (tp_out po) = Some (WriteEnd q)"
    and "tp_in pin \<noteq> 0" "tp_type pin = MAP_UPDATE" "os_lookup k (tp_in pin) = Some (ReadEnd q)"
    and "q < length (os_pipes k)" "os_pipes k ! q = []"
    and "0 \<le> mu_obs_count msg" "mu_obs_count msg \<le> 510" "c_int_update msg"
    and "obs_arrays msg (nat (mu_obs_count msg))" "obs_arrays dst (nat (mu_obs_count msg))"
  shows "\<exists>k1 w k2 dst' r. commSendMapUpdate k po msg = Some (k1, w) \<and>
    commRecvMapUpdate k1 pin dst = Some (k2, dst', r) \<and> 0 < r \<and> fd_queue k2 (tp_in pin) = [] \<and>
    mu_pose_x dst' = mu_pose_x msg \<and> mu_pose_y dst' = mu_pose_y msg \<and>
    mu_obs_count dst' = mu_obs_count msg \<and>
    take (nat (mu_obs_count msg)) (mu_obs_x dst') = take (nat (mu_obs_count msg)) (mu_obs_x msg) \<and>
    take (nat (mu_obs_count msg)) (mu_obs_y dst') = take (nat (mu_obs_count msg)) (mu_obs_y msg)"
proof -
  let ?k1 = "k\<lparr>os_pipes := (os_pipes k)[q := ints_bytes (map_update_ints msg)]\<rparr>"
  have "commSendMapUpdate k po msg = Some (?k1, int (4 * length (map_update_ints msg)))"
    using assms by (simp add: commSendMapUpdate_eq os_write_def)
  moreover have "os_lookup ?k1 (tp_in pin) = Some (ReadEnd q)" "q < length (os_pipes ?k1)"
    "os_pipes ?k1 ! q = ints_bytes (map_update_ints msg) @ []"
    using assms(6,7) by simp_all
  note commRecvMapUpdate_read [OF assms(4,5) this assms(9-13)]
  ultimately show ?thesis
    using assms(6,7) by (fastforce simp: fd_queue_def)
qed

theorem map_update_roundtrip_witness:
  "\<exists>k1 w k2 dst' r. commSendMapUpdate (demo_os []) demo_map_pipe demo_update = Some (k1, w) \<and>
    commRecvMapUpdate k1 demo_map_pipe (demo_update\<lparr>mu_obs_x := [0, 0, 1], mu_obs_y := [0, 0, 1]\<rparr>) =
      Some (k2, dst', r) \<and> mu_obs_count dst' = 2 \<and> take 2 (mu_obs_x dst') = [3, - 4]"
proof -
  have "c_int_update demo_update" by (simp add: demo_update_def wf_simps c_int_def All_less_Suc numeral_2_eq_2)
  from map_update_roundtrip [OF _ _ _ _ _ _ _ _ _ _ this, of demo_map_pipe "demo_os []" 0 demo_map_pipe
      "demo_update\<lparr>mu_obs_x := [0, 0, 1], mu_obs_y := [0, 0, 1]\<rparr>"]
  show ?thesis by (simp add: demo_update_def wf_simps) blast
qed

text \<open>A message whose bytes are at the front of the pipe.\<close>

lemma commRecvMsgBuffer_read:
  assumes "tp_in pin \<noteq> 0" "tp_type pin = MSG_BUFFER" "os_lookup k (tp_in pin) = Some (ReadEnd q)" "q < length (os_pipes k)"
    and "os_pipes k ! q = int_bytes n @ m @ rest" "n = int (length m)" "c_int n" "m \<noteq> []"
  shows "commRecvMsgBuffer k pin dst = (k\<lparr>os_pipes := (os_pipes k)[q := rest]\<rparr>, \<lparr>mb_length = n, mb_message = m\<rparr>, n)"
proof -
  let ?k2 = "k\<lparr>os_pipes := (os_pipes k)[q := m @ rest]\<rparr>"
  have "int_bytes n \<noteq> []" using length_int_bytes [of n] by force
  then have "os_read k (tp_in pin) 4 = (?k2, Some (int_bytes n))" using assms(3-5) by (simp add: os_read_def)
  moreover have "os_read ?k2 (tp_in pin) (nat n) = (k\<lparr>os_pipes := (os_pipes k)[q := rest]\<rparr>, Some m)"
    using assms(3,4,6,8) by (simp add: os_read_def)
  moreover have "memcpy (int_bytes (mb_length dst)) 0 (int_bytes n) 0 4 = int_bytes n" by (simp add: memcpy_def)
  ultimately show ?thesis
    using assms(1,2,6-8) int_of_bytes_int_bytes [OF assms(7)] by (simp add: commRecvMsgBuffer_def Let_def)
qed

text \<open>
  A message buffer sent over an empty pipe is received as it was sent, length and bytes, and
  nothing is left in the pipe: \<open>commRecvMsgBuffer\<close> undoes \<open>commSendMsgBuffer\<close>.
\<close>

theorem msg_buffer_roundtrip:
  assumes "tp_out po \<noteq> 0" "tp_type po = MSG_BUFFER" "os_lookup k (tp_out po) = Some (WriteEnd q)"
    and "tp_in pin \<noteq> 0" "tp_type pin = MSG_BUFFER" "os_lookup k (tp_in pin) = Some (ReadEnd q)"
    and "q < length (os_pipes k)" "os_pipes k ! q = []"
    and "mb_length msg = int (length (mb_message msg))" "c_int (mb_length msg)"
  shows "\<exists>k1 w k2 r. commSendMsgBuffer k po msg = Some (k1, w) \<and> w = mb_length msg + 4 \<and>
    commRecvMsgBuffer k1 pin dst = (k2, msg, r) \<and> fd_queue k2 (tp_in pin) = []"
proof -
  let ?l = "int_bytes (mb_length msg)" and ?m = "mb_message msg"
  let ?k1 = "k\<lparr>os_pipes := (os_pipes k)[q := ?l @ ?m]\<rparr>"
    and ?k2 = "k\<lparr>os_pipes := (os_pipes k)[q := ?m]\<rparr>"
    and ?k3 = "k\<lparr>os_pipes := (os_pipes k)[q := []]\<rparr>"
  have nl: "?l \<noteq> []" using length_int_bytes [of "mb_length msg"] by force
  have s: "commSendMsgBuffer k po msg = Some (?k1, mb_length msg + 4)"
    using assms(1-3,7-9) by (simp add: commSendMsgBuffer_def os_write_def)
  have r1: "os_read ?k1 (tp_in pin) 4 = (?k2, Some ?l)"
    using assms(6,7) nl by (simp add: os_read_def)
  have m: "memcpy (int_bytes (mb_length dst)) 0 ?l 0 4 = ?l"
    by (simp add: memcpy_def)
  have r: "\<exists>r. commRecvMsgBuffer ?k1 pin dst = (?k3, msg, r)"
  proof (cases "?m = []")
    case True
    then show ?thesis
      using assms(4,5,9,10) r1 m int_of_bytes_int_bytes [OF assms(10)]
      by (simp add: commRecvMsgBuffer_def Let_def)
  next
    case False
    then have r2: "os_read ?k2 (tp_in pin) (nat (mb_length msg)) = (?k3, Some ?m)"
      using assms(6,7,9) by (simp add: os_read_def)
    then show ?thesis
      using assms(4,5,9,10) False r1 m int_of_bytes_int_bytes [OF assms(10)]
      by (simp add: commRecvMsgBuffer_def Let_def)
  qed
  then show ?thesis
    using s assms(6,7) by (auto simp: fd_queue_def)
qed

theorem msg_buffer_roundtrip_witness:
  "\<exists>k1 w k2 r. commSendMsgBuffer (demo_os []) \<lparr>tp_type = MSG_BUFFER, tp_in = 0, tp_out = 4\<rparr>
      \<lparr>mb_length = 2, mb_message = [65, 0]\<rparr> = Some (k1, w) \<and>
    commRecvMsgBuffer k1 \<lparr>tp_type = MSG_BUFFER, tp_in = 3, tp_out = 0\<rparr>
      \<lparr>mb_length = 0, mb_message = []\<rparr> = (k2, \<lparr>mb_length = 2, mb_message = [65, 0]\<rparr>, r)"
  using msg_buffer_roundtrip [of "\<lparr>tp_type = MSG_BUFFER, tp_in = 0, tp_out = 4\<rparr>" "demo_os []" 0
      "\<lparr>tp_type = MSG_BUFFER, tp_in = 3, tp_out = 0\<rparr>" "\<lparr>mb_length = 2, mb_message = [65, 0]\<rparr>"
      "\<lparr>mb_length = 0, mb_message = []\<rparr>"]
  by (simp add: c_int_def) blast

text \<open>
  (C28) A pipe between two controllers is a queue of whole messages. With \<open>ms\<close> still unread in a
  pipe of ranger messages, \<open>commSendRanger\<close> puts the new readings behind them, and a read of one
  message's size followed by \<open>commCopyRanger\<close> gives the oldest readings, bit for bit.
\<close>

theorem ranger_pipe_is_message_queue:
  assumes "range_codec.carries k q (m # ms)"
    and "tp_out po \<noteq> 0" "tp_type po = RANGE_POSE_DATA" "os_lookup k (tp_out po) = Some (WriteEnd q)"
    and "os_lookup k fd = Some (ReadEnd q)" "length rd = 16" "length pd = 3"
  shows "\<exists>k1 k2 bs. commSendRanger k po rd pd = (k1, 152) \<and> os_read k1 fd 152 = (k2, Some bs) \<and>
    commCopyRanger (range_pose_of_bytes bs) = (rp_ranges m, rp_pose m) \<and>
    range_codec.carries k2 q (ms @ [\<lparr>rp_ranges = rd, rp_pose = pd\<rparr>])"
proof -
  let ?m = "\<lparr>rp_ranges = rd, rp_pose = pd\<rparr>"
  have id: "map ((!) xs) [0..<n] = xs" if "length xs = n" for xs :: "double list" and n
    using that by (auto intro: nth_equalityI)
  obtain k1 where k1: "os_write k (tp_out po) (range_pose_bytes ?m) 152 = (k1, 152)"
    "range_codec.carries k1 q (m # ms @ [?m])" "os_fd_table k1 = os_fd_table k"
    using range_codec.write_carries [OF assms(1,4), of ?m] assms(6,7)
    by (auto simp: wf_simps)
  then have "os_lookup k1 fd = Some (ReadEnd q)" using assms(5) os_lookup_cong [OF k1(3)] by simp
  from range_codec.read_carries [OF k1(2) this] obtain k2 bs where
    "os_read k1 fd 152 = (k2, Some bs)" "range_pose_of_bytes bs = m"
    "range_codec.carries k2 q (ms @ [?m])" by auto
  moreover have "length (rp_ranges m) = 16" "length (rp_pose m) = 3"
    using assms(1) by (simp_all add: range_codec.carries_def wf_simps)
  moreover have "commSendRanger k po rd pd = (k1, 152)"
    using k1(1) assms(2,3,6,7) by (simp add: commSendRanger_def id)
  ultimately show ?thesis
    by (simp add: commCopyRanger_def id)
qed

theorem ranger_pipe_is_message_queue_witness:
  "\<exists>k1 k2 bs. commSendRanger
      (demo_os (range_pose_bytes \<lparr>rp_ranges = replicate 16 3, rp_pose = [1, 2, 3]\<rparr>))
      \<lparr>tp_type = RANGE_POSE_DATA, tp_in = 0, tp_out = 4\<rparr> (replicate 16 4) [5, 6, 7] = (k1, 152) \<and>
    os_read k1 3 152 = (k2, Some bs) \<and>
    commCopyRanger (range_pose_of_bytes bs) = (replicate 16 3, [1, 2, 3])"
proof -
  let ?m = "\<lparr>rp_ranges = replicate 16 3, rp_pose = [1, 2, 3]\<rparr>"
  have "range_codec.carries (demo_os (range_pose_bytes ?m)) 0 [?m]"
    by (simp add: range_codec.carries_def wf_simps)
  from ranger_pipe_is_message_queue [OF this, of "\<lparr>tp_type = RANGE_POSE_DATA, tp_in = 0, tp_out = 4\<rparr>" 3
      "replicate 16 4" "[5, 6, 7]"] show ?thesis
    by simp blast
qed

lemma convertTypedToVote_nth:
  assumes "n \<le> length ps"
  shows "length (convertTypedToVote ts n ps) = length ps \<and>
    (\<forall>i < n. convertTypedToVote ts n ps ! i = (ps ! i)\<lparr>fd_in := tp_in (ts ! i),
       fd_out := tp_out (ts ! i), rep_info := MESSAGE_T (tp_type (ts ! i))\<rparr>) \<and>
    (\<forall>i. n \<le> i \<longrightarrow> i < length ps \<longrightarrow> convertTypedToVote ts n ps ! i = ps ! i)"
  using assms unfolding convertTypedToVote_def
  by (induction n) (auto simp: for_upto_Suc nth_list_update less_Suc_eq)

lemma convertVoteToTyped_nth:
  assumes "n \<le> length ps"
  shows "length (convertVoteToTyped vs n ps) = length ps \<and>
    (\<forall>i < n. convertVoteToTyped vs n ps ! i = \<lparr>tp_type = commToEnum (rep_info (vs ! i)),
       tp_in = fd_in (vs ! i), tp_out = fd_out (vs ! i)\<rparr>) \<and>
    (\<forall>i. n \<le> i \<longrightarrow> i < length ps \<longrightarrow> convertVoteToTyped vs n ps ! i = ps ! i)"
  using assms unfolding convertVoteToTyped_def
  by (induction n) (auto simp: for_upto_Suc nth_list_update less_Suc_eq)

end
