(* ===== verification/Fd_Passing.thy ===== *)
theory Fd_Passing imports Comm_Types begin

text \<open>
  The file descriptor server and its client (\<open>src/fd_server.c\<close>, \<open>src/fd_client.c\<close>): a voter or
  controller hands the replica's ends of the pipes to a replica that has just been started, and the
  replica sends its process id back. The message is the array of \<open>struct typed_pipe\<close> as it lies in
  memory, with one descriptor per pipe as ancillary data.
\<close>

section \<open>Data\<close>

record server_data =
  sd_address :: string
  sd_sock_fd :: fd

abbreviation UNIX_PATH_MAX :: nat where "UNIX_PATH_MAX \<equiv> 108"

text \<open>The numbers of the enumeration, in the order of its declaration.\<close>

fun comm_number :: "comm_message_t \<Rightarrow> int" where
  "comm_number COMM_ERROR = 0"
| "comm_number WAY_REQ = 1"
| "comm_number WAY_RES = 2"
| "comm_number MOV_CMD = 3"
| "comm_number RANGE_POSE_DATA = 4"
| "comm_number MAP_UPDATE = 5"
| "comm_number COMM_ACK = 6"
| "comm_number MSG_BUFFER = 7"

definition comm_of_number :: "int \<Rightarrow> comm_message_t" where
  "comm_of_number i =
     (if i = 1 then WAY_REQ else if i = 2 then WAY_RES else if i = 3 then MOV_CMD
      else if i = 4 then RANGE_POSE_DATA else if i = 5 then MAP_UPDATE else if i = 6 then COMM_ACK
      else if i = 7 then MSG_BUFFER else COMM_ERROR)"

definition typed_pipe_ints :: "typed_pipe \<Rightarrow> int list" where
  "typed_pipe_ints p = [comm_number (tp_type p), tp_in p, tp_out p]"

definition typed_pipes_bytes :: "typed_pipe list \<Rightarrow> byte list" where
  "typed_pipes_bytes ps = ints_bytes (concat (map typed_pipe_ints ps))"

fun typed_pipes_of_ints :: "int list \<Rightarrow> typed_pipe list" where
  "typed_pipes_of_ints (t # i # ou # rest) =
     \<lparr>tp_type = comm_of_number t, tp_in = i, tp_out = ou\<rparr> # typed_pipes_of_ints rest"
| "typed_pipes_of_ints _ = []"

definition typed_pipes_of_bytes :: "nat \<Rightarrow> byte list \<Rightarrow> typed_pipe list" where
  "typed_pipes_of_bytes n bs = typed_pipes_of_ints (ints_of_bytes (3 * n) bs)"

section \<open>The server\<close>

text \<open>The array of uninitialised \<open>typed_pipe\<close>s on the stack that \<open>convertVoteToTyped\<close> fills.\<close>

abbreviation blank_pipe :: typed_pipe where
  "blank_pipe \<equiv> \<lparr>tp_type = COMM_ERROR, tp_in = 0, tp_out = 0\<rparr>"

definition rights :: "vote_pipe list \<Rightarrow> nat \<Rightarrow> fd list" where
  "rights pipes pipe_count =
     map (\<lambda>i. if fd_in (pipes ! i) \<noteq> 0 then fd_in (pipes ! i) else fd_out (pipes ! i)) [0..<pipe_count]"

text \<open>
  \<open>sendmsg\<close> to a client: a descriptor that is not open, or a client that is gone, makes it fail.
\<close>

definition sendFDS :: "os \<Rightarrow> bool \<Rightarrow> vote_pipe list \<Rightarrow> nat \<Rightarrow> os \<times> int" where
  "sendFDS k peer_ok pipes pipe_count =
     (let send_pipes = convertVoteToTyped pipes pipe_count (replicate pipe_count blank_pipe);
          fds = rights pipes pipe_count in
      if peer_ok \<and> list_all (\<lambda>fd. os_lookup k fd \<noteq> None) fds
      then (k\<lparr>os_passed := os_passed k @ [(typed_pipes_bytes send_pipes, fds)]\<rparr>, int (12 * pipe_count))
      else (k, - 1))"

text \<open>
  \<open>createFDS\<close>: \<open>bind_ok\<close> and \<open>listen_ok\<close> are the outcomes of the two system calls. On success the
  function ends without a \<open>return\<close>: the value is \<open>None\<close>. The removal of an old socket file is not
  part of the state.
\<close>

definition createFDS ::
    "bool \<Rightarrow> bool \<Rightarrow> os \<Rightarrow> server_data \<Rightarrow> string \<Rightarrow> os \<times> server_data \<times> int option" where
  "createFDS bind_ok listen_ok k sd name =
     (let actual_name = ''./'' @ name @ ''_fd_server'';
          (k1, s) = os_alloc k SocketEnd;
          sd1 = sd\<lparr>sd_sock_fd := s\<rparr> in
      if s < 0 then (k1, sd1, Some 1)
      else if length actual_name < UNIX_PATH_MAX then
        (let sd2 = sd1\<lparr>sd_address := actual_name\<rparr> in
         if \<not> bind_ok then (k1, sd2, Some 1)
         else if \<not> listen_ok then (k1, sd2, Some 1)
         else (k1, sd2, None))
      else (k1, sd1\<lparr>sd_address := []\<rparr>, Some (- 1)))"

text \<open>
  \<open>accept\<close> meets the next client of the script. When no client ever comes the call waits; a script that has
  ended is then given as a failing \<open>accept\<close>, and statements that a start or a restart succeeds assume
  the clients they need.
\<close>

definition os_accept :: "os \<Rightarrow> os \<times> fd \<times> peer" where
  "os_accept k =
     (case os_peers k of
        [] \<Rightarrow> (k, - 1, AcceptFails)
      | AcceptFails # ps \<Rightarrow> (k\<lparr>os_peers := ps\<rparr>, - 1, AcceptFails)
      | Peer t r # ps \<Rightarrow>
          (let (k1, c) = os_alloc (k\<lparr>os_peers := ps\<rparr>) SocketEnd in (k1, c, Peer t r)))"

text \<open>
  The process id is read into the caller's variable: fewer than four bytes overwrite a part of it.
\<close>

definition acceptSendFDS ::
    "os \<Rightarrow> server_data \<Rightarrow> pid \<Rightarrow> vote_pipe list \<Rightarrow> nat \<Rightarrow> os \<times> pid \<times> int" where
  "acceptSendFDS k sd pid pipes pipe_count =
     (case os_accept k of
        (k1, connection_fd, peer) \<Rightarrow>
          (if connection_fd > - 1 then
             (case peer of
                AcceptFails \<Rightarrow> (fst (os_close k1 connection_fd), pid, - 1)
              | Peer takes reply \<Rightarrow>
                  (let (k2, sent) = sendFDS k1 takes pipes pipe_count in
                   if sent < 0 then (fst (os_close k2 connection_fd), pid, - 1)
                   else (let got = take 4 reply;
                             pid' = int_of_bytes (memcpy (int_bytes pid) 0 got 0 (length got));
                             retval = (if length got = 4 then 4 else - 1)
                         in (fst (os_close k2 connection_fd), pid', retval))))
           else (fst (os_close k1 connection_fd), pid, - 1)))"

section \<open>The client\<close>

text \<open>
  \<open>requestFDS\<close> receives the message \<open>recv\<close>: bytes over the caller's array of pipes, and kernel
  objects that get new descriptors. With fewer descriptors than pipes the loop reads a block that
  was never written: \<open>None\<close>.
\<close>

definition relabel :: "fd list \<Rightarrow> nat \<Rightarrow> typed_pipe list \<Rightarrow> typed_pipe list" where
  "relabel fds i ps =
     (if tp_in (ps ! i) \<noteq> 0 then ps[i := (ps ! i)\<lparr>tp_in := fds ! i\<rparr>]
      else ps[i := (ps ! i)\<lparr>tp_out := fds ! i\<rparr>])"

definition requestFDS :: "os \<Rightarrow> (byte list \<times> fd_object list) option \<Rightarrow> typed_pipe list \<Rightarrow> nat \<Rightarrow>
    (os \<times> typed_pipe list \<times> int) option" where
  "requestFDS k recv pipes pipe_count =
     (case recv of
        None \<Rightarrow> Some (k, pipes, - 1)
      | Some (bs, obs) \<Rightarrow>
          (let got = take (12 * pipe_count) bs;
               mem = memcpy (typed_pipes_bytes (take pipe_count pipes)) 0 got 0 (length got);
               pipes1 = typed_pipes_of_bytes pipe_count mem @ drop pipe_count pipes;
               (k1, fds) = os_install k (take pipe_count obs) in
           if length fds < pipe_count then None
           else Some (k1, for_upto pipe_count (relabel fds) pipes1, int (length got))))"

text \<open>
  \<open>connectRecvFDS\<close>: the script of the client gives the outcome of \<open>connect\<close>, the message of the
  server and whether the server still reads. The result is the state, the pipes, the return value
  and the bytes the client sent.
\<close>

definition connectRecvFDS :: "os \<Rightarrow> bool \<Rightarrow> (byte list \<times> fd_object list) option \<Rightarrow> bool \<Rightarrow> pid \<Rightarrow>
    typed_pipe list \<Rightarrow> nat \<Rightarrow> string \<Rightarrow> (os \<times> typed_pipe list \<times> int \<times> byte list) option" where
  "connectRecvFDS k connects recv reads pid pipes pipe_count name =
     (let actual_name = ''./'' @ name @ ''_fd_server'';
          (k1, sock_fd) = os_alloc k SocketEnd in
      if sock_fd < 0 then Some (k1, pipes, - 1, [])
      else if length actual_name \<ge> UNIX_PATH_MAX then Some (fst (os_close k1 sock_fd), pipes, - 1, [])
      else if \<not> connects then Some (fst (os_close k1 sock_fd), pipes, - 1, [])
      else (case requestFDS k1 recv pipes pipe_count of
              None \<Rightarrow> None
            | Some (k2, pipes', r) \<Rightarrow>
                (if r < 0 then Some (fst (os_close k2 sock_fd), pipes', - 1, [])
                 else if reads then Some (fst (os_close k2 sock_fd), pipes', 0, int_bytes pid)
                 else Some (fst (os_close k2 sock_fd), pipes', - 1, []))))"

section \<open>The message\<close>

lemma comm_of_number_inverse [simp]: "comm_of_number (comm_number t) = t"
  by (cases t) (simp_all add: comm_of_number_def)

lemma length_typed_pipe_ints [simp]: "length (concat (map typed_pipe_ints ps)) = 3 * length ps"
  by (induction ps) (simp_all add: typed_pipe_ints_def)

lemma typed_pipes_of_ints_inverse:
  "typed_pipes_of_ints (concat (map typed_pipe_ints ps)) = ps"
  by (induction ps) (simp_all add: typed_pipe_ints_def)

lemma c_int_comm_number: "c_int (comm_number t)"
  by (cases t) (simp_all add: c_int_def)

definition c_int_pipe :: "typed_pipe \<Rightarrow> bool" where
  [wf_simps]: "c_int_pipe p \<longleftrightarrow> c_int (tp_in p) \<and> c_int (tp_out p)"

lemma typed_pipes_roundtrip:
  assumes "\<forall>p \<in> set ps. c_int_pipe p" "length ps = n"
  shows "typed_pipes_of_bytes n (typed_pipes_bytes ps) = ps"
proof -
  let ?is = "concat (map typed_pipe_ints ps)"
  have "\<forall>i \<in> set ?is. c_int i"
    using assms(1) c_int_comm_number by (auto simp: typed_pipe_ints_def wf_simps)
  moreover have "length ?is = 3 * n" using assms(2) by simp
  ultimately have "ints_of_bytes (3 * n) (ints_bytes ?is) = ?is"
    using ints_of_bytes_append [of ?is "[]"] by simp
  then show ?thesis
    by (simp add: typed_pipes_of_bytes_def typed_pipes_bytes_def typed_pipes_of_ints_inverse)
qed

lemma length_typed_pipes_bytes [simp]: "length (typed_pipes_bytes ps) = 12 * length ps"
  by (simp add: typed_pipes_bytes_def)

lemma relabel_loop:
  assumes "n \<le> length ps"
  shows "length (for_upto n (relabel fds) ps) = length ps \<and>
    (\<forall>i < n. for_upto n (relabel fds) ps ! i =
       (if tp_in (ps ! i) \<noteq> 0 then (ps ! i)\<lparr>tp_in := fds ! i\<rparr> else (ps ! i)\<lparr>tp_out := fds ! i\<rparr>)) \<and>
    (\<forall>i. n \<le> i \<longrightarrow> i < length ps \<longrightarrow> for_upto n (relabel fds) ps ! i = ps ! i)"
  using assms
proof (induction n)
  case (Suc n)
  then show ?case
    by (auto simp: for_upto_Suc relabel_def nth_list_update less_Suc_eq)
qed simp

lemma requestFDS_eq:
  assumes "length sent = n" "\<forall>p \<in> set sent. c_int_pipe p" "length obs = n" "length pipes = n"
    "os_install k obs = (k1, fds)" "length fds = n"
  shows "requestFDS k (Some (typed_pipes_bytes sent, obs)) pipes n =
    Some (k1, for_upto n (relabel fds) sent, int (12 * n))"
  using assms typed_pipes_roundtrip [of sent n]
  by (simp add: requestFDS_def memcpy_def Let_def)

lemma length_ints_of_bytes [simp]: "length (ints_of_bytes n bs) = n"
  by (induction n arbitrary: bs) simp_all

lemma length_typed_pipes_of_ints: "length (typed_pipes_of_ints is) = length is div 3"
  by (induction "is" rule: typed_pipes_of_ints.induct) simp_all

lemma length_relabel_loop [simp]: "length (for_upto n (relabel fds) ps) = length ps"
  by (induction n) (simp_all add: for_upto_Suc relabel_def)

lemma requestFDS_length:
  assumes "requestFDS k recv pipes n = Some (k', pipes', r)" "n \<le> length pipes"
  shows "length pipes' = length pipes"
proof (cases recv)
  case None
  then show ?thesis using assms by (simp add: requestFDS_def)
next
  case (Some m)
  then obtain bs obs where m: "recv = Some (bs, obs)" by (cases m) simp
  obtain k1 fds where "os_install k (take n obs) = (k1, fds)" by fastforce
  then show ?thesis
    using assms m by (auto simp: requestFDS_def Let_def typed_pipes_of_bytes_def length_typed_pipes_of_ints split: if_splits)
qed

lemma connectRecvFDS_length:
  assumes "connectRecvFDS k c recv reads pid pipes n name = Some (k', pipes', r, bs)" "n \<le> length pipes"
  shows "length pipes' = length pipes"
  using assms
  by (auto simp: connectRecvFDS_def Let_def split: prod.splits if_splits option.splits dest: requestFDS_length)

section \<open>Properties\<close>

text \<open>
  (C29) Descriptor passing connects the right pipes. What \<open>sendFDS\<close> puts into the message, received
  by \<open>requestFDS\<close> in a process with enough free descriptors, gives for every pipe the type that the
  server has for it, and an end that refers to the very kernel pipe end the server holds: the input
  end where the server passed an input, the output end otherwise.
\<close>

theorem fd_passing_connects:
  assumes "n \<le> length pipes" "\<forall>p \<in> set pipes. c_int (fd_in p) \<and> c_int (fd_out p)"
    and "sendFDS k True pipes n = (k', r)" "0 \<le> r"
    and "length ps = n" "os_lookup kc 0 \<noteq> None"
    and "length (snd (os_install kc (map (\<lambda>fd. the (os_lookup k fd)) (rights pipes n)))) = n"
  shows "\<exists>msg kc' ps'. os_passed k' = os_passed k @ [msg] \<and>
    requestFDS kc (Some (fst msg, map (\<lambda>fd. the (os_lookup k fd)) (snd msg))) ps n =
      Some (kc', ps', r) \<and> length ps' = n \<and>
    (\<forall>i < n. tp_type (ps' ! i) = commToEnum (rep_info (pipes ! i)) \<and>
      (if fd_in (pipes ! i) \<noteq> 0
       then tp_in (ps' ! i) \<noteq> 0 \<and> os_lookup kc' (tp_in (ps' ! i)) = os_lookup k (fd_in (pipes ! i))
       else tp_in (ps' ! i) = 0 \<and>
         os_lookup kc' (tp_out (ps' ! i)) = os_lookup k (fd_out (pipes ! i))))"
proof -
  let ?sent = "convertVoteToTyped pipes n (replicate n blank_pipe)"
  let ?obs = "map (\<lambda>fd. the (os_lookup k fd)) (rights pipes n)"
  obtain kc' fds where inst: "os_install kc ?obs = (kc', fds)" by fastforce
  have len: "length (rights pipes n) = n" "length fds = n" "length ?sent = n"
    using inst assms(7) convertVoteToTyped_nth [of n "replicate n blank_pipe" pipes]
    by (auto simp: rights_def)
  have nth: "?sent ! i = \<lparr>tp_type = commToEnum (rep_info (pipes ! i)), tp_in = fd_in (pipes ! i),
      tp_out = fd_out (pipes ! i)\<rparr>" if "i < n" for i
    using that convertVoteToTyped_nth [of n "replicate n blank_pipe" pipes] by simp
  moreover have "pipes ! i \<in> set pipes" if "i < n" for i using that assms(1) by simp
  ultimately have "\<forall>p \<in> set ?sent. c_int_pipe p"
    using assms(2) len(3) by (auto simp: in_set_conv_nth wf_simps)
  from requestFDS_eq [OF len(3) this _ assms(5) inst len(2)] len
  have req: "requestFDS kc (Some (typed_pipes_bytes ?sent, ?obs)) ps n =
      Some (kc', for_upto n (relabel fds) ?sent, int (12 * n))" by simp
  have snd: "os_passed k' = os_passed k @ [(typed_pipes_bytes ?sent, rights pipes n)]"
    "r = int (12 * n)" "\<forall>fd \<in> set (rights pipes n). os_lookup k fd \<noteq> None"
    using assms(3,4) by (auto simp: sendFDS_def Let_def list_all_iff split: if_splits)
  have "fds ! i \<noteq> 0 \<and> os_lookup kc' (fds ! i) = os_lookup k (rights pipes n ! i)" if "i < n" for i
  proof -
    have "rights pipes n ! i \<in> set (rights pipes n)" using that len(1) by simp
    then show ?thesis
      using that os_install_lookup [OF inst, of i] assms(6) len snd(3) by fastforce
  qed
  moreover have "rights pipes n ! i =
      (if fd_in (pipes ! i) \<noteq> 0 then fd_in (pipes ! i) else fd_out (pipes ! i))" if "i < n" for i
    using that by (simp add: rights_def)
  ultimately show ?thesis
    using snd(1,2) req nth relabel_loop [of n ?sent fds] len(3) by (simp add: exI)
qed

theorem fd_passing_connects_witness:
  "\<exists>msg kc' ps'. os_passed (fst (sendFDS (demo_os []) True [demo_vp] 1)) = [msg] \<and>
    requestFDS (demo_os []) (Some (fst msg, [ReadEnd 0])) [blank_pipe] 1 = Some (kc', ps', 12) \<and>
    os_lookup kc' (tp_in (ps' ! 0)) = Some (ReadEnd 0)"
proof -
  have f: "fd_in demo_vp = 3" "fd_out demo_vp = 0" by (simp_all add: demo_vp_def)
  have p: "os_passed (demo_os []) = []" by (simp add: demo_os_def)
  from f have r: "rights [demo_vp] (Suc 0) = [3]" by (simp add: rights_def)
  have i: "os_install (demo_os []) [ReadEnd 0] =
      ((demo_os [])\<lparr>os_fd_table := os_fd_table (demo_os []) @ [Some (ReadEnd 0)]\<rparr>, [5])"
    by (simp add: demo_os_def os_alloc_def Let_def)
  have z: "os_lookup (demo_os []) 0 = Some SocketEnd" by (simp add: demo_os_def os_lookup_def)
  have e: "sendFDS (demo_os []) True [demo_vp] 1 =
      ((demo_os [])\<lparr>os_passed := [(typed_pipes_bytes
         (convertVoteToTyped [demo_vp] 1 (replicate 1 blank_pipe)), [3])]\<rparr>, 12)"
    by (simp add: sendFDS_def Let_def r) (simp add: demo_os_def)
  show ?thesis
    using fd_passing_connects [OF _ _ e, of "[blank_pipe]" "demo_os []"]
    by (simp add: e [unfolded One_nat_def] r i z f p c_int_def del: os_install.simps) blast
qed

lemma sendFDS_lookup: "sendFDS k ok pipes n = (k', r) \<Longrightarrow> os_lookup k' fd = os_lookup k fd"
  by (auto simp: sendFDS_def Let_def split: if_splits)

lemma os_accept_ok:
  assumes "os_accept k = (k1, c, peer)" "- 1 < c"
  shows "os_lookup k c = None \<and> (\<forall>fd. fd \<noteq> c \<longrightarrow> os_lookup k1 fd = os_lookup k fd) \<and>
    (\<exists>t r ps. peer = Peer t r \<and> os_peers k = Peer t r # ps \<and> os_peers k1 = ps)"
proof -
  from assms obtain t r ps where p: "os_peers k = Peer t r # ps" "peer = Peer t r"
    "os_alloc (k\<lparr>os_peers := ps\<rparr>) SocketEnd = (k1, c)"
    by (auto simp: os_accept_def split: list.splits peer.splits prod.splits)
  moreover have "os_peers k1 = ps"
    using p(3) by (auto simp: os_alloc_def Let_def split: if_splits)
  moreover have "0 \<le> c" using assms(2) by simp
  note a = os_alloc_ok [OF p(3) this]
  have "os_lookup k c = None" using a(1) by simp
  moreover have "\<forall>fd. fd \<noteq> c \<longrightarrow> os_lookup k1 fd = os_lookup k fd" using a(2) by simp
  ultimately show ?thesis by blast
qed

lemma os_accept_fail: "os_accept k = (k1, c, peer) \<Longrightarrow> \<not> - 1 < c \<Longrightarrow> os_lookup k1 fd = os_lookup k fd"
  using os_alloc_fail by (fastforce simp: os_accept_def split: list.splits peer.splits prod.splits)

lemma acceptSendFDS_closes:
  assumes "os_accept k = (k1, c, peer)" "- 1 < c" "\<forall>fd. os_lookup k2 fd = os_lookup k1 fd"
  shows "os_lookup (fst (os_close k2 c)) fd = os_lookup k fd"
  using os_accept_ok [OF assms(1,2)] assms(3) by (simp add: os_close_lookup)

lemma os_alloc_kept: "os_alloc k ob = (k', f) \<Longrightarrow> pipes_kept k k'"
  by (auto simp: os_alloc_def pipes_kept_def Let_def split: if_splits)

lemma os_accept_kept: "os_accept k = (k', c, peer) \<Longrightarrow> pipes_kept k k'"
  using os_alloc_kept
  by (fastforce simp: os_accept_def pipes_kept_def split: list.splits peer.splits prod.splits)

lemma acceptSendFDS_frame:
  assumes "acceptSendFDS k sd pid pipes n = (k', pid', r)"
  shows "os_lookup k' fd = os_lookup k fd" "pipes_kept k k'"
proof -
  obtain k1 c peer where a: "os_accept k = (k1, c, peer)" by (metis prod_cases3)
  have "(\<forall>fd. os_lookup k' fd = os_lookup k fd) \<and> pipes_kept k k'"
  proof (cases "- 1 < c")
    case False
    then have "os_lookup k c = None" by (simp add: os_lookup_def)
    then have "\<forall>fd. os_lookup (fst (os_close k1 c)) fd = os_lookup k fd"
      using os_accept_fail [OF a False] by (simp add: os_close_lookup)
    then show ?thesis using assms a False os_accept_kept [OF a] by (auto simp: acceptSendFDS_def)
  next
    case True
    from os_accept_ok [OF a this] obtain t reply where p: "peer = Peer t reply" by blast
    obtain k2 sent where s: "sendFDS k1 t pipes n = (k2, sent)" by fastforce
    have "pipes_kept k1 k2"
      using s by (auto simp: sendFDS_def pipes_kept_def Let_def split: if_splits)
    then have "pipes_kept k k2" using os_accept_kept [OF a] pipes_kept_trans by blast
    moreover have "k' = fst (os_close k2 c)"
      using assms a True p s by (auto simp: acceptSendFDS_def Let_def split: if_splits)
    moreover have "\<forall>fd. os_lookup k2 fd = os_lookup k1 fd" using sendFDS_lookup [OF s] by simp
    ultimately show ?thesis using acceptSendFDS_closes [OF a True] by simp
  qed
  then show "os_lookup k' fd = os_lookup k fd" "pipes_kept k k'" by blast+
qed

text \<open>
  \<open>acceptSendFDS\<close> leaks no descriptor on any path, whether the client never comes, is gone when
  the message is sent, or answers with less than a process id: every descriptor of the server is
  afterwards what it was. It reports success (the size of a process id) exactly when the client
  took the descriptors and answered with at least four bytes, and then the process id is the one
  the client sent.
\<close>

theorem acceptSendFDS_outcome:
  assumes "acceptSendFDS k sd pid pipes n = (k', pid', r)"
  shows "(\<forall>fd. os_lookup k' fd = os_lookup k fd) \<and> r \<in> {4, - 1} \<and>
    (r = 4 \<longrightarrow> (\<exists>reply ps. os_peers k = Peer True reply # ps \<and> 4 \<le> length reply \<and>
       pid' = int_of_bytes (take 4 reply)))"
proof -
  obtain k1 c peer where a: "os_accept k = (k1, c, peer)" by (metis prod_cases3)
  have l: "\<forall>fd. os_lookup k' fd = os_lookup k fd" using acceptSendFDS_frame(1) [OF assms] by simp
  show ?thesis
  proof (cases "- 1 < c")
    case False
    then show ?thesis using assms a l by (auto simp: acceptSendFDS_def)
  next
    case True
    from os_accept_ok [OF a this] obtain t reply ps where
      p: "peer = Peer t reply" "os_peers k = Peer t reply # ps" by blast
    obtain k2 sent where s: "sendFDS k1 t pipes n = (k2, sent)" by fastforce
    have "\<not> sent < 0 \<longrightarrow> t" using s by (auto simp: sendFDS_def Let_def split: if_splits)
    moreover have "sent < 0 \<and> r = - 1 \<or> \<not> sent < 0 \<and> length (take 4 reply) \<noteq> 4 \<and> r = - 1 \<or>
        \<not> sent < 0 \<and> length (take 4 reply) = 4 \<and> r = 4 \<and>
          pid' = int_of_bytes (memcpy (int_bytes pid) 0 (take 4 reply) 0 4)"
      using assms a True p s by (auto simp: acceptSendFDS_def Let_def split: if_splits)
    moreover have "memcpy (int_bytes pid) 0 (take 4 reply) 0 4 = take 4 reply"
      if "length (take 4 reply) = 4" using that by (simp add: memcpy_def)
    ultimately show ?thesis
      using l p(2) by auto
  qed
qed

theorem acceptSendFDS_outcome_witness:
  "\<exists>k'. acceptSendFDS ((demo_os [])\<lparr>os_peers := [Peer True (int_bytes 77)]\<rparr>)
      \<lparr>sd_address = [], sd_sock_fd = 2\<rparr> (- 1) [demo_vp] 1 = (k', 77, 4) \<and>
    os_lookup k' 3 = Some (ReadEnd 0)"
proof -
  let ?k = "(demo_os [])\<lparr>os_peers := [Peer True (int_bytes 77)]\<rparr>"
  obtain k' pid' r where a: "acceptSendFDS ?k \<lparr>sd_address = [], sd_sock_fd = 2\<rparr> (- 1) [demo_vp] 1 =
    (k', pid', r)" by (metis prod_cases3)
  then have "r = 4" by (simp add: acceptSendFDS_def os_accept_def os_alloc_def demo_os_def Let_def
    sendFDS_def rights_def demo_vp_def os_lookup_def split: if_splits)
  moreover have "int_of_bytes (int_bytes 77) = 77" by (rule int_of_bytes_int_bytes) (simp add: c_int_def)
  ultimately show ?thesis using acceptSendFDS_outcome [OF a] a by auto
qed

end
