(* ===== verification/Tas_Lib.thy ===== *)
theory Tas_Lib imports Posix begin

text \<open>
  The real-time support library (\<open>tas_lib/\<close>): the choice of scheduling policy, binding to a
  processor, time stamps and their difference, and the walk over \<open>/proc/self/maps\<close> that touches
  every writable page so that no page fault happens later. The arithmetic of C's floating-point
  types is a parameter, the record \<open>fp\<close>, so that what is shown holds for any rounding.
\<close>

section \<open>Floating-point operations as a parameter\<close>

record 'd fp =
  f_of_int :: "int \<Rightarrow> 'd"
  f_lit :: "rat \<Rightarrow> 'd"
  f_add :: "'d \<Rightarrow> 'd \<Rightarrow> 'd"
  f_sub :: "'d \<Rightarrow> 'd \<Rightarrow> 'd"
  f_mul :: "'d \<Rightarrow> 'd \<Rightarrow> 'd"
  f_div :: "'d \<Rightarrow> 'd \<Rightarrow> 'd"
  f_sqrt :: "'d \<Rightarrow> 'd"
  f_sin :: "'d \<Rightarrow> 'd"
  f_cos :: "'d \<Rightarrow> 'd"
  f_atan2 :: "'d \<Rightarrow> 'd \<Rightarrow> 'd"
  f_fabs :: "'d \<Rightarrow> 'd"
  f_lt :: "'d \<Rightarrow> 'd \<Rightarrow> bool"
  f_le :: "'d \<Rightarrow> 'd \<Rightarrow> bool"
  f_pow :: "'d \<Rightarrow> 'd \<Rightarrow> 'd"
  f_trunc :: "'d \<Rightarrow> int"
  f_bits :: "'d \<Rightarrow> double"
  f_of_bits :: "double \<Rightarrow> 'd"

text \<open>
  An instance on rationals for concrete checks: exact field operations, truncation towards zero,
  square roots to three decimals, and for the other irrational functions an arbitrary computable choice.
\<close>

definition rat_trunc :: "rat \<Rightarrow> int" where
  "rat_trunc x = (if x < 0 then - \<lfloor>- x\<rfloor> else \<lfloor>x\<rfloor>)"

function isqrt :: "int \<Rightarrow> int" where
  "isqrt n = (if n \<le> 0 then 0 else let r = 2 * isqrt (n div 4) in if (r + 1) * (r + 1) \<le> n then r + 1 else r)"
  by pat_completeness auto
termination
  by (relation "measure nat") auto

declare isqrt.simps [simp del]

definition rat_sqrt :: "rat \<Rightarrow> rat" where
  "rat_sqrt x = of_int (isqrt \<lfloor>1000000 * x\<rfloor>) / 1000"

definition rat_fp :: "rat fp" where
  "rat_fp = \<lparr>f_of_int = rat_of_int, f_lit = id, f_add = (+), f_sub = (-), f_mul = (*), f_div = (/),
     f_sqrt = rat_sqrt, f_sin = id, f_cos = (\<lambda>x. 1), f_atan2 = (\<lambda>y x. y), f_fabs = abs, f_lt = (<), f_le = (\<le>),
     f_pow = (\<lambda>x y. x * x),
     f_trunc = rat_trunc, f_bits = (\<lambda>x. word_of_int (rat_trunc x)),
     f_of_bits = (\<lambda>w. rat_of_int (sint w))\<rparr>"

lemma isqrt_upper: "n < (isqrt n + 1) * (isqrt n + 1) \<and> 0 \<le> isqrt n"
proof (induction n rule: isqrt.induct)
  case (1 n)
  show ?case
  proof (cases "n \<le> 0")
    case False
    let ?r = "isqrt (n div 4)"
    have "n div 4 + 1 \<le> (?r + 1) * (?r + 1)" "0 \<le> ?r" using 1 False by auto
    then have "n < 4 * ((?r + 1) * (?r + 1))" "0 \<le> ?r" by linarith+
    then show ?thesis using False by (subst (1 2 3) isqrt.simps) (auto simp: Let_def algebra_simps)
  qed (simp add: isqrt.simps)
qed

lemma rat_sqrt_ge_1: "1 \<le> rat_sqrt x" if "1 \<le> x"
proof -
  have "1000000 \<le> \<lfloor>1000000 * x\<rfloor>" using that by (simp add: le_floor_iff)
  then have "1000 * 1000 < (isqrt \<lfloor>1000000 * x\<rfloor> + 1) * (isqrt \<lfloor>1000000 * x\<rfloor> + 1)" "0 \<le> isqrt \<lfloor>1000000 * x\<rfloor>"
    using isqrt_upper [of "\<lfloor>1000000 * x\<rfloor>"] by linarith+
  then have "1000 \<le> isqrt \<lfloor>1000000 * x\<rfloor>"
    using mult_mono [of "isqrt \<lfloor>1000000 * x\<rfloor> + 1" 1000 "isqrt \<lfloor>1000000 * x\<rfloor> + 1" 1000] by linarith
  then show ?thesis by (simp add: rat_sqrt_def)
qed

section \<open>Scheduling\<close>

definition sched_set_policy :: "os \<Rightarrow> pid \<Rightarrow> int \<Rightarrow> os \<times> int" where
  "sched_set_policy k pid priority =
     (if priority \<ge> 99 then (k, - 1)
      else if priority > 0 then
        (case os_sched_setscheduler k pid SCHED_RR priority of
           (k1, r) \<Rightarrow> if r = - 1 then (k1, - 1) else (k1, 0))
      else
        (case os_sched_setscheduler k pid SCHED_OTHER 0 of
           (k1, r) \<Rightarrow>
             (if r = - 1 then (k1, - 1)
              else (let nice = priority + (priority * - 2) - 20 in
                    case os_setpriority k1 pid nice of
                      (k2, r2) \<Rightarrow> if r2 < 0 then (k2, - 1) else (k2, 0)))))"

datatype cpu_error_e = CPU_ERROR_NONE | CPU_ERROR_OPEN | CPU_ERROR_READ | CPU_ERROR_BIND
  | CPU_ERROR_NOEXIST

text \<open>
  \<open>cpu_bind\<close> makes the one-processor mask the affinity of the process; \<open>setaffinity\<close> stands for the
  system call, which gets the mask as the set of its processors and may refuse it.
\<close>

definition cpu_bind :: "(pid \<Rightarrow> nat set \<Rightarrow> bool) \<Rightarrow> pid \<Rightarrow> nat \<Rightarrow> cpu_error_e" where
  "cpu_bind setaffinity pid cpu =
     (if \<not> setaffinity pid {cpu} then CPU_ERROR_BIND else CPU_ERROR_NONE)"

section \<open>Time\<close>

definition generate_timestamp :: "os \<Rightarrow> os \<times> timestamp" where
  "generate_timestamp k = os_time k"

text \<open>The branch of \<open>diff_time\<close> for x86-64.\<close>

definition diff_time :: "'d fp \<Rightarrow> timestamp \<Rightarrow> timestamp \<Rightarrow> 'd \<Rightarrow> 'd" where
  "diff_time F current last_time cpu_mhz =
     (if current > last_time then f_div F (f_of_int F (uint (current - last_time))) cpu_mhz
      else f_lit F 0)"

section \<open>Touching every page\<close>

definition hex_digit :: "char \<Rightarrow> nat option" where
  "hex_digit c =
     (let v = (of_char c :: nat) in
      if 48 \<le> v \<and> v \<le> 57 then Some (v - 48)
      else if 97 \<le> v \<and> v \<le> 102 then Some (v - 87)
      else if 65 \<le> v \<and> v \<le> 70 then Some (v - 55)
      else None)"

text \<open>\<open>strtoul\<close> in base 16 on text without white space or sign: the longest prefix of digits.\<close>

fun strtoul16 :: "nat \<Rightarrow> string \<Rightarrow> nat" where
  "strtoul16 acc [] = acc"
| "strtoul16 acc (c # cs) =
     (case hex_digit c of None \<Rightarrow> acc | Some d \<Rightarrow> strtoul16 (16 * acc + d) cs)"

text \<open>
  The copy up to a separator into an array of 17 characters: \<open>None\<close> when the line ends first or the
  array overflows.
\<close>

fun copy_until :: "char \<Rightarrow> nat \<Rightarrow> string \<Rightarrow> (string \<times> string) option" where
  "copy_until sep n [] = None"
| "copy_until sep n (c # cs) =
     (if c = sep then Some ([], cs)
      else (case n of
              0 \<Rightarrow> None
            | Suc m \<Rightarrow> map_option (\<lambda>(a, b). (c # a, b)) (copy_until sep m cs)))"

text \<open>
  The addresses read and written back: every \<open>0x800\<close> bytes from \<open>start\<close> while below \<open>end\<close>.
\<close>

function touch_pages :: "nat \<Rightarrow> nat \<Rightarrow> nat list" where
  "touch_pages current_address end_address =
     (if current_address < end_address
      then current_address # touch_pages (current_address + 2048) end_address else [])"
  by pat_completeness auto
termination
  by (relation "measure (\<lambda>(c, e). e - c)") auto

declare touch_pages.simps [simp del]

text \<open>
  \<open>parseLine\<close>: the result is the addresses it touches; \<open>None\<close> when the line does not have the
  expected shape and the scan leaves an array, or when the address would pass the end of the
  64-bit space.
\<close>

definition parseLine :: "string \<Rightarrow> nat list option" where
  "parseLine line =
     (case copy_until CHR ''-'' 16 line of
        None \<Rightarrow> None
      | Some (start_s, rest) \<Rightarrow>
          (case copy_until CHR '' '' 16 rest of
             None \<Rightarrow> None
           | Some (end_s, perms) \<Rightarrow>
               (if length perms < 4 then None
                else (let start = strtoul16 0 start_s; end_a = strtoul16 0 end_s;
                          readable = (perms ! 0 = CHR ''r''); writable = (perms ! 1 = CHR ''w'') in
                      if readable \<and> writable then
                        (if 2 ^ 64 < end_a + 2048 then None else Some (touch_pages start end_a))
                      else Some []))))"

text \<open>\<open>forceMaps\<close> over the lines of \<open>/proc/self/maps\<close>; \<open>None\<close> as the argument: it cannot be opened.\<close>

fun parse_lines :: "string list \<Rightarrow> nat list option" where
  "parse_lines [] = Some []"
| "parse_lines (l # ls) =
     (case parseLine l of
        None \<Rightarrow> None
      | Some a \<Rightarrow> map_option (\<lambda>b. a @ b) (parse_lines ls))"

definition forceMaps :: "string list option \<Rightarrow> (nat list \<times> int) option" where
  "forceMaps mapsfile =
     (case mapsfile of
        None \<Rightarrow> Some ([], - 1)
      | Some ls \<Rightarrow> map_option (\<lambda>a. (a, 0)) (parse_lines ls))"

definition lockItUp :: "bool \<Rightarrow> int" where
  "lockItUp mlockall_ok = (if \<not> mlockall_ok then - 1 else 0)"

text \<open>
  \<open>InitTAS\<close> reports failures of its parts and goes on; it always returns 0. The state is the
  kernel's; the addresses touched are part of the result.
\<close>

definition InitTAS :: "(pid \<Rightarrow> nat set \<Rightarrow> bool) \<Rightarrow> bool \<Rightarrow> string list option \<Rightarrow> pid \<Rightarrow>
    os \<Rightarrow> nat \<Rightarrow> int \<Rightarrow> (os \<times> nat list \<times> cpu_error_e \<times> int) option" where
  "InitTAS setaffinity mlockall_ok mapsfile pid k cpu priority =
     (let b = cpu_bind setaffinity pid cpu;
          (k1, _) = sched_set_policy k pid priority;
          _ = lockItUp mlockall_ok in
      case forceMaps mapsfile of
        None \<Rightarrow> None
      | Some (touched, _) \<Rightarrow> Some (k1, touched, b, 0))"

section \<open>Properties\<close>

lemma touch_pages_range: "t \<in> set (touch_pages s e) \<Longrightarrow> s \<le> t \<and> t < e"
proof (induction s e rule: touch_pages.induct)
  case (1 s e)
  then show ?case by (subst (asm) (2) touch_pages.simps) (force split: if_splits)
qed

lemma touch_pages_cover: "s \<le> a \<Longrightarrow> a < e \<Longrightarrow> \<exists>t \<in> set (touch_pages s e). t \<le> a \<and> a < t + 2048"
proof (induction s e rule: touch_pages.induct)
  case (1 s e)
  show ?case
  proof (cases "a < s + 2048")
    case True
    then show ?thesis using 1 by (subst touch_pages.simps) simp
  next
    case False
    then show ?thesis using 1 by (subst touch_pages.simps) simp
  qed
qed

text \<open>
  The text of \<open>/proc/self/maps\<close>: a mapping is printed with its two addresses in lower case hexadecimal,
  filled up to eight digits, its four letters of permissions and the rest of the line.
\<close>

record mapping =
  map_start :: nat
  map_end :: nat
  map_perms :: string
  map_rest :: string

definition hex_char :: "nat \<Rightarrow> char" where
  "hex_char n = ''0123456789abcdef'' ! n"

fun show_hex :: "nat \<Rightarrow> string" where
  "show_hex n = (if n < 16 then [hex_char n] else show_hex (n div 16) @ [hex_char (n mod 16)])"

declare show_hex.simps [simp del]

definition hex_field :: "nat \<Rightarrow> string" where
  "hex_field n = replicate (8 - length (show_hex n)) (CHR ''0'') @ show_hex n"

definition map_line :: "mapping \<Rightarrow> string" where
  "map_line m = hex_field (map_start m) @ CHR ''-'' # hex_field (map_end m) @ CHR '' '' # map_perms m @ map_rest m"

definition map_writable :: "mapping \<Rightarrow> bool" where
  "map_writable m \<longleftrightarrow> map_perms m ! 0 = CHR ''r'' \<and> map_perms m ! 1 = CHR ''w''"

definition map_ok :: "mapping \<Rightarrow> bool" where
  "map_ok m \<longleftrightarrow> 4096 dvd map_start m \<and> 4096 dvd map_end m \<and> map_start m < 2 ^ 64 \<and> map_end m < 2 ^ 64 \<and>
     length (map_perms m) = 4"

lemma hex_digit_hex_char: "n < 16 \<Longrightarrow> hex_digit (hex_char n) = Some n"
proof -
  assume "n < 16"
  then have "n \<in> {0, 1, 2, 3, 4, 5, 6, 7, 8, 9, 10, 11, 12, 13, 14, 15}" by (simp, presburger)
  then show ?thesis by (elim insertE) (simp_all add: hex_char_def hex_digit_def Let_def)
qed

lemma strtoul16_append:
  "\<forall>c \<in> set xs. hex_digit c \<noteq> None \<Longrightarrow> strtoul16 acc (xs @ ys) = strtoul16 (strtoul16 acc xs) ys"
  by (induction xs arbitrary: acc) auto

lemma show_hex_digits: "c \<in> set (show_hex n) \<Longrightarrow> hex_digit c \<noteq> None"
proof (induction n rule: show_hex.induct)
  case (1 n)
  show ?case
  proof (cases "n < 16")
    case True
    then show ?thesis using 1(2) hex_digit_hex_char by (subst (asm) show_hex.simps) auto
  next
    case False
    then have "c \<in> set (show_hex (n div 16)) \<or> c = hex_char (n mod 16)" using 1(2) by (subst (asm) show_hex.simps) auto
    then show ?thesis using 1(1) False hex_digit_hex_char [of "n mod 16"] by auto
  qed
qed

lemma strtoul16_show_hex: "strtoul16 0 (show_hex n) = n"
proof (induction n rule: show_hex.induct)
  case (1 n)
  show ?case
  proof (cases "n < 16")
    case True
    then show ?thesis by (subst show_hex.simps) (simp add: hex_digit_hex_char)
  next
    case False
    then show ?thesis
      using 1 show_hex_digits by (subst show_hex.simps) (simp add: strtoul16_append hex_digit_hex_char)
  qed
qed

lemma length_show_hex: "n < 16 ^ k \<Longrightarrow> 0 < k \<Longrightarrow> length (show_hex n) \<le> k"
proof (induction n arbitrary: k rule: show_hex.induct)
  case (1 n)
  show ?case
  proof (cases "n < 16")
    case True
    then show ?thesis using 1(3) by (subst show_hex.simps) simp
  next
    case False
    then obtain j where k: "k = Suc j" "0 < j" using 1(2,3) by (cases k; cases "k - 1") auto
    then have "n div 16 < 16 ^ j" using 1(2) by (simp add: div_less_iff_less_mult mult.commute)
    then show ?thesis using 1(1) [OF False _ k(2)] False k(1) by (subst show_hex.simps) simp
  qed
qed

lemma hex_field_facts:
  assumes "n < 2 ^ 64"
  shows "strtoul16 0 (hex_field n) = n" "length (hex_field n) \<le> 16" "c \<in> set (hex_field n) \<Longrightarrow> hex_digit c \<noteq> None"
proof -
  have z: "hex_digit (CHR ''0'') = Some 0" by (simp add: hex_digit_def)
  then have "strtoul16 0 (replicate j (CHR ''0'') @ xs) = strtoul16 0 xs" for j xs by (induction j) simp_all
  then show "strtoul16 0 (hex_field n) = n" by (simp add: hex_field_def strtoul16_show_hex)
  show "length (hex_field n) \<le> 16" using length_show_hex [of n 16] assms by (simp add: hex_field_def)
  show "hex_digit c \<noteq> None" if "c \<in> set (hex_field n)" using that z show_hex_digits by (auto simp: hex_field_def)
qed

lemma copy_until_field: "sep \<notin> set xs \<Longrightarrow> length xs \<le> n \<Longrightarrow> copy_until sep n (xs @ sep # ys) = Some (xs, ys)"
proof (induction xs arbitrary: n)
  case (Cons x xs)
  then show ?case by (cases n) auto
qed simp

lemma parseLine_map_line:
  assumes "map_ok m"
  shows "parseLine (map_line m) = Some (if map_writable m then touch_pages (map_start m) (map_end m) else [])"
proof -
  have sep: "hex_digit (CHR ''-'') = None" "hex_digit (CHR '' '') = None" by (simp_all add: hex_digit_def)
  note f = hex_field_facts [of "map_start m"] hex_field_facts [of "map_end m"]
  have "CHR ''-'' \<notin> set (hex_field (map_start m))" "CHR '' '' \<notin> set (hex_field (map_end m))"
    using f(3) [of "CHR ''-''"] f(6) [of "CHR '' ''"] sep assms unfolding map_ok_def by fastforce+
  then have "copy_until CHR ''-'' 16 (map_line m) =
      Some (hex_field (map_start m), hex_field (map_end m) @ CHR '' '' # map_perms m @ map_rest m)"
    "copy_until CHR '' '' 16 (hex_field (map_end m) @ CHR '' '' # map_perms m @ map_rest m) =
      Some (hex_field (map_end m), map_perms m @ map_rest m)"
    using f(2,5) assms unfolding map_line_def by (simp_all add: copy_until_field map_ok_def)
  moreover have "map_end m + 2048 \<le> 2 ^ 64"
  proof -
    obtain j where j: "map_end m = 4096 * j" using assms by (auto simp: map_ok_def)
    then have "j < 2 ^ 52" using assms by (simp add: map_ok_def)
    then show ?thesis using j by simp
  qed
  ultimately show ?thesis
    using f(1,4) assms by (simp add: parseLine_def map_ok_def map_writable_def nth_append Let_def)
qed

lemma parse_lines_map_lines:
  "list_all map_ok ms \<Longrightarrow>
    parse_lines (map map_line ms) = Some (concat (map (\<lambda>m. if map_writable m then touch_pages (map_start m) (map_end m) else []) ms))"
  by (induction ms) (simp_all add: parseLine_map_line)

text \<open>
  (C30) The walk over the memory map is complete and safe. For the memory map of any process, \<open>forceMaps\<close>
  succeeds; it touches an address in every page of every mapping that is readable and writable, private or
  shared, and no address outside such a mapping.
\<close>

theorem forceMaps_touches_writable_pages:
  assumes "list_all map_ok ms"
  shows "\<exists>ts. forceMaps (Some (map map_line ms)) = Some (ts, 0) \<and>
    (\<forall>m \<in> set ms. map_writable m \<longrightarrow>
      (\<forall>a. map_start m \<le> a \<and> a < map_end m \<longrightarrow> (\<exists>t \<in> set ts. t div 4096 = a div 4096 \<and> map_start m \<le> t \<and> t < map_end m))) \<and>
    (\<forall>t \<in> set ts. \<exists>m \<in> set ms. map_writable m \<and> map_start m \<le> t \<and> t < map_end m)"
proof (intro exI conjI ballI allI impI)
  let ?touch = "\<lambda>m. if map_writable m then touch_pages (map_start m) (map_end m) else []"
  let ?ts = "concat (map ?touch ms)"
  show "forceMaps (Some (map map_line ms)) = Some (?ts, 0)" using parse_lines_map_lines [OF assms] by (simp add: forceMaps_def)
  show "\<exists>m \<in> set ms. map_writable m \<and> map_start m \<le> t \<and> t < map_end m" if "t \<in> set ?ts" for t
    using that touch_pages_range by (auto split: if_splits)
  fix m a assume m: "m \<in> set ms" "map_writable m" and a: "map_start m \<le> a \<and> a < map_end m"
  let ?b = "a div 4096 * 4096 + 2047"
  obtain i j where ij: "map_start m = 4096 * i" "map_end m = 4096 * j" using m(1) assms unfolding list_all_iff map_ok_def dvd_def by blast
  then have d: "i \<le> a div 4096" "a div 4096 < j" using a by (simp_all add: less_eq_div_iff_mult_less_eq div_less_iff_less_mult mult.commute)
  then have "map_start m \<le> ?b" "?b < map_end m" using ij by linarith+
  from touch_pages_cover [OF this] obtain t where t: "t \<in> set (?touch m)" "t \<le> ?b" "?b < t + 2048" using m(2) by auto
  then have "t div 4096 = a div 4096" by (intro div_nat_eqI) simp_all
  then show "\<exists>t \<in> set ?ts. t div 4096 = a div 4096 \<and> map_start m \<le> t \<and> t < map_end m"
    using t(1) m touch_pages_range by (intro bexI [of _ t]) auto
qed

theorem forceMaps_touches_writable_pages_witness:
  "\<exists>ts. forceMaps (Some [''00001000-00003000 rw-s'', ''00003000-00004000 r--p'']) = Some (ts, 0) \<and>
    (\<exists>t \<in> set ts. t div 4096 = 1) \<and> (\<exists>t \<in> set ts. t div 4096 = 2) \<and> (\<forall>t \<in> set ts. 4096 \<le> t \<and> t < 12288)"
proof -
  let ?a = "\<lparr>map_start = 4096, map_end = 12288, map_perms = ''rw-s'', map_rest = []\<rparr>"
  let ?b = "\<lparr>map_start = 12288, map_end = 16384, map_perms = ''r--p'', map_rest = []\<rparr>"
  have "list_all map_ok [?a, ?b]" by (simp add: map_ok_def)
  from forceMaps_touches_writable_pages [OF this]
  obtain ts where ts: "forceMaps (Some (map map_line [?a, ?b])) = Some (ts, 0)"
    "\<forall>a. 4096 \<le> a \<and> a < 12288 \<longrightarrow> (\<exists>t \<in> set ts. t div 4096 = a div 4096)" "\<forall>t \<in> set ts. 4096 \<le> t \<and> t < 12288"
    by (auto simp: map_writable_def)
  have zeros: "replicate 4 c = [c, c, c, c]" for c :: char by (simp add: eval_nat_numeral)
  have "map map_line [?a, ?b] = [''00001000-00003000 rw-s'', ''00003000-00004000 r--p'']"
    by (simp add: map_line_def hex_field_def show_hex.simps hex_char_def zeros)
  then show ?thesis using ts(1,3) ts(2) [rule_format, of 4096] ts(2) [rule_format, of 8192] by auto
qed

end
