(* ===== verification/Replicas.thy ===== *)
theory Replicas imports Fd_Passing Tas_Lib begin

text \<open>
  Replica management (\<open>include/replicas.h\<close>, \<open>src/replicas.c\<close>): creation of the pipes between the
  voter and its replicas, starting and killing replicas, replacing a failed one, and the scheduling
  priorities that keep the replicas close to each other.
\<close>

section \<open>Data\<close>

record replica =
  r_pid :: pid
  r_priority :: int
  r_name :: "string option"
  r_pipe_count :: nat
  r_vot_pipes :: "vote_pipe list"
  r_in_copy :: "fd list"
  r_rep_pipes :: "vote_pipe list"

text \<open>
  An array of replicas is a list; a pointer into it is the list with an offset. The loops below
  thread the kernel and the array.
\<close>

section \<open>Life cycle\<close>

definition reset_pipe_pair :: "nat \<Rightarrow> os \<times> replica \<Rightarrow> os \<times> replica" where
  "reset_pipe_pair j = (\<lambda>(k, rep).
     if r_pipe_count rep \<noteq> 0 then
       (let (k1, v) = resetVotePipe k (r_vot_pipes rep ! j);
            (k2, r) = resetVotePipe k1 (r_rep_pipes rep ! j) in
        (k2, rep\<lparr>r_vot_pipes := (r_vot_pipes rep)[j := v], r_rep_pipes := (r_rep_pipes rep)[j := r]\<rparr>))
     else (k, rep))"

definition initReplica :: "os \<Rightarrow> replica \<Rightarrow> string \<Rightarrow> int \<Rightarrow> os \<times> replica" where
  "initReplica k new_rep name priority =
     (let rep1 = new_rep\<lparr>r_name := Some name, r_pid := - 1, r_priority := priority\<rparr>;
          (k1, rep2) = for_upto (r_pipe_count rep1) reset_pipe_pair (k, rep1) in
      (k1, rep2\<lparr>r_pipe_count := 0\<rparr>))"

definition initReplicas ::
    "os \<Rightarrow> replica list \<Rightarrow> nat \<Rightarrow> nat \<Rightarrow> string \<Rightarrow> int \<Rightarrow> os \<times> replica list" where
  "initReplicas k reps base rep_num name priority =
     for_upto rep_num (\<lambda>index (k, reps).
       let (k1, rep) = initReplica k (reps ! (base + index)) name priority in
       (k1, reps[base + index := rep])) (k, reps)"

definition close_positive :: "fd \<Rightarrow> os \<Rightarrow> os" where
  "close_positive fd k = (if fd > 0 then fst (os_close k fd) else k)"

definition close_ends :: "replica \<Rightarrow> nat \<Rightarrow> os \<Rightarrow> os" where
  "close_ends rep i k =
     close_positive (fd_out (r_rep_pipes rep ! i))
       (close_positive (fd_in (r_rep_pipes rep ! i))
         (close_positive (fd_out (r_vot_pipes rep ! i))
           (close_positive (fd_in (r_vot_pipes rep ! i)) k)))"

definition cleanupReplica :: "os \<Rightarrow> replica list \<Rightarrow> nat \<Rightarrow> os" where
  "cleanupReplica k reps rep_index =
     (let k1 = fst (os_kill k (r_pid (reps ! rep_index)) SIGKILL) in
      for_upto (r_pipe_count (reps ! rep_index)) (close_ends (reps ! rep_index)) k1)"

text \<open>The assignments of \<open>createPipes\<close> for one pipe, given the two ends that \<open>pipe\<close> returned.\<close>

definition wire_pipe :: "replica \<Rightarrow> nat \<Rightarrow> vote_pipe \<Rightarrow> fd \<Rightarrow> fd \<Rightarrow> replica" where
  "wire_pipe rep p ext_pipe rd wr =
     (let v = (r_vot_pipes rep ! p)\<lparr>rep_info := rep_info ext_pipe\<rparr>;
          r = (r_rep_pipes rep ! p)\<lparr>rep_info := rep_info ext_pipe\<rparr> in
      if fd_in ext_pipe \<noteq> 0 then
        rep\<lparr>r_vot_pipes := (r_vot_pipes rep)[p := v\<lparr>fd_in := 0, fd_out := wr\<rparr>],
            r_rep_pipes := (r_rep_pipes rep)[p := r\<lparr>fd_in := rd, fd_out := 0\<rparr>],
            r_in_copy := (r_in_copy rep)[p := rd], r_pipe_count := p + 1\<rparr>
      else
        rep\<lparr>r_vot_pipes := (r_vot_pipes rep)[p := v\<lparr>fd_in := rd, fd_out := 0\<rparr>],
            r_rep_pipes := (r_rep_pipes rep)[p := r\<lparr>fd_in := 0, fd_out := wr\<rparr>],
            r_in_copy := (r_in_copy rep)[p := 0], r_pipe_count := p + 1\<rparr>)"

definition createPipe :: "vote_pipe list \<Rightarrow> nat \<Rightarrow> os \<times> replica \<Rightarrow> os \<times> replica" where
  "createPipe ext_pipes p = (\<lambda>(k, rep).
     case os_pipe k of
       (k1, None) \<Rightarrow> (k1, rep)
     | (k1, Some (rd, wr)) \<Rightarrow> (k1, wire_pipe rep p (ext_pipes ! p) rd wr))"

definition createPipes ::
    "os \<Rightarrow> replica list \<Rightarrow> nat \<Rightarrow> nat \<Rightarrow> vote_pipe list \<Rightarrow> nat \<Rightarrow> os \<times> replica list" where
  "createPipes k reps base num ext_pipes pipe_count =
     for_upto num (\<lambda>index (k, reps).
       let (k1, rep) = for_upto pipe_count (createPipe ext_pipes) (k, reps ! (base + index)) in
       (k1, reps[base + index := rep])) (k, reps)"

text \<open>
  \<open>forkSingle\<close> seen from the parent; the child's \<open>execv\<close> gets \<open>argv\<close>. The argument vector of a
  replica is its name, its priority, its number of pipes and the additional arguments.
\<close>

definition forkSingle :: "os \<Rightarrow> string list \<Rightarrow> os \<times> pid" where
  "forkSingle k argv = os_fork_exec k argv"

definition forkReplicas :: "os \<Rightarrow> replica list \<Rightarrow> nat \<Rightarrow> string list \<Rightarrow> os \<times> replica list" where
  "forkReplicas k reps num additional_argv =
     for_upto num (\<lambda>index (k, reps).
       let curr = reps ! index;
           rep_argv = [case r_name curr of None \<Rightarrow> [] | Some n \<Rightarrow> n, show_int (r_priority curr),
                       show_int (int (r_pipe_count curr))] @ additional_argv;
           (k1, p) = forkSingle k rep_argv in
       (k1, reps[index := curr\<lparr>r_pid := p\<rparr>])) (k, reps)"

text \<open>\<open>startReplicas\<close> exits the process when a replica does not answer: \<open>None\<close>.\<close>

fun acceptReplicas :: "os \<Rightarrow> replica list \<Rightarrow> server_data \<Rightarrow> nat list \<Rightarrow> (os \<times> replica list) option" where
  "acceptReplicas k reps sd [] = Some (k, reps)"
| "acceptReplicas k reps sd (i # is) =
     (case acceptSendFDS k sd (r_pid (reps ! i)) (r_rep_pipes (reps ! i)) (r_pipe_count (reps ! i)) of
        (k1, pid, r) \<Rightarrow>
          (if r < 0 then None else acceptReplicas k1 (reps[i := (reps ! i)\<lparr>r_pid := pid\<rparr>]) sd is))"

definition startReplicas :: "os \<Rightarrow> replica list \<Rightarrow> nat \<Rightarrow> server_data \<Rightarrow> string \<Rightarrow>
    vote_pipe list \<Rightarrow> nat \<Rightarrow> int \<Rightarrow> (os \<times> replica list) option" where
  "startReplicas k reps num sd name ext_pipes pipe_count default_priority =
     (let (k1, reps1) = initReplicas k reps 0 num name default_priority;
          (k2, reps2) = createPipes k1 reps1 0 num ext_pipes pipe_count;
          (k3, reps3) = forkReplicas k2 reps2 num [] in
      acceptReplicas k3 reps3 sd [0..<num])"

section \<open>Progress of the replicas\<close>

text \<open>\<open>reps[r].vot_pipes[p]\<close>, and the assignment to it.\<close>

abbreviation vot :: "replica list \<Rightarrow> nat \<Rightarrow> nat \<Rightarrow> vote_pipe" where
  "vot reps r p \<equiv> r_vot_pipes (reps ! r) ! p"

definition set_vot :: "replica list \<Rightarrow> nat \<Rightarrow> nat \<Rightarrow> vote_pipe \<Rightarrow> replica list" where
  "set_vot reps r p x = reps[r := (reps ! r)\<lparr>r_vot_pipes := (r_vot_pipes (reps ! r))[p := x]\<rparr>]"

lemma set_vot_simps [simp]:
  "length (set_vot reps r p x) = length reps"
  "i \<noteq> r \<Longrightarrow> set_vot reps r p x ! i = reps ! i"
  "r < length reps \<Longrightarrow> set_vot reps r p x ! r = (reps ! r)\<lparr>r_vot_pipes := (r_vot_pipes (reps ! r))[p := x]\<rparr>"
  by (simp_all add: set_vot_def)

definition bytesReady :: "replica list \<Rightarrow> nat \<Rightarrow> nat \<Rightarrow> int" where
  "bytesReady reps num pipe_num =
     for_upto num (\<lambda>r m. if buff_count (vot reps r pipe_num) < m then buff_count (vot reps r pipe_num)
                         else m) MAX_VOTE_PIPE_BUFF"

definition aheadRep :: "replica list \<Rightarrow> nat \<Rightarrow> nat \<Rightarrow> nat" where
  "aheadRep reps num pipe_num =
     for_upto num (\<lambda>r mostAhead.
       if buff_count (vot reps r pipe_num) > buff_count (vot reps mostAhead pipe_num) then r
       else mostAhead) 0"

definition behindRep :: "replica list \<Rightarrow> nat \<Rightarrow> nat \<Rightarrow> nat" where
  "behindRep reps num pipe_num =
     fold (\<lambda>r mostBehind.
       if buff_count (vot reps r pipe_num) < buff_count (vot reps mostBehind pipe_num) then r
       else if buff_count (vot reps r pipe_num) = buff_count (vot reps mostBehind pipe_num) \<and>
               r_priority (reps ! r) > r_priority (reps ! mostBehind) then r
       else mostBehind) [1..<num] 0"

definition rep_gap :: "replica list \<Rightarrow> nat \<Rightarrow> nat \<Rightarrow> int" where
  "rep_gap reps num rep_num =
     for_upto (r_pipe_count (reps ! 0)) (\<lambda>p gap.
       if fd_in (vot reps 0 p) \<noteq> 0
       then gap + (buff_count (vot reps (aheadRep reps num p) p) - buff_count (vot reps rep_num p))
       else gap) 0"

definition laggards :: "replica list \<Rightarrow> nat \<Rightarrow> nat \<times> nat" where
  "laggards reps num =
     for_upto num (\<lambda>index (starting, second).
       if rep_gap reps num index > rep_gap reps num starting then (index, second)
       else if rep_gap reps num index > rep_gap reps num second then
         (if index \<noteq> starting then (starting, index) else (starting, second))
       else (starting, second)) (0, 1)"

text \<open>One call of \<open>sched_set_policy\<close> for a replica, whose record follows only on success.\<close>

definition set_rep_priority :: "nat \<Rightarrow> int \<Rightarrow> os \<times> replica list \<Rightarrow> os \<times> replica list" where
  "set_rep_priority i priority = (\<lambda>(k, reps).
     case sched_set_policy k (r_pid (reps ! i)) priority of
       (k1, r) \<Rightarrow> (if r < 0 then (k1, reps) else (k1, reps[i := (reps ! i)\<lparr>r_priority := priority\<rparr>])))"

definition balanceReps :: "os \<Rightarrow> replica list \<Rightarrow> nat \<Rightarrow> int \<Rightarrow> os \<times> replica list" where
  "balanceReps k reps num default_priority =
     (let (starting, second) = laggards reps num in
      for_upto num (\<lambda>index.
        set_rep_priority index
          (if index = starting then default_priority + 2
           else if index = second then default_priority + 1
           else default_priority)) (k, reps))"

definition restartReplica :: "os \<Rightarrow> replica list \<Rightarrow> nat \<Rightarrow> server_data \<Rightarrow> vote_pipe list \<Rightarrow>
    nat \<Rightarrow> nat \<Rightarrow> int \<Rightarrow> os \<times> replica list" where
  "restartReplica k reps num sd ext_pipes restarter restartee default_priority =
     (let k1 = cleanupReplica k reps restartee;
          (k2, reps2) = for_upto num (\<lambda>i s.
             if i \<noteq> restartee then
               set_rep_priority i (if i = restarter then default_priority + 2 else default_priority) s
             else s) (k1, reps);
          k3 = fst (os_kill k2 (r_pid (reps2 ! restarter)) RESTART_SIGNAL);
          (k4, reps4) = initReplicas k3 reps2 restartee 1
             (case r_name (reps2 ! restarter) of None \<Rightarrow> [] | Some n \<Rightarrow> n) default_priority;
          (k5, reps5) = createPipes k4 reps4 restartee 1 ext_pipes (r_pipe_count (reps4 ! restarter));
          (k6, pid, _) = acceptSendFDS k5 sd (r_pid (reps5 ! restartee)) (r_rep_pipes (reps5 ! restartee))
             (r_pipe_count (reps5 ! restartee));
          reps6 = reps5[restartee := (reps5 ! restartee)\<lparr>r_pid := pid\<rparr>] in
      balanceReps k6 reps6 num default_priority)"

section \<open>What the progress functions compute\<close>

lemma bytesReady_le:
  "bytesReady reps n p \<le> 4096 \<and> (\<forall>r < n. bytesReady reps n p \<le> buff_count (vot reps r p))"
  unfolding bytesReady_def by (induction n) (auto simp: for_upto_Suc less_Suc_eq)

lemma bytesReady_attained:
  "bytesReady reps n p = 4096 \<or> (\<exists>r < n. bytesReady reps n p = buff_count (vot reps r p))"
  unfolding bytesReady_def by (induction n) (auto simp: for_upto_Suc less_Suc_eq)

lemma bytesReady_ge:
  "\<forall>r < n. m \<le> buff_count (vot reps r p) \<Longrightarrow> m \<le> 4096 \<Longrightarrow> m \<le> bytesReady reps n p"
  using bytesReady_attained [of reps n p] by auto

lemma aheadRep_max:
  assumes "0 < n"
  shows "aheadRep reps n p < n \<and> (\<forall>r < n. buff_count (vot reps r p) \<le> buff_count (vot reps (aheadRep reps n p) p))"
proof -
  have "(n = 0 \<longrightarrow> aheadRep reps n p = 0) \<and> (0 < n \<longrightarrow> aheadRep reps n p < n) \<and>
      (\<forall>r < n. buff_count (vot reps r p) \<le> buff_count (vot reps (aheadRep reps n p) p))"
    unfolding aheadRep_def
  proof (induction n)
    case (Suc n)
    then show ?case by (cases n) (force simp: for_upto_Suc less_Suc_eq)+
  qed simp
  then show ?thesis using assms by blast
qed

lemma behindRep_min:
  assumes "0 < n"
  shows "behindRep reps n p < n \<and>
    (\<forall>r < n. buff_count (vot reps (behindRep reps n p) p) \<le> buff_count (vot reps r p) \<and>
      (buff_count (vot reps (behindRep reps n p) p) = buff_count (vot reps r p) \<longrightarrow>
        r_priority (reps ! r) \<le> r_priority (reps ! behindRep reps n p)))"
  using assms
proof (induction n)
  case (Suc n)
  show ?case
  proof (cases n)
    case 0
    then show ?thesis by (simp add: behindRep_def)
  next
    case (Suc m)
    then have "behindRep reps (Suc n) p =
        (let b = behindRep reps n p in
         if buff_count (vot reps n p) < buff_count (vot reps b p) then n
         else if buff_count (vot reps n p) = buff_count (vot reps b p) \<and>
                 r_priority (reps ! n) > r_priority (reps ! b) then n
         else b)"
      by (simp add: behindRep_def Let_def)
    then show ?thesis
      using Suc.IH Suc by (fastforce simp: Let_def less_Suc_eq)
  qed
qed simp

lemma rep_gap_nonneg:
  assumes "r < n"
  shows "0 \<le> rep_gap reps n r"
proof -
  have "buff_count (vot reps r p) \<le> buff_count (vot reps (aheadRep reps n p) p)" for p
    using aheadRep_max [of n reps p] assms by auto
  then show ?thesis
    unfolding rep_gap_def by (intro for_upto_invariant [where I = "\<lambda>g. 0 \<le> g"]) (simp_all add: add_nonneg_nonneg)
qed

lemma laggards_starting:
  assumes "0 < n" "laggards reps n = (starting, second)"
  shows "starting < n \<and> (\<forall>r < n. rep_gap reps n r \<le> rep_gap reps n starting)"
proof -
  let ?g = "rep_gap reps n"
  define body where "body = (\<lambda>index (starting, second).
       if ?g index > ?g starting then (index, second)
       else if ?g index > ?g second then
         (if index \<noteq> starting then (starting, index) else (starting, second))
       else (starting, second :: nat))"
  have "fst (for_upto m body (0, 1)) < max 1 m \<and> (\<forall>r < m. ?g r \<le> ?g (fst (for_upto m body (0, 1))))" for m
  proof (induction m)
    case (Suc m)
    obtain a b where "for_upto m body (0, 1) = (a, b)" by fastforce
    then show ?case using Suc by (auto simp: for_upto_Suc body_def less_Suc_eq max_def split: if_splits)
  qed simp
  from this [of n] show ?thesis
    using assms by (simp add: laggards_def body_def max_def split: if_splits)
qed

section \<open>Priorities change nothing else\<close>

definition prio_only :: "replica list \<Rightarrow> replica list \<Rightarrow> bool" where
  "prio_only reps reps' \<longleftrightarrow> length reps' = length reps \<and>
     (\<forall>i < length reps. reps' ! i = (reps ! i)\<lparr>r_priority := r_priority (reps' ! i)\<rparr>)"

lemma prio_only_refl [simp]: "prio_only reps reps"
  by (simp add: prio_only_def)

lemma prio_only_trans: "prio_only a b \<Longrightarrow> prio_only b c \<Longrightarrow> prio_only a c"
  unfolding prio_only_def by (metis (no_types, lifting) replica.surjective replica.update_convs(2))

lemma prio_only_update: "prio_only reps (reps[i := (reps ! i)\<lparr>r_priority := x\<rparr>])"
  by (cases "i < length reps") (auto simp: prio_only_def nth_list_update)

lemma prio_onlyD:
  assumes "prio_only reps reps'" "i < length reps"
  shows "r_vot_pipes (reps' ! i) = r_vot_pipes (reps ! i)" "r_rep_pipes (reps' ! i) = r_rep_pipes (reps ! i)"
    "r_in_copy (reps' ! i) = r_in_copy (reps ! i)" "r_pipe_count (reps' ! i) = r_pipe_count (reps ! i)"
    "r_pid (reps' ! i) = r_pid (reps ! i)" "r_name (reps' ! i) = r_name (reps ! i)"
proof -
  have e: "reps' ! i = (reps ! i)\<lparr>r_priority := r_priority (reps' ! i)\<rparr>"
    using assms by (simp add: prio_only_def)
  show "r_vot_pipes (reps' ! i) = r_vot_pipes (reps ! i)" "r_rep_pipes (reps' ! i) = r_rep_pipes (reps ! i)"
    "r_in_copy (reps' ! i) = r_in_copy (reps ! i)" "r_pipe_count (reps' ! i) = r_pipe_count (reps ! i)"
    "r_pid (reps' ! i) = r_pid (reps ! i)" "r_name (reps' ! i) = r_name (reps ! i)"
    by (subst e, simp)+
qed

lemma sched_set_policy_frame: "\<exists>s. fst (sched_set_policy k p x) = k\<lparr>os_sched := s\<rparr>"
proof -
  have "\<exists>s. k = k\<lparr>os_sched := s\<rparr>" by (rule exI [of _ "os_sched k"]) simp
  then show ?thesis
    by (auto simp: sched_set_policy_def os_sched_setscheduler_def os_setpriority_def Let_def)
qed

definition prio_step :: "os \<times> replica list \<Rightarrow> os \<times> replica list \<Rightarrow> bool" where
  "prio_step s t \<longleftrightarrow> (\<exists>x. fst t = (fst s)\<lparr>os_sched := x\<rparr>) \<and> prio_only (snd s) (snd t)"

lemma prio_step_refl [simp]: "prio_step s s"
  by (auto simp: prio_step_def intro: exI [of _ "os_sched (fst s)"])

lemma prio_step_trans: "prio_step a b \<Longrightarrow> prio_step b c \<Longrightarrow> prio_step a c"
  by (auto simp: prio_step_def intro: prio_only_trans)

lemma set_rep_priority_step: "prio_step s (set_rep_priority i x s)"
proof -
  obtain k reps where s: "s = (k, reps)" by (cases s)
  obtain k1 r where p: "sched_set_policy k (r_pid (reps ! i)) x = (k1, r)" by fastforce
  then obtain y where "k1 = k\<lparr>os_sched := y\<rparr>" using sched_set_policy_frame by (metis fst_conv)
  then show ?thesis
    using p prio_only_update by (auto simp: s set_rep_priority_def prio_step_def)
qed

lemma balanceReps_step: "prio_step (k, reps) (balanceReps k reps n d)"
  unfolding balanceReps_def
  by (auto split: prod.splits intro!: for_upto_invariant [where I = "prio_step (k, reps)"]
      intro: prio_step_trans set_rep_priority_step)

section \<open>Descriptors of a replica\<close>

definition pipe_ends :: "replica \<Rightarrow> nat \<Rightarrow> fd set" where
  "pipe_ends rep p = {fd_in (r_vot_pipes rep ! p), fd_out (r_vot_pipes rep ! p),
     fd_in (r_rep_pipes rep ! p), fd_out (r_rep_pipes rep ! p)} - {0}"

definition rep_fds :: "replica \<Rightarrow> fd set" where
  "rep_fds rep = (\<Union>p < r_pipe_count rep. pipe_ends rep p)"

lemma rep_fds_cong:
  "r_vot_pipes a = r_vot_pipes b \<Longrightarrow> r_rep_pipes a = r_rep_pipes b \<Longrightarrow> r_pipe_count a = r_pipe_count b \<Longrightarrow>
    rep_fds a = rep_fds b"
  by (simp add: rep_fds_def pipe_ends_def)

lemma close_ends_lookup:
  assumes "\<forall>f \<in> pipe_ends rep i. 0 < f"
  shows "os_lookup (close_ends rep i k) g = (if g \<in> pipe_ends rep i then None else os_lookup k g)"
proof -
  have "os_lookup (close_positive fd k) g = (if g = fd \<and> fd \<noteq> 0 then None else os_lookup k g)"
    if "fd \<in> insert 0 (pipe_ends rep i)" for fd k
    using that assms by (auto simp: close_positive_def os_close_lookup)
  then show ?thesis
    unfolding close_ends_def by (simp add: pipe_ends_def) (auto simp: pipe_ends_def)
qed

lemma close_ends_kept [simp]: "pipes_kept k (close_ends rep i k') = pipes_kept k k'"
  by (simp add: close_ends_def close_positive_def)

lemma cleanupReplica_spec:
  assumes "\<forall>f \<in> rep_fds (reps ! i). 0 < f"
  shows "os_lookup (cleanupReplica k reps i) g = (if g \<in> rep_fds (reps ! i) then None else os_lookup k g)"
    and "pipes_kept k (cleanupReplica k reps i)"
proof -
  let ?rep = "reps ! i"
  let ?k = "fst (os_kill k (r_pid ?rep) SIGKILL)"
  have "(\<forall>g. os_lookup (for_upto n (close_ends ?rep) ?k) g =
      (if g \<in> (\<Union>p < n. pipe_ends ?rep p) then None else os_lookup k g)) \<and>
      pipes_kept k (for_upto n (close_ends ?rep) ?k)" if "n \<le> r_pipe_count ?rep" for n
    using that
  proof (induction n)
    case (Suc n)
    then have "\<forall>f \<in> pipe_ends ?rep n. 0 < f"
      using assms by (auto simp: rep_fds_def)
    note close_ends_lookup [OF this]
    then show ?case
      using Suc by (auto simp: for_upto_Suc lessThan_Suc)
  qed simp
  from this [of "r_pipe_count ?rep"] show
    "os_lookup (cleanupReplica k reps i) g = (if g \<in> rep_fds (reps ! i) then None else os_lookup k g)"
    "pipes_kept k (cleanupReplica k reps i)"
    by (simp_all add: cleanupReplica_def rep_fds_def Let_def)
qed

lemma resetVotePipe_spec:
  assumes "resetVotePipe k p = (k', p')"
  shows "os_lookup k' g = (if g \<in> {fd_in p, fd_out p} - {0} then None else os_lookup k g)"
    "pipes_kept k k'" "p' = p\<lparr>fd_in := 0, fd_out := 0, buff_count := 0, buff_index := 0\<rparr>"
  using assms by (auto simp: resetVotePipe_def Let_def os_close_lookup split: if_splits prod.splits)

text \<open>The shape of a replica record: arrays of \<open>PIPE_LIMIT\<close> entries, well-formed rings.\<close>

definition rep_shape :: "replica \<Rightarrow> bool" where
  [wf_simps]: "rep_shape rep \<longleftrightarrow> length (r_vot_pipes rep) = PIPE_LIMIT \<and>
     length (r_rep_pipes rep) = PIPE_LIMIT \<and> length (r_in_copy rep) = PIPE_LIMIT \<and>
     r_pipe_count rep \<le> PIPE_LIMIT \<and> (\<forall>p < PIPE_LIMIT. wf_vp (r_vot_pipes rep ! p))"

text \<open>\<open>empty_rings\<close>: nothing is buffered and every ring of a pipe below \<open>n\<close> starts at its beginning.\<close>

definition empty_rings :: "nat \<Rightarrow> replica \<Rightarrow> bool" where
  "empty_rings n rep \<longleftrightarrow>
     (\<forall>p < n. buff_count (r_vot_pipes rep ! p) = 0 \<and> buff_index (r_vot_pipes rep ! p) = 0)"

definition reset_pair_inv :: "os \<Rightarrow> replica \<Rightarrow> nat \<Rightarrow> os \<times> replica \<Rightarrow> bool" where
  "reset_pair_inv k rep j s \<longleftrightarrow> (case s of (k', rep') \<Rightarrow>
     pipes_kept k k' \<and> (\<forall>g. os_lookup k' g = (if g \<in> (\<Union>p < j. pipe_ends rep p) then None else os_lookup k g)) \<and>
     r_pipe_count rep' = r_pipe_count rep \<and> rep_shape rep' \<and> empty_rings j rep' \<and>
     (\<forall>p. j \<le> p \<longrightarrow> r_vot_pipes rep' ! p = r_vot_pipes rep ! p \<and> r_rep_pipes rep' ! p = r_rep_pipes rep ! p) \<and>
     r_pid rep' = r_pid rep \<and> r_priority rep' = r_priority rep \<and> r_name rep' = r_name rep)"

lemma reset_pair_step:
  assumes "reset_pair_inv k rep j s" "j < r_pipe_count rep" "r_pipe_count rep \<le> PIPE_LIMIT"
  shows "reset_pair_inv k rep (Suc j) (reset_pipe_pair j s)"
proof -
  obtain k' rep' where s: "s = (k', rep')" by (cases s)
  obtain k1 v where v: "resetVotePipe k' (r_vot_pipes rep' ! j) = (k1, v)" by fastforce
  obtain k2 r where r: "resetVotePipe k1 (r_rep_pipes rep' ! j) = (k2, r)" by fastforce
  note V = resetVotePipe_spec [OF v] and R = resetVotePipe_spec [OF r]
  have I: "pipes_kept k k'" "\<And>g. os_lookup k' g = (if g \<in> (\<Union>p < j. pipe_ends rep p) then None else os_lookup k g)"
    "r_pipe_count rep' = r_pipe_count rep" "rep_shape rep'" "empty_rings j rep'"
    "\<And>p. j \<le> p \<Longrightarrow> r_vot_pipes rep' ! p = r_vot_pipes rep ! p \<and> r_rep_pipes rep' ! p = r_rep_pipes rep ! p"
    "r_pid rep' = r_pid rep" "r_priority rep' = r_priority rep" "r_name rep' = r_name rep"
    using assms(1) by (auto simp: reset_pair_inv_def s)
  have "pipes_kept k k2"
    using I(1) V(2) R(2) pipes_kept_trans by blast
  moreover have "os_lookup k2 g = (if g \<in> (\<Union>p < Suc j. pipe_ends rep p) then None else os_lookup k g)" for g
    using V(1) R(1) I(2,6) by (auto simp: lessThan_Suc pipe_ends_def)
  moreover have "wf_vp v"
    using V(3) I(4) assms(2,3) by (simp add: wf_simps)
  moreover have "j < PIPE_LIMIT" using assms(2,3) by simp
  ultimately show ?thesis
    using I(3-9) assms(2) V(3) v r
    by (simp add: s reset_pair_inv_def reset_pipe_pair_def Let_def wf_simps empty_rings_def
        nth_list_update less_Suc_eq)
qed

lemma initReplica_spec:
  assumes "rep_shape rep" "initReplica k rep name prio = (k', rep')"
  shows "pipes_kept k k'" "os_lookup k' g = (if g \<in> rep_fds rep then None else os_lookup k g)"
    "rep_shape rep'" "empty_rings (r_pipe_count rep) rep'" "r_pipe_count rep' = 0" "r_pid rep' = - 1"
    "r_name rep' = Some name"
proof -
  let ?rep = "rep\<lparr>r_name := Some name, r_pid := - 1, r_priority := prio\<rparr>"
  have pc: "r_pipe_count ?rep \<le> PIPE_LIMIT" using assms(1) by (simp add: wf_simps)
  have "reset_pair_inv k ?rep (r_pipe_count ?rep) (for_upto (r_pipe_count ?rep) reset_pipe_pair (k, ?rep))"
  proof (rule for_upto_indexed_invariant)
    show "reset_pair_inv k ?rep 0 (k, ?rep)"
      using assms(1) by (simp add: reset_pair_inv_def empty_rings_def wf_simps)
  qed (rule reset_pair_step, assumption+, use pc in simp)
  moreover obtain k1 rep1 where e: "for_upto (r_pipe_count ?rep) reset_pipe_pair (k, ?rep) = (k1, rep1)"
    by fastforce
  moreover from e have "k' = k1" "rep' = rep1\<lparr>r_pipe_count := 0\<rparr>"
    using assms(2) by (simp_all add: initReplica_def Let_def)
  ultimately show "pipes_kept k k'" "os_lookup k' g = (if g \<in> rep_fds rep then None else os_lookup k g)"
    "rep_shape rep'" "empty_rings (r_pipe_count rep) rep'" "r_pipe_count rep' = 0" "r_pid rep' = - 1"
    "r_name rep' = Some name"
    by (simp_all add: reset_pair_inv_def rep_fds_def pipe_ends_def wf_simps empty_rings_def)
qed

section \<open>Wiring\<close>

text \<open>
  \<open>wired k e rep p q\<close>: pipe \<open>p\<close> of the replica runs in the direction of the external pipe \<open>e\<close>, and the
  voter's end and the replica's end are the two ends of the kernel's pipe \<open>q\<close>.
\<close>

definition wired :: "os \<Rightarrow> vote_pipe \<Rightarrow> replica \<Rightarrow> nat \<Rightarrow> nat \<Rightarrow> bool" where
  "wired k e rep p q \<longleftrightarrow> q < length (os_pipes k) \<and>
     (let v = r_vot_pipes rep ! p; r = r_rep_pipes rep ! p in
      if fd_in e \<noteq> 0 then
        fd_in v = 0 \<and> fd_out r = 0 \<and> r_in_copy rep ! p = fd_in r \<and> 0 < fd_out v \<and> 0 < fd_in r \<and>
        os_lookup k (fd_out v) = Some (WriteEnd q) \<and> os_lookup k (fd_in r) = Some (ReadEnd q)
      else
        fd_out v = 0 \<and> fd_in r = 0 \<and> r_in_copy rep ! p = 0 \<and> 0 < fd_in v \<and> 0 < fd_out r \<and>
        os_lookup k (fd_in v) = Some (ReadEnd q) \<and> os_lookup k (fd_out r) = Some (WriteEnd q))"

text \<open>The kernel's pipe behind the voter's end.\<close>

definition chan :: "os \<Rightarrow> replica \<Rightarrow> nat \<Rightarrow> nat" where
  "chan k rep p =
     (let v = r_vot_pipes rep ! p in
      case os_lookup k (if fd_in v \<noteq> 0 then fd_in v else fd_out v) of
        Some (ReadEnd q) \<Rightarrow> q | Some (WriteEnd q) \<Rightarrow> q | _ \<Rightarrow> 0)"

lemma wired_chan: "wired k e rep p q \<Longrightarrow> chan k rep p = q"
  by (auto simp: wired_def chan_def Let_def split: if_splits)

lemma wired_ends:
  "wired k e rep p q \<Longrightarrow> f \<in> pipe_ends rep p \<Longrightarrow>
    0 < f \<and> (os_lookup k f = Some (ReadEnd q) \<or> os_lookup k f = Some (WriteEnd q))"
  by (auto simp: wired_def pipe_ends_def Let_def split: if_splits)

lemma wired_card:
  assumes "wired k e rep p q"
  shows "card (pipe_ends rep p) = 2"
proof -
  let ?v = "r_vot_pipes rep ! p" and ?r = "r_rep_pipes rep ! p"
  have "pipe_ends rep p = {if fd_in e \<noteq> 0 then fd_out ?v else fd_in ?v, if fd_in e \<noteq> 0 then fd_in ?r else fd_out ?r}"
    using assms by (auto simp: wired_def pipe_ends_def Let_def split: if_splits)
  moreover have "(if fd_in e \<noteq> 0 then fd_out ?v else fd_in ?v) \<noteq> (if fd_in e \<noteq> 0 then fd_in ?r else fd_out ?r)"
    using assms by (auto simp: wired_def Let_def)
  ultimately show ?thesis by simp
qed

lemma wired_mono:
  assumes "wired k e rep p q" "\<And>f. f \<in> pipe_ends rep p \<Longrightarrow> os_lookup k' f = os_lookup k f"
    "length (os_pipes k) \<le> length (os_pipes k')" "r_vot_pipes rep' ! p = r_vot_pipes rep ! p"
    "r_rep_pipes rep' ! p = r_rep_pipes rep ! p" "r_in_copy rep' ! p = r_in_copy rep ! p"
  shows "wired k' e rep' p q"
  using assms by (auto simp: wired_def pipe_ends_def Let_def split: if_splits)

definition rings_kept :: "replica \<Rightarrow> replica \<Rightarrow> bool" where
  "rings_kept rep rep' \<longleftrightarrow> (\<forall>p. buff_count (r_vot_pipes rep' ! p) = buff_count (r_vot_pipes rep ! p) \<and>
     buff_index (r_vot_pipes rep' ! p) = buff_index (r_vot_pipes rep ! p))"

definition created :: "vote_pipe list \<Rightarrow> os \<Rightarrow> replica \<Rightarrow> nat \<Rightarrow> os \<times> replica \<Rightarrow> bool" where
  "created ext k0 rep0 p s \<longleftrightarrow> (case s of (k, rep) \<Rightarrow>
     rep_shape rep \<and> r_pipe_count rep = p \<and> rings_kept rep0 rep \<and> r_pid rep = r_pid rep0 \<and> r_name rep = r_name rep0 \<and>
     (\<forall>i < p. wired k (ext ! i) rep i (length (os_pipes k0) + i)) \<and>
     os_pipes k = os_pipes k0 @ replicate p [] \<and> os_fd_max k = os_fd_max k0 \<and> os_hup k = os_hup k0 \<and>
     os_late k = os_late k0 \<and> open_fds k0 \<subseteq> open_fds k \<and>
     (\<forall>f \<in> open_fds k0. os_lookup k f = os_lookup k0 f) \<and> card (open_fds k) = card (open_fds k0) + 2 * p)"

lemma wire_pipe_wired:
  assumes "rep_shape rep" "p < PIPE_LIMIT" "os_lookup k rd = Some (ReadEnd q)"
    "os_lookup k wr = Some (WriteEnd q)" "0 < rd" "0 < wr" "q < length (os_pipes k)"
  shows "wired k e (wire_pipe rep p e rd wr) p q"
  using assms by (simp add: wired_def wire_pipe_def Let_def wf_simps)

lemma wire_pipe_other:
  "i \<noteq> p \<Longrightarrow> r_vot_pipes (wire_pipe rep p e rd wr) ! i = r_vot_pipes rep ! i \<and>
    r_rep_pipes (wire_pipe rep p e rd wr) ! i = r_rep_pipes rep ! i \<and>
    r_in_copy (wire_pipe rep p e rd wr) ! i = r_in_copy rep ! i"
  by (simp add: wire_pipe_def Let_def)

lemma wire_pipe_shape:
  assumes "rep_shape rep" "p < PIPE_LIMIT"
  shows "rep_shape (wire_pipe rep p e rd wr)" "r_pipe_count (wire_pipe rep p e rd wr) = Suc p"
    "rings_kept rep (wire_pipe rep p e rd wr)" "r_pid (wire_pipe rep p e rd wr) = r_pid rep"
    "r_name (wire_pipe rep p e rd wr) = r_name rep"
proof -
  let ?w = "wire_pipe rep p e rd wr"
  show "r_pipe_count ?w = Suc p" "r_pid ?w = r_pid rep" "r_name ?w = r_name rep"
    by (simp_all add: wire_pipe_def Let_def)
  have "buff_count (r_vot_pipes ?w ! i) = buff_count (r_vot_pipes rep ! i) \<and>
      buff_index (r_vot_pipes ?w ! i) = buff_index (r_vot_pipes rep ! i) \<and>
      buffer (r_vot_pipes ?w ! i) = buffer (r_vot_pipes rep ! i)" for i
    using assms by (cases "i = p") (simp_all add: wire_pipe_def Let_def wf_simps)
  then show "rings_kept rep ?w" "rep_shape ?w"
    using assms by (simp_all add: rings_kept_def wf_simps) (simp add: wire_pipe_def Let_def)
qed

lemma createPipe_step:
  assumes "created ext k0 rep0 p s" "p < PIPE_LIMIT" "card (open_fds k0) + 2 * Suc p \<le> os_fd_max k0"
    "0 \<in> open_fds k0"
  shows "created ext k0 rep0 (Suc p) (createPipe ext p s)"
proof -
  obtain k rep where s: "s = (k, rep)" by (cases s)
  have I: "rep_shape rep" "r_pipe_count rep = p" "rings_kept rep0 rep" "r_pid rep = r_pid rep0" "r_name rep = r_name rep0"
    "\<And>i. i < p \<Longrightarrow> wired k (ext ! i) rep i (length (os_pipes k0) + i)"
    "os_pipes k = os_pipes k0 @ replicate p []" "os_fd_max k = os_fd_max k0" "os_hup k = os_hup k0"
    "os_late k = os_late k0" "open_fds k0 \<subseteq> open_fds k" "\<And>f. f \<in> open_fds k0 \<Longrightarrow> os_lookup k f = os_lookup k0 f"
    "card (open_fds k) = card (open_fds k0) + 2 * p"
    using assms(1) by (auto simp: created_def s)
  have "card (open_fds k) + 2 \<le> os_fd_max k" "os_lookup k 0 \<noteq> None"
    using I(8,11,13) assms(3,4) by (auto simp: open_fds_def)
  then obtain k' r w where
    "os_pipe k = (k', Some (r, w))" "0 < r" "0 < w" "r \<noteq> w" "r \<notin> open_fds k" "w \<notin> open_fds k"
    "open_fds k' = open_fds k \<union> {r, w}" "card (open_fds k') = card (open_fds k) + 2"
    "os_lookup k' r = Some (ReadEnd (length (os_pipes k)))"
    "os_lookup k' w = Some (WriteEnd (length (os_pipes k)))"
    "\<forall>g \<in> open_fds k. os_lookup k' g = os_lookup k g"
    "k' = k\<lparr>os_fd_table := os_fd_table k', os_pipes := os_pipes k @ [[]]\<rparr>"
    by (rule os_pipe_room)
  note P = this(1-3,7-12)
  have fr: "os_pipes k' = os_pipes k @ [[]]" "os_fd_max k' = os_fd_max k" "os_hup k' = os_hup k" "os_late k' = os_late k"
    using arg_cong [OF P(9), of os_pipes] arg_cong [OF P(9), of os_fd_max]
      arg_cong [OF P(9), of os_hup] arg_cong [OF P(9), of os_late] by simp_all
  let ?w = "wire_pipe rep p (ext ! p) r w"
  note W = wire_pipe_shape [OF I(1) assms(2), of "ext ! p" r w]
  have "wired k' (ext ! p) ?w p (length (os_pipes k0) + p)"
    using P(2,3,6,7) fr(1) I(7) by (intro wire_pipe_wired [OF I(1) assms(2)]) simp_all
  moreover have "wired k' (ext ! i) ?w i (length (os_pipes k0) + i)" if "i < p" for i
  proof (rule wired_mono [OF I(6) [OF that]])
    fix f assume "f \<in> pipe_ends rep i"
    then have "f \<in> open_fds k" using wired_ends [OF I(6) [OF that]] by (auto simp: open_fds_def)
    then show "os_lookup k' f = os_lookup k f" using P(8) by blast
  qed (use that fr(1) wire_pipe_other in auto)
  ultimately have wired: "\<forall>i < Suc p. wired k' (ext ! i) ?w i (length (os_pipes k0) + i)"
    by (simp add: less_Suc_eq)
  have "os_pipes k' = os_pipes k0 @ replicate (Suc p) []"
    using fr(1) I(7) by (simp add: replicate_append_same)
  moreover have "rings_kept rep0 ?w"
    using I(3) W(3) by (simp add: rings_kept_def)
  moreover have "createPipe ext p s = (k', ?w)"
    using P(1) by (simp add: s createPipe_def)
  ultimately show ?thesis
    using wired W(1,2,4,5) fr(2-4) I(4,5,8-13) P(4,5,8) by (auto simp: created_def)
qed

lemma createPipe_loop:
  assumes "rep_shape rep0" "r_pipe_count rep0 = 0" "n \<le> PIPE_LIMIT"
    "card (open_fds k0) + 2 * n \<le> os_fd_max k0" "0 \<in> open_fds k0"
  shows "created ext k0 rep0 n (for_upto n (createPipe ext) (k0, rep0))"
proof (rule for_upto_indexed_invariant)
  show "created ext k0 rep0 0 (k0, rep0)"
    using assms(1,2) by (simp add: created_def rings_kept_def)
qed (rule createPipe_step, use assms in simp_all)

text \<open>Only the table of descriptors and the pipes are touched, and the names of the types are copied.\<close>

lemma os_alloc_frame: "\<exists>t. os_alloc k ob = (k\<lparr>os_fd_table := t\<rparr>, snd (os_alloc k ob))"
  by (auto simp: os_alloc_def Let_def intro: exI [of _ "os_fd_table k"])

lemma os_pipe_frame: "\<exists>t ps. fst (os_pipe k) = k\<lparr>os_fd_table := t, os_pipes := ps\<rparr>"
proof -
  obtain t a where t: "os_alloc k (ReadEnd (length (os_pipes k))) = (k\<lparr>os_fd_table := t\<rparr>, a)"
    using os_alloc_frame by blast
  obtain u b where u: "os_alloc (k\<lparr>os_fd_table := t\<rparr>) (WriteEnd (length (os_pipes k))) = (k\<lparr>os_fd_table := t\<rparr>\<lparr>os_fd_table := u\<rparr>, b)"
    using os_alloc_frame by blast
  show ?thesis
  proof (cases "a < 0 \<or> b < 0")
    case True
    then have "fst (os_pipe k) = k\<lparr>os_fd_table := os_fd_table k, os_pipes := os_pipes k\<rparr>" using t u by (simp add: os_pipe_def)
    then show ?thesis by blast
  next
    case False
    then have "fst (os_pipe k) = k\<lparr>os_fd_table := u, os_pipes := os_pipes k @ [[]]\<rparr>" using t u by (simp add: os_pipe_def)
    then show ?thesis by blast
  qed
qed

lemma createPipe_loop_frame: "\<exists>t ps. fst (for_upto n (createPipe ext) (k, rep)) = k\<lparr>os_fd_table := t, os_pipes := ps\<rparr>"
proof (induction n)
  case 0
  show ?case by (intro exI [of _ "os_fd_table k"] exI [of _ "os_pipes k"]) simp
next
  case (Suc n)
  then obtain t ps rep1 where e: "for_upto n (createPipe ext) (k, rep) = (k\<lparr>os_fd_table := t, os_pipes := ps\<rparr>, rep1)"
    by (metis prod.collapse)
  let ?k = "k\<lparr>os_fd_table := t, os_pipes := ps\<rparr>"
  obtain u qs where u: "fst (os_pipe ?k) = ?k\<lparr>os_fd_table := u, os_pipes := qs\<rparr>" using os_pipe_frame [of ?k] by blast
  have "fst (createPipe ext n (?k, rep1)) = fst (os_pipe ?k)"
    by (simp add: createPipe_def split: prod.splits option.splits)
  then have "fst (for_upto (Suc n) (createPipe ext) (k, rep)) = k\<lparr>os_fd_table := u, os_pipes := qs\<rparr>"
    using u by (simp add: for_upto_Suc e)
  then show ?case by blast
qed

lemma createPipe_loop_info:
  assumes "rep_shape rep0" "r_pipe_count rep0 = 0" "n \<le> PIPE_LIMIT"
    "card (open_fds k0) + 2 * n \<le> os_fd_max k0" "0 \<in> open_fds k0"
    "for_upto n (createPipe ext) (k0, rep0) = (k, rep)"
  shows "r_priority rep = r_priority rep0" "\<forall>i < n. rep_info (r_rep_pipes rep ! i) = rep_info (ext ! i)"
proof -
  let ?I = "\<lambda>p s. created ext k0 rep0 p s \<and> r_priority (snd s) = r_priority rep0 \<and>
    (\<forall>i < p. rep_info (r_rep_pipes (snd s) ! i) = rep_info (ext ! i))"
  have "?I n (for_upto n (createPipe ext) (k0, rep0))"
  proof (rule for_upto_indexed_invariant [where I = ?I], goal_cases)
    case 1
    then show ?case using assms(1,2) by (simp add: created_def rings_kept_def)
  next
    case (2 i s)
    then have c: "created ext k0 rep0 (Suc i) (createPipe ext i s)" using createPipe_step assms by simp
    obtain k1 rep1 where s: "s = (k1, rep1)" by (cases s)
    have sh: "rep_shape rep1" "r_pipe_count rep1 = i" using 2 by (simp_all add: created_def s)
    obtain k2 r where p: "os_pipe k1 = (k2, r)" by fastforce
    then obtain rd wr where r: "r = Some (rd, wr)" using c sh by (cases r) (auto simp: createPipe_def s created_def)
    then show ?case
      using c 2 p sh assms(3) by (auto simp: createPipe_def s wire_pipe_def Let_def less_Suc_eq rep_shape_def)
  qed
  then show "r_priority rep = r_priority rep0" "\<forall>i < n. rep_info (r_rep_pipes rep ! i) = rep_info (ext ! i)"
    using assms(6) by simp_all
qed

section \<open>The set of replicas\<close>

definition rep_ok :: "os \<Rightarrow> vote_pipe list \<Rightarrow> nat \<Rightarrow> replica \<Rightarrow> bool" where
  "rep_ok k ext pc rep \<longleftrightarrow> rep_shape rep \<and> r_pipe_count rep = pc \<and>
     (\<forall>p < pc. wired k (ext ! p) rep p (chan k rep p))"

text \<open>
  \<open>reps_ok\<close>: every replica is wired like the external pipes, no kernel pipe is used twice, and the
  table of descriptors is not overfull. \<open>ext_apart\<close>: the external pipes are none of these.
\<close>

definition reps_ok :: "os \<Rightarrow> vote_pipe list \<Rightarrow> nat \<Rightarrow> nat \<Rightarrow> replica list \<Rightarrow> bool" where
  "reps_ok k ext pc num reps \<longleftrightarrow> num \<le> length reps \<and> pc \<le> PIPE_LIMIT \<and> 0 \<in> open_fds k \<and>
     card (open_fds k) \<le> os_fd_max k \<and> (\<forall>r < num. rep_ok k ext pc (reps ! r)) \<and>
     inj_on (\<lambda>(r, p). chan k (reps ! r) p) ({..<num} \<times> {..<pc})"

definition ext_apart :: "os \<Rightarrow> vote_pipe list \<Rightarrow> nat \<Rightarrow> nat \<Rightarrow> replica list \<Rightarrow> bool" where
  "ext_apart k ext pc num reps \<longleftrightarrow>
     (\<forall>p < pc. \<forall>f \<in> {fd_in (ext ! p), fd_out (ext ! p)} - {0}. \<exists>q < length (os_pipes k).
        (os_lookup k f = Some (ReadEnd q) \<or> os_lookup k f = Some (WriteEnd q)) \<and>
        (\<forall>r < num. \<forall>i < pc. q \<noteq> chan k (reps ! r) i))"

definition same_pipes :: "replica \<Rightarrow> replica \<Rightarrow> bool" where
  "same_pipes a b \<longleftrightarrow> r_vot_pipes b = r_vot_pipes a \<and> r_rep_pipes b = r_rep_pipes a \<and>
     r_in_copy b = r_in_copy a \<and> r_pipe_count b = r_pipe_count a"

lemma same_pipes_refl [simp]: "same_pipes a a"
  by (simp add: same_pipes_def)

lemma same_pipes_trans: "same_pipes a b \<Longrightarrow> same_pipes b c \<Longrightarrow> same_pipes a c"
  by (simp add: same_pipes_def)

lemma prio_only_same_pipes: "prio_only reps reps' \<Longrightarrow> i < length reps \<Longrightarrow> same_pipes (reps ! i) (reps' ! i)"
  by (simp add: same_pipes_def prio_onlyD)

lemma wired_same_pipes: "same_pipes a b \<Longrightarrow> wired k e b p q = wired k e a p q"
  by (simp add: wired_def same_pipes_def)

lemma chan_same_pipes: "same_pipes a b \<Longrightarrow> chan k b p = chan k a p"
  by (simp add: chan_def same_pipes_def)

lemma rep_shape_same_pipes: "same_pipes a b \<Longrightarrow> rep_shape b = rep_shape a"
  by (simp add: wf_simps same_pipes_def)

lemma chan_cong: "(\<And>f. os_lookup k' f = os_lookup k f) \<Longrightarrow> chan k' rep p = chan k rep p"
  by (simp add: chan_def)

lemma reps_okD:
  assumes "reps_ok k ext pc num reps" "r < num"
  shows "p < pc \<Longrightarrow> wired k (ext ! p) (reps ! r) p (chan k (reps ! r) p)" "rep_shape (reps ! r)"
    "r_pipe_count (reps ! r) = pc"
  using assms by (auto simp: reps_ok_def rep_ok_def)

lemma chan_inj:
  assumes "reps_ok k ext pc num reps" "r < num" "p < pc" "r' < num" "p' < pc"
    "chan k (reps ! r) p = chan k (reps ! r') p'"
  shows "r = r' \<and> p = p'"
proof -
  have "inj_on (\<lambda>(r, p). chan k (reps ! r) p) ({..<num} \<times> {..<pc})"
    using assms(1) by (simp add: reps_ok_def)
  from inj_onD [OF this, of "(r, p)" "(r', p')"] show ?thesis using assms by simp
qed

lemma rep_fds_owner:
  assumes "reps_ok k ext pc num reps" "r < num" "f \<in> rep_fds (reps ! r)"
  shows "0 < f \<and> (\<exists>p < pc. f \<in> pipe_ends (reps ! r) p \<and>
    (os_lookup k f = Some (ReadEnd (chan k (reps ! r) p)) \<or> os_lookup k f = Some (WriteEnd (chan k (reps ! r) p))))"
proof -
  have "r_pipe_count (reps ! r) = pc" using assms(1,2) by (auto simp: reps_ok_def rep_ok_def)
  then obtain p where p: "p < pc" "f \<in> pipe_ends (reps ! r) p"
    using assms(3) by (auto simp: rep_fds_def)
  then show ?thesis using wired_ends [OF reps_okD(1) [OF assms(1,2) p(1)] p(2)] by blast
qed

lemma pipe_ends_disjoint:
  assumes "reps_ok k ext pc num reps" "r < num" "p < pc" "r' < num" "p' < pc"
    "f \<in> pipe_ends (reps ! r) p" "f \<in> pipe_ends (reps ! r') p'"
  shows "r = r' \<and> p = p'"
  using chan_inj [OF assms(1-5)] wired_ends [OF reps_okD(1) [OF assms(1,2) assms(3)] assms(6)]
    wired_ends [OF reps_okD(1) [OF assms(1,4) assms(5)] assms(7)] by auto

lemma card_rep_fds:
  assumes "reps_ok k ext pc num reps" "r < num"
  shows "card (rep_fds (reps ! r)) = 2 * pc" "rep_fds (reps ! r) \<subseteq> open_fds k"
proof -
  have pc: "r_pipe_count (reps ! r) = pc" using assms by (auto simp: reps_ok_def rep_ok_def)
  have "card (\<Union>p < pc. pipe_ends (reps ! r) p) = (\<Sum>p < pc. card (pipe_ends (reps ! r) p))"
  proof (rule card_UN_disjoint)
    show "\<forall>p \<in> {..<pc}. finite (pipe_ends (reps ! r) p)" by (simp add: pipe_ends_def)
    show "\<forall>p \<in> {..<pc}. \<forall>p' \<in> {..<pc}. p \<noteq> p' \<longrightarrow> pipe_ends (reps ! r) p \<inter> pipe_ends (reps ! r) p' = {}"
      using pipe_ends_disjoint [OF assms _ assms(2)] by blast
  qed simp
  also have "\<dots> = 2 * pc" using wired_card [OF reps_okD(1) [OF assms]] by simp
  finally show "card (rep_fds (reps ! r)) = 2 * pc" by (simp add: rep_fds_def pc)
  show "rep_fds (reps ! r) \<subseteq> open_fds k"
    using rep_fds_owner [OF assms] by (fastforce simp: open_fds_def)
qed

text \<open>
  Replacing the pipes of replica \<open>e\<close>: its old descriptors are closed, new pipes are created. The
  lemma gives the new set of replicas; \<open>rebuilt\<close> collects what holds afterwards.
\<close>

definition rebuilt :: "vote_pipe list \<Rightarrow> nat \<Rightarrow> nat \<Rightarrow> nat \<Rightarrow> os \<Rightarrow> replica list \<Rightarrow> os \<Rightarrow> replica list \<Rightarrow> bool" where
  "rebuilt ext pc num e k reps k' reps' \<longleftrightarrow> length reps' = length reps \<and> reps_ok k' ext pc num reps' \<and>
     ext_apart k' ext pc num reps' \<and> card (open_fds k') = card (open_fds k) \<and>
     os_pipes k' = os_pipes k @ replicate pc [] \<and> os_hup k' = os_hup k \<and> os_late k' = os_late k \<and>
     os_fd_max k' = os_fd_max k \<and>
     (\<forall>f \<in> open_fds k - rep_fds (reps ! e). os_lookup k' f = os_lookup k f) \<and>
     (\<forall>i < num. i \<noteq> e \<longrightarrow> same_pipes (reps ! i) (reps' ! i)) \<and> empty_rings pc (reps' ! e) \<and>
     (\<forall>p < pc. chan k' (reps' ! e) p = length (os_pipes k) + p)"

lemma rebuild:
  assumes ok: "reps_ok k ext pc num reps" and apart: "ext_apart k ext pc num reps" and e: "e < num"
    and k4: "\<And>g. os_lookup k4 g = (if g \<in> rep_fds (reps ! e) then None else os_lookup k g)" "pipes_kept k k4"
    and rep4: "rep_shape rep4" "r_pipe_count rep4 = 0" "empty_rings pc rep4"
    and loop: "for_upto pc (createPipe ext) (k4, rep4) = (k5, rep5)"
    and reps': "length reps' = length reps" "\<And>i. i < num \<Longrightarrow> i \<noteq> e \<Longrightarrow> same_pipes (reps ! i) (reps' ! i)"
      "same_pipes rep5 (reps' ! e)"
    and k': "\<And>f. os_lookup k' f = os_lookup k5 f" "pipes_kept k5 k'"
  shows "rebuilt ext pc num e k reps k' reps'"
proof -
  let ?F = "rep_fds (reps ! e)"
  have open4: "open_fds k4 = open_fds k - ?F" using k4(1) by (auto simp: open_fds_def)
  have cF: "card ?F = 2 * pc" "?F \<subseteq> open_fds k" using card_rep_fds [OF ok e] .
  have c4: "card (open_fds k4) + 2 * pc = card (open_fds k)"
    using cF card_mono [OF finite_open_fds cF(2)] unfolding open4
    by (simp add: card_Diff_subset finite_subset [OF cF(2)])
  have z: "0 \<notin> ?F" using rep_fds_owner [OF ok e] by fastforce
  have pc: "pc \<le> PIPE_LIMIT" "0 \<in> open_fds k" "card (open_fds k) \<le> os_fd_max k" "num \<le> length reps"
    using ok by (simp_all add: reps_ok_def)
  have "card (open_fds k4) + 2 * pc \<le> os_fd_max k4" "0 \<in> open_fds k4"
    using c4 pc k4(2) z by (simp_all add: pipes_kept_def open4)
  from createPipe_loop [OF rep4(1,2) pc(1) this, of ext] loop
  have C: "rep_shape rep5" "r_pipe_count rep5 = pc" "rings_kept rep4 rep5"
    "\<And>i. i < pc \<Longrightarrow> wired k5 (ext ! i) rep5 i (length (os_pipes k) + i)"
    "os_pipes k5 = os_pipes k @ replicate pc []" "os_fd_max k5 = os_fd_max k" "os_hup k5 = os_hup k"
    "os_late k5 = os_late k" "open_fds k4 \<subseteq> open_fds k5" "\<And>f. f \<in> open_fds k4 \<Longrightarrow> os_lookup k5 f = os_lookup k4 f"
    "card (open_fds k5) = card (open_fds k)"
    using k4(2) c4 by (auto simp: created_def pipes_kept_def)
  have keep: "os_lookup k' f = os_lookup k f" if "f \<in> open_fds k - ?F" for f
    using that C(10) [of f] k4(1) k'(1) by (auto simp: open4)
  have K: "os_pipes k' = os_pipes k @ replicate pc []" "os_fd_max k' = os_fd_max k" "os_hup k' = os_hup k"
    "os_late k' = os_late k" "open_fds k' = open_fds k5"
    using C(5-8) k' by (simp_all add: pipes_kept_def open_fds_def)
  have We: "wired k' (ext ! p) (reps' ! e) p (length (os_pipes k) + p)" if "p < pc" for p
    unfolding wired_same_pipes [OF reps'(3)]
    by (rule wired_mono [OF C(4) [OF that]]) (use k' K(1) C(5) in simp_all)
  have Wi: "wired k' (ext ! p) (reps' ! i) p (chan k (reps ! i) p)" if "i < num" "i \<noteq> e" "p < pc" for i p
    unfolding wired_same_pipes [OF reps'(2) [OF that(1,2)]]
  proof (rule wired_mono [OF reps_okD(1) [OF ok that(1,3)]])
    fix f assume f: "f \<in> pipe_ends (reps ! i) p"
    have "f \<in> open_fds k" using wired_ends [OF reps_okD(1) [OF ok that(1,3)] f] by (auto simp: open_fds_def)
    moreover have "f \<notin> ?F"
      using rep_fds_owner [OF ok e] pipe_ends_disjoint [OF ok that(1,3) e _ f] that(2) by blast
    ultimately show "os_lookup k' f = os_lookup k f" using keep by blast
  qed (use K(1) in simp_all)
  have ce: "chan k' (reps' ! e) p = length (os_pipes k) + p" if "p < pc" for p
    using wired_chan [OF We [OF that]] .
  have ci: "chan k' (reps' ! i) p = chan k (reps ! i) p" if "i < num" "i \<noteq> e" "p < pc" for i p
    using wired_chan [OF Wi [OF that]] .
  have lt: "chan k (reps ! i) p < length (os_pipes k)" if "i < num" "p < pc" for i p
    using reps_okD(1) [OF ok that] by (simp add: wired_def)
  have inj: "inj_on (\<lambda>(r, p). chan k' (reps' ! r) p) ({..<num} \<times> {..<pc})"
  proof (rule inj_onI, clarsimp)
    fix r p r' p' assume a: "r < num" "p < pc" "r' < num" "p' < pc" "chan k' (reps' ! r) p = chan k' (reps' ! r') p'"
    show "r = r' \<and> p = p'"
      using a ce ci lt [of r p] lt [of r' p'] chan_inj [OF ok a(1-4)] by (cases "r = e"; cases "r' = e") auto
  qed
  have "rep_ok k' ext pc (reps' ! r)" if "r < num" for r
  proof (cases "r = e")
    case True
    then show ?thesis
      using We ce C(1,2) reps'(3) rep_shape_same_pipes [OF reps'(3)] by (simp add: rep_ok_def same_pipes_def)
  next
    case False
    then show ?thesis
      using that Wi [OF that False] ci [OF that False] ok reps'(2) [OF that False] rep_shape_same_pipes [OF reps'(2) [OF that False]]
      by (simp add: rep_ok_def reps_ok_def same_pipes_def)
  qed
  then have "reps_ok k' ext pc num reps'"
    using inj pc reps'(1) K(2,5) C(9,11) open4 z by (auto simp: reps_ok_def)
  moreover have "ext_apart k' ext pc num reps'"
    unfolding ext_apart_def
  proof (intro allI ballI impI)
    fix p f assume p: "p < pc" and f: "f \<in> {fd_in (ext ! p), fd_out (ext ! p)} - {0}"
    from apart p f obtain q where q: "q < length (os_pipes k)"
      "os_lookup k f = Some (ReadEnd q) \<or> os_lookup k f = Some (WriteEnd q)"
      "\<forall>r < num. \<forall>i < pc. q \<noteq> chan k (reps ! r) i"
      unfolding ext_apart_def by blast
    have "\<forall>i < pc. q \<noteq> chan k (reps ! e) i" using q(3) e by blast
    then have "f \<in> open_fds k - ?F"
      using q(2) rep_fds_owner [OF ok e, of f] by (auto simp: open_fds_def)
    then have l: "os_lookup k' f = os_lookup k f" by (rule keep)
    have "q \<noteq> chan k' (reps' ! r) i" if "r < num" "i < pc" for r i
      using that q(1,3) ce ci by (cases "r = e") auto
    then show "\<exists>q < length (os_pipes k'). (os_lookup k' f = Some (ReadEnd q) \<or> os_lookup k' f = Some (WriteEnd q)) \<and>
        (\<forall>r < num. \<forall>i < pc. q \<noteq> chan k' (reps' ! r) i)"
      using q(1,2) K(1) l by auto
  qed
  moreover have "empty_rings pc (reps' ! e)"
    using rep4(3) C(3) reps'(3) by (simp add: empty_rings_def rings_kept_def same_pipes_def)
  ultimately show ?thesis
    using reps'(1,2) K C(11) keep ce by (simp add: rebuilt_def)
qed

lemma initReplicas_1:
  "initReplicas k reps b 1 name prio =
    (let (k1, rep) = initReplica k (reps ! b) name prio in (k1, reps[b := rep]))"
  by (simp add: initReplicas_def for_upto_def)

lemma createPipes_1:
  "createPipes k reps b 1 ext pc =
    (let (k1, rep) = for_upto pc (createPipe ext) (k, reps ! b) in (k1, reps[b := rep]))"
  by (simp add: createPipes_def for_upto_def)

lemma prio_stepD:
  assumes "prio_step (k, reps) (k', reps')"
  shows "os_lookup k' f = os_lookup k f" "pipes_kept k k'" "prio_only reps reps'"
  using assms by (auto simp: prio_step_def)

lemma restart_priorities_step:
  "prio_step s (for_upto num (\<lambda>i s. if i \<noteq> e then set_rep_priority i (x i) s else s) s)"
  by (rule for_upto_invariant) (auto intro: prio_step_trans set_rep_priority_step)

text \<open>
  The stages of \<open>restartReplica\<close>: the old descriptors are closed, the pipes are created, and what follows
  leaves descriptors and pipes as they are.
\<close>

lemma restartReplica_stages:
  assumes ok: "reps_ok k ext pc num reps"
    and e: "e < num" "r < num" "r \<noteq> e" and run: "restartReplica k reps num sd ext r e prio = (k', reps')"
  obtains k4 rep4 k5 rep5 where
    "\<And>g. os_lookup k4 g = (if g \<in> rep_fds (reps ! e) then None else os_lookup k g)" "pipes_kept k k4"
    "rep_shape rep4" "r_pipe_count rep4 = 0" "empty_rings pc rep4"
    "for_upto pc (createPipe ext) (k4, rep4) = (k5, rep5)"
    "length reps' = length reps" "\<And>i. i < num \<Longrightarrow> i \<noteq> e \<Longrightarrow> same_pipes (reps ! i) (reps' ! i)" "same_pipes rep5 (reps' ! e)"
    "\<And>f. os_lookup k' f = os_lookup k5 f" "pipes_kept k5 k'"
proof -
  have len: "num \<le> length reps" using ok by (simp add: reps_ok_def)
  let ?F = "rep_fds (reps ! e)" and ?k1 = "cleanupReplica k reps e"
  have pos: "\<forall>f \<in> ?F. 0 < f" using rep_fds_owner [OF ok e(1)] by blast
  note k1 = cleanupReplica_spec [OF pos, of k]
  obtain k2 reps2 where s2: "for_upto num (\<lambda>i s. if i \<noteq> e then
      set_rep_priority i (if i = r then prio + 2 else prio) s else s) (?k1, reps) = (k2, reps2)" by fastforce
  then have p2: "prio_step (?k1, reps) (k2, reps2)"
    using restart_priorities_step [of "(?k1, reps)" num e "\<lambda>i. if i = r then prio + 2 else prio"] by simp
  note p2 = prio_stepD [OF p2]
  let ?k3 = "fst (os_kill k2 (r_pid (reps2 ! r)) RESTART_SIGNAL)"
  let ?name = "case r_name (reps2 ! r) of None \<Rightarrow> [] | Some n \<Rightarrow> n"
  obtain k4 rep4 where s4: "initReplica ?k3 (reps2 ! e) ?name prio = (k4, rep4)" by fastforce
  have sp: "same_pipes (reps ! i) (reps2 ! i)" if "i < num" for i
    using prio_only_same_pipes [OF p2(3)] that len by simp
  have F2: "rep_fds (reps2 ! e) = ?F" "r_pipe_count (reps2 ! e) = pc" "rep_shape (reps2 ! e)"
    "r_pipe_count (reps2 ! r) = pc"
    using sp [OF e(1)] sp [OF e(2)] reps_okD(2,3) [OF ok e(1)] reps_okD(3) [OF ok e(2)]
      rep_fds_cong [of "reps2 ! e" "reps ! e"] rep_shape_same_pipes [OF sp [OF e(1)]]
    by (simp_all add: same_pipes_def)
  note i4 = initReplica_spec [OF F2(3) s4, unfolded F2]
  have L2: "length reps2 = length reps" using p2(3) by (simp add: prio_only_def)
  have L4: "r_pipe_count (reps2[e := rep4] ! r) = pc" "reps2[e := rep4] ! e = rep4"
    using e F2(4) L2 len by simp_all
  obtain k5 rep5 where s5: "for_upto pc (createPipe ext) (k4, rep4) = (k5, rep5)" by fastforce
  obtain k6 pid ret where s6: "acceptSendFDS k5 sd (r_pid rep5) (r_rep_pipes rep5) (r_pipe_count rep5) = (k6, pid, ret)"
    by (metis prod_cases3)
  let ?reps6 = "reps2[e := rep5\<lparr>r_pid := pid\<rparr>]"
  have "restartReplica k reps num sd ext r e prio = balanceReps k6 ?reps6 num prio"
    using e len L2 L4 s2 s4 s5 s6
    by (simp add: restartReplica_def Let_def initReplicas_1 [unfolded One_nat_def] createPipes_1 [unfolded One_nat_def])
  then have p7: "prio_step (k6, ?reps6) (k', reps')" using run balanceReps_step by metis
  note p7 = prio_stepD [OF p7]
  have L7: "length reps' = length reps" using p7(3) L2 by (simp add: prio_only_def)
  have sp7: "same_pipes (?reps6 ! i) (reps' ! i)" if "i < num" for i
    using prio_only_same_pipes [OF p7(3)] that len L2 by simp
  show thesis
  proof (rule that [OF _ _ i4(3,5,4) s5 L7])
    show "os_lookup k4 g = (if g \<in> ?F then None else os_lookup k g)" for g
      using i4(2) p2(1) k1(1) by simp
    show "pipes_kept k k4" using i4(1) p2(2) k1(2) pipes_kept_trans by (metis pipes_kept_kill)
    show "same_pipes (reps ! i) (reps' ! i)" if "i < num" "i \<noteq> e" for i
      using sp [OF that(1)] sp7 [OF that(1)] that(2) same_pipes_trans by auto
    have "same_pipes rep5 (?reps6 ! e)" using e(1) len L2 by (simp add: same_pipes_def)
    then show "same_pipes rep5 (reps' ! e)" using sp7 [OF e(1)] same_pipes_trans by blast
    show "os_lookup k' f = os_lookup k5 f" for f using acceptSendFDS_frame(1) [OF s6] p7(1) by simp
    show "pipes_kept k5 k'" using acceptSendFDS_frame(2) [OF s6] p7(2) pipes_kept_trans by blast
  qed
qed

lemma restartReplica_rebuilt:
  assumes ok: "reps_ok k ext pc num reps" and apart: "ext_apart k ext pc num reps"
    and e: "e < num" "r < num" "r \<noteq> e" and run: "restartReplica k reps num sd ext r e prio = (k', reps')"
  shows "rebuilt ext pc num e k reps k' reps'"
  by (rule restartReplica_stages [OF ok e run], rule rebuild [OF ok apart e(1)]) assumption+

section \<open>Changes that keep the wiring\<close>

text \<open>\<open>fds_kept\<close>: bytes may have moved, but no descriptor was opened or closed.\<close>

definition fds_kept :: "os \<Rightarrow> os \<Rightarrow> bool" where
  "fds_kept k k' \<longleftrightarrow> (\<forall>f. os_lookup k' f = os_lookup k f) \<and>
     length (os_pipes k') = length (os_pipes k) \<and> os_fd_max k' = os_fd_max k"

lemma fds_kept_refl [simp]: "fds_kept k k"
  by (simp add: fds_kept_def)

lemma fds_kept_trans: "fds_kept a b \<Longrightarrow> fds_kept b c \<Longrightarrow> fds_kept a c"
  by (simp add: fds_kept_def)

lemma fds_kept_write [simp]: "fds_kept k (fst (os_write k fd bs n))"
  by (auto simp: fds_kept_def os_write_def split: option.splits fd_object.splits)

lemma fds_kept_read: "os_read k fd n = (k', r) \<Longrightarrow> fds_kept k k'"
  by (auto simp: fds_kept_def os_read_def split: option.splits fd_object.splits if_splits list.splits)

lemma fds_kept_time: "generate_timestamp k = (k', t) \<Longrightarrow> fds_kept k k'"
  by (auto simp: generate_timestamp_def os_time_def fds_kept_def split: list.splits)

lemma fds_kept_prio: "prio_step (k, reps) (k', reps') \<Longrightarrow> fds_kept k k'"
  by (auto simp: prio_step_def fds_kept_def)

text \<open>\<open>ends_kept\<close>: only the rings of a replica's pipes changed.\<close>

definition ends_kept :: "replica \<Rightarrow> replica \<Rightarrow> bool" where
  "ends_kept a b \<longleftrightarrow> r_rep_pipes b = r_rep_pipes a \<and> r_in_copy b = r_in_copy a \<and>
     r_pipe_count b = r_pipe_count a \<and> length (r_vot_pipes b) = length (r_vot_pipes a) \<and>
     (\<forall>p < length (r_vot_pipes a). same_ends (r_vot_pipes b ! p) (r_vot_pipes a ! p))"

lemma same_ends_refl [simp]: "same_ends p p"
  by (simp add: same_ends_def)

lemma ends_kept_refl [simp]: "ends_kept a a"
  by (simp add: ends_kept_def)

lemma ends_kept_trans: "ends_kept a b \<Longrightarrow> ends_kept b c \<Longrightarrow> ends_kept a c"
  by (simp add: ends_kept_def same_ends_def)

lemma ends_kept_same_pipes: "same_pipes a b \<Longrightarrow> ends_kept a b"
  by (simp add: ends_kept_def same_pipes_def)

lemma ends_kept_set_pipe:
  "same_ends x (r_vot_pipes a ! p) \<Longrightarrow> ends_kept a (a\<lparr>r_vot_pipes := (r_vot_pipes a)[p := x]\<rparr>)"
  unfolding ends_kept_def by (auto simp: nth_list_update_eq) (metis nth_list_update_eq nth_list_update_neq same_ends_refl)

lemma reps_ok_kept:
  assumes "reps_ok k ext pc num reps" "fds_kept k k'" "length reps' = length reps"
    "\<forall>i < num. ends_kept (reps ! i) (reps' ! i)" "\<forall>i < num. \<forall>p < PIPE_LIMIT. wf_vp (r_vot_pipes (reps' ! i) ! p)"
    "\<forall>p < pc. fd_in (ext' ! p) = fd_in (ext ! p)"
  shows "reps_ok k' ext' pc num reps'" "\<forall>i < num. \<forall>p < pc. chan k' (reps' ! i) p = chan k (reps ! i) p"
proof -
  have pc: "pc \<le> PIPE_LIMIT" using assms(1) by (simp add: reps_ok_def)
  have e: "same_ends (r_vot_pipes (reps' ! i) ! p) (r_vot_pipes (reps ! i) ! p)" if "i < num" "p < pc" for i p
    using that assms(4) reps_okD(2) [OF assms(1) that(1)] pc by (simp add: ends_kept_def wf_simps)
  show c: "\<forall>i < num. \<forall>p < pc. chan k' (reps' ! i) p = chan k (reps ! i) p"
    using e assms(2) by (simp add: chan_def same_ends_def fds_kept_def Let_def)
  have "wired k' (ext' ! p) (reps' ! i) p (chan k' (reps' ! i) p)" if "i < num" "p < pc" for i p
    using reps_okD(1) [OF assms(1) that] that e [OF that] assms(2,4,6) c
    by (simp add: wired_def same_ends_def fds_kept_def Let_def ends_kept_def)
  moreover have "rep_shape (reps' ! i)" "r_pipe_count (reps' ! i) = pc" if "i < num" for i
    using reps_okD(2,3) [OF assms(1) that] that assms(4,5) by (simp_all add: ends_kept_def wf_simps)
  moreover have "inj_on (\<lambda>(r, p). chan k' (reps' ! r) p) ({..<num} \<times> {..<pc})"
    using assms(1) c by (auto simp: reps_ok_def inj_on_def)
  moreover have "open_fds k' = open_fds k" using assms(2) by (simp add: open_fds_def fds_kept_def)
  ultimately show "reps_ok k' ext' pc num reps'"
    using assms(1-3) by (simp add: reps_ok_def rep_ok_def fds_kept_def)
qed

lemma ext_apart_kept:
  assumes "ext_apart k ext pc num reps" "fds_kept k k'"
    "\<forall>i < num. \<forall>p < pc. chan k' (reps' ! i) p = chan k (reps ! i) p"
    "\<forall>p < pc. fd_in (ext' ! p) = fd_in (ext ! p) \<and> fd_out (ext' ! p) = fd_out (ext ! p)"
  shows "ext_apart k' ext' pc num reps'"
  using assms by (simp add: ext_apart_def fds_kept_def)

section \<open>A cold restart\<close>

lemma forkSingle_frame:
  "forkSingle k argv = (k', p) \<Longrightarrow> os_lookup k' f = os_lookup k f \<and> pipes_kept k k'"
  by (auto simp: forkSingle_def os_fork_exec_def pipes_kept_def split: list.splits if_splits)

lemma startReplicas_1:
  assumes "startReplicas k reps 1 sd name ext pc prio = Some (k', reps')" "0 < length reps"
  obtains k2 rep2 k3 rep3 pid where "initReplica k (reps ! 0) name prio = (k2, rep2)"
    "for_upto pc (createPipe ext) (k2, rep2) = (k3, rep3)"
    "\<forall>f. os_lookup k' f = os_lookup k3 f" "pipes_kept k3 k'" "reps' = reps[0 := rep3\<lparr>r_pid := pid\<rparr>]"
proof -
  obtain k2 rep2 where s2: "initReplica k (reps ! 0) name prio = (k2, rep2)" by fastforce
  obtain k3 rep3 where s3: "for_upto pc (createPipe ext) (k2, rep2) = (k3, rep3)" by fastforce
  define argv where "argv = [case r_name rep3 of None \<Rightarrow> [] | Some n \<Rightarrow> n, show_int (r_priority rep3),
    show_int (int (r_pipe_count rep3))]"
  obtain k4 p where s4: "forkSingle k3 argv = (k4, p)" by fastforce
  obtain k5 pid ret where s5: "acceptSendFDS k4 sd p (r_rep_pipes rep3) (r_pipe_count rep3) = (k5, pid, ret)"
    by (metis prod_cases3)
  have i: "initReplicas k reps 0 1 name prio = (k2, reps[0 := rep2])"
    using s2 initReplicas_1 [of k reps 0] by simp
  have c: "createPipes k2 (reps[0 := rep2]) 0 1 ext pc = (k3, reps[0 := rep3])"
    using s3 createPipes_1 [of k2 "reps[0 := rep2]" 0] assms(2) by simp
  have f: "forkReplicas k3 (reps[0 := rep3]) 1 [] = (k4, reps[0 := rep3\<lparr>r_pid := p\<rparr>])"
    using s4 assms(2) by (simp add: forkReplicas_def for_upto_def argv_def)
  have "acceptReplicas k4 (reps[0 := rep3\<lparr>r_pid := p\<rparr>]) sd [0..<1] = Some (k', reps')"
    using assms(1) unfolding startReplicas_def Let_def i c f prod.case .
  then have "k' = k5" "reps' = reps[0 := rep3\<lparr>r_pid := pid\<rparr>]"
    using s5 assms(2) by (auto split: if_splits)
  moreover have "\<forall>f. os_lookup k5 f = os_lookup k3 f"
    using forkSingle_frame [OF s4] acceptSendFDS_frame(1) [OF s5] by simp
  moreover have "pipes_kept k3 k5"
    using forkSingle_frame [OF s4] acceptSendFDS_frame(2) [OF s5] pipes_kept_trans by blast
  ultimately show thesis using that [OF s2 s3] by simp
qed

lemma cold_restart_rebuilt:
  assumes ok: "reps_ok k ext pc 1 reps" and apart: "ext_apart k ext pc 1 reps"
    and run: "startReplicas (cleanupReplica k reps 0) reps 1 sd name ext pc prio = Some (k', reps')"
  shows "rebuilt ext pc 1 0 k reps k' reps'"
proof -
  have len: "0 < length reps" using ok by (auto simp: reps_ok_def)
  have pos: "\<forall>f \<in> rep_fds (reps ! 0). 0 < f" using rep_fds_owner [OF ok] by simp
  note k1 = cleanupReplica_spec [OF pos, of k]
  from startReplicas_1 [OF run len] obtain k2 rep2 k3 rep3 pid where
    s: "initReplica (cleanupReplica k reps 0) (reps ! 0) name prio = (k2, rep2)"
      "for_upto pc (createPipe ext) (k2, rep2) = (k3, rep3)"
      "\<forall>f. os_lookup k' f = os_lookup k3 f" "pipes_kept k3 k'" "reps' = reps[0 := rep3\<lparr>r_pid := pid\<rparr>]" .
  have sh: "rep_shape (reps ! 0)" "r_pipe_count (reps ! 0) = pc" using reps_okD(2,3) [OF ok] by simp_all
  note i = initReplica_spec [OF sh(1) s(1), unfolded sh(2)]
  show ?thesis
  proof (rule rebuild [OF ok apart _ _ _ i(3,5,4) s(2)])
    show "os_lookup k2 g = (if g \<in> rep_fds (reps ! 0) then None else os_lookup k g)" for g
      using i(2) k1(1) by simp
    show "pipes_kept k k2" using i(1) k1(2) pipes_kept_trans by blast
    show "same_pipes rep3 (reps' ! 0)" using s(5) len by (simp add: same_pipes_def)
  qed (use s len in simp_all)
qed

end
