(* ===== verification/Voter.thy ===== *)
theory Voter imports Replicas begin

text \<open>
  The voter (\<open>voter/voterd.c\<close>): it feeds every replica of a controller with the same input, buffers
  what the replicas write, forwards it once they agree, and replaces a replica that disagrees or
  falls behind. The globals of the program are the record \<open>voter\<close>; the functions take and return
  it with the kernel. \<open>None\<close> is the end of the process by \<open>exit\<close> (in \<open>startReplicas\<close>) or an access
  through an uninitialised pointer (in the parsing of arguments). The measurement code under
  \<open>TIME_RESTART_REPLICA\<close>, \<open>TIME_WAITPID\<close> and \<open>PIPE_SMASH\<close> is switched off in \<open>bench_config.h\<close> and
  not part of the model.
\<close>

section \<open>State\<close>

record voter =
  v_timeout :: int
  v_timer_start :: nat
  v_timer_stop :: nat
  v_timer_started :: bool
  v_watchdog :: timestamp
  v_last_dead :: pid
  v_reps :: "replica list"
  v_priority :: int
  v_rep_priority :: int
  v_sd :: server_data
  v_rep_type :: replication_t
  v_rep_count :: nat
  v_name :: string
  v_pipe_count :: nat
  v_ext :: "vote_pipe list"

abbreviation PERIOD_USEC :: int where "PERIOD_USEC \<equiv> 120"
abbreviation VOTER_PRIO_OFFSET :: int where "VOTER_PRIO_OFFSET \<equiv> 5"
abbreviation CPU_MHZ :: "'d fp \<Rightarrow> 'd" where "CPU_MHZ F \<equiv> f_lit F 3092"
abbreviation DEFAULT_CPU :: nat where "DEFAULT_CPU \<equiv> 1"

section \<open>Input side\<close>

text \<open>\<open>writeBuffer\<close>: the results of the \<open>write\<close> are only reported.\<close>

definition writeBuffer :: "os \<Rightarrow> fd \<Rightarrow> byte list \<Rightarrow> int \<Rightarrow> os" where
  "writeBuffer k fd_o buf n = fst (os_write k fd_o buf n)"

definition processData :: "os \<Rightarrow> voter \<Rightarrow> nat \<Rightarrow> os \<times> voter" where
  "processData k v pipe_index =
     (let (k1, v1) =
            (if pipe_index = v_timer_start v \<and> \<not> v_timer_started v then
               (let (k', t) = generate_timestamp k in
                (k', v\<lparr>v_timer_started := True, v_watchdog := t\<rparr>))
             else (k, v));
          (k2, reps) = balanceReps k1 (v_reps v1) (v_rep_count v1) (v_rep_priority v1);
          pipe = v_ext v1 ! pipe_index;
          k3 = for_upto (v_rep_count v1) (\<lambda>r k.
                 writeBuffer k (fd_out (vot reps r pipe_index)) (buffer pipe) (buff_count pipe)) k2 in
      (k3, v1\<lparr>v_reps := reps\<rparr>))"

section \<open>Output side\<close>

definition send_step :: "nat \<Rightarrow> nat \<Rightarrow> fd \<Rightarrow> int \<Rightarrow> nat \<Rightarrow> os \<times> replica list \<Rightarrow> os \<times> replica list" where
  "send_step pipe_num replica_num out n r = (\<lambda>(k, reps).
     if replica_num = r then
       (case buffToPipe k (vot reps r pipe_num) out n of
          (k1, p1, _) \<Rightarrow> (k1, set_vot reps r pipe_num p1))
     else (k, set_vot reps r pipe_num (fakeToPipe (vot reps r pipe_num) n)))"

definition sendPipe :: "os \<Rightarrow> voter \<Rightarrow> nat \<Rightarrow> nat \<Rightarrow> os \<times> voter" where
  "sendPipe k v pipe_num replica_num =
     (let bytes_avail = bytesReady (v_reps v) (v_rep_count v) pipe_num in
      if bytes_avail = 0 then (k, v)
      else
        (let v1 = (if pipe_num = v_timer_stop v then v\<lparr>v_timer_started := False\<rparr> else v);
             (k1, reps) = for_upto (v_rep_count v1)
               (send_step pipe_num replica_num (fd_out (v_ext v1 ! pipe_num)) bytes_avail) (k, v_reps v1) in
         (k1, v1\<lparr>v_reps := reps\<rparr>)))"

section \<open>Restart\<close>

text \<open>
  \<open>stealPipes\<close>: per pipe the bytes read and the count, which is -1 for a failed read. The set is
  polled once, before the reads.
\<close>

definition steal_step :: "replica \<Rightarrow> fd list \<Rightarrow> nat \<Rightarrow> os \<times> (byte list \<times> int) list \<Rightarrow>
    os \<times> (byte list \<times> int) list" where
  "steal_step rep ready i = (\<lambda>(k, bufs).
     if r_in_copy rep ! i \<in> set ready then
       (case os_read k (r_in_copy rep ! i) (nat MAX_VOTE_PIPE_BUFF) of
          (k1, None) \<Rightarrow> (k1, bufs[i := ([], - 1)])
        | (k1, Some bs) \<Rightarrow> (k1, bufs[i := (bs, int (length bs))]))
     else (k, bufs))"

definition stealPipes :: "os \<Rightarrow> replica \<Rightarrow> os \<times> (byte list \<times> int) list" where
  "stealPipes k rep =
     (let ready = os_select k (filter (\<lambda>fd. fd \<noteq> 0) (map (\<lambda>i. r_in_copy rep ! i) [0..<r_pipe_count rep])) in
      for_upto (r_pipe_count rep) (steal_step rep ready) (k, replicate PIPE_LIMIT ([], 0)))"

definition returnPipes :: "os \<Rightarrow> replica \<Rightarrow> (byte list \<times> int) list \<Rightarrow> os" where
  "returnPipes k rep bufs =
     for_upto (r_pipe_count rep) (\<lambda>i k.
       if snd (bufs ! i) > 0
       then writeBuffer k (fd_out (r_vot_pipes rep ! i)) (fst (bufs ! i)) (snd (bufs ! i)) else k) k"

definition copy_and_send :: "nat \<Rightarrow> nat \<Rightarrow> nat \<Rightarrow> os \<times> voter \<Rightarrow> os \<times> voter" where
  "copy_and_send restartee restarter i = (\<lambda>(k, v).
     if fd_in (vot (v_reps v) restarter i) \<noteq> 0 then
       (let d = copyPipe (vot (v_reps v) restartee i) (vot (v_reps v) restarter i) in
        sendPipe k (v\<lparr>v_reps := set_vot (v_reps v) restartee i d\<rparr>) i restarter)
     else (k, v))"

definition restart_prep :: "os \<Rightarrow> voter \<Rightarrow> nat \<Rightarrow> nat \<Rightarrow> os \<times> voter" where
  "restart_prep k v restartee restarter =
     (let (k1, bufs) = stealPipes k (v_reps v ! restarter);
          v1 = v\<lparr>v_timer_started := False\<rparr>;
          (k2, reps) = restartReplica k1 (v_reps v1) (v_rep_count v1) (v_sd v1) (v_ext v1) restarter
             restartee (v_rep_priority v1);
          (k3, v3) = for_upto (r_pipe_count (reps ! restarter)) (copy_and_send restartee restarter)
             (k2, v1\<lparr>v_reps := reps\<rparr>);
          k4 = returnPipes k3 (v_reps v3 ! restartee) bufs;
          k5 = returnPipes k4 (v_reps v3 ! restarter) bufs in
      (k5, v3))"

definition voterRestartHandler :: "os \<Rightarrow> voter \<Rightarrow> (os \<times> voter) option" where
  "voterRestartHandler k v =
     (case v_rep_type v of
        SMR \<Rightarrow>
          (let v1 = v\<lparr>v_last_dead := r_pid (v_reps v ! 0)\<rparr>;
               k1 = cleanupReplica k (v_reps v1) 0 in
           case startReplicas k1 (v_reps v1) (v_rep_count v1) (v_sd v1) (v_name v1) (v_ext v1)
                  (v_pipe_count v1) (v_rep_priority v1) of
             None \<Rightarrow> None
           | Some (k2, reps) \<Rightarrow>
               Some (for_upto (v_pipe_count v1) (\<lambda>p (k, v).
                       if fd_in (v_ext v ! p) \<noteq> 0 then processData k v p else (k, v))
                     (k2, v1\<lparr>v_reps := reps\<rparr>)))
      | DMR \<Rightarrow>
          (let restartee = behindRep (v_reps v) (v_rep_count v) (v_timer_stop v);
               restarter = (restartee + (v_rep_count v - 1)) mod v_rep_count v in
           Some (restart_prep k v restartee restarter))
      | TMR \<Rightarrow>
          (let restartee = behindRep (v_reps v) (v_rep_count v) (v_timer_stop v);
               restarter = (restartee + (v_rep_count v - 1)) mod v_rep_count v in
           Some (restart_prep k v restartee restarter))
      | _ \<Rightarrow> Some (k, v))"

section \<open>Voting\<close>

text \<open>
  The loop of \<open>checkSDC\<close> under TMR, over the indices that remain: the first replica that agrees with
  its successor decides.
\<close>

fun tmr_vote :: "os \<Rightarrow> voter \<Rightarrow> nat \<Rightarrow> int \<Rightarrow> nat list \<Rightarrow> os \<times> voter" where
  "tmr_vote k v pipe_num n [] = (k, v)"
| "tmr_vote k v pipe_num n (r # rs) =
     (let reps = v_reps v; c = v_rep_count v in
      if compareBuffs (vot reps r pipe_num) (vot reps ((r + 1) mod c) pipe_num) n = 0 then
        (if compareBuffs (vot reps r pipe_num) (vot reps ((r + 2) mod c) pipe_num) n \<noteq> 0
         then restart_prep k v ((r + 2) mod c) r
         else sendPipe k v pipe_num r)
      else tmr_vote k v pipe_num n rs)"

definition checkSDC :: "os \<Rightarrow> voter \<Rightarrow> nat \<Rightarrow> os \<times> voter" where
  "checkSDC k v pipe_num =
     (let bytes_avail = bytesReady (v_reps v) (v_rep_count v) pipe_num in
      if bytes_avail = 0 then (k, v)
      else (case v_rep_type v of
              SMR \<Rightarrow> sendPipe k v pipe_num 0
            | DMR \<Rightarrow> sendPipe k v pipe_num 0
            | TMR \<Rightarrow> tmr_vote k v pipe_num bytes_avail [0..<v_rep_count v]
            | _ \<Rightarrow> (k, v)))"

definition processFromRep :: "os \<Rightarrow> voter \<Rightarrow> nat \<Rightarrow> nat \<Rightarrow> os \<times> voter" where
  "processFromRep k v replica_num pipe_num =
     (case pipeToBuff k (vot (v_reps v) replica_num pipe_num) of
        (k1, p1, r) \<Rightarrow>
          (let reps1 = set_vot (v_reps v) replica_num pipe_num p1;
               v1 = v\<lparr>v_reps := reps1\<rparr> in
           if r = 0 then
             (let (k2, reps2) = balanceReps k1 reps1 (v_rep_count v) (v_rep_priority v) in
              checkSDC k2 (v1\<lparr>v_reps := reps2\<rparr>) pipe_num)
           else (k1, v1)))"

definition checkSync :: "voter \<Rightarrow> bool" where
  "checkSync v =
     for_upto (v_pipe_count v) (\<lambda>p nsync.
       fold (\<lambda>r nsync. if buff_count (vot (v_reps v) 0 p) \<noteq> buff_count (vot (v_reps v) r p)
                       then False else nsync) [1..<v_rep_count v] nsync) True"

section \<open>The loop\<close>

definition readExternal :: "fd list \<Rightarrow> nat \<Rightarrow> os \<times> voter \<Rightarrow> os \<times> voter" where
  "readExternal ready p = (\<lambda>(k, v).
     let read_fd = fd_in (v_ext v ! p) in
     if read_fd \<noteq> 0 \<and> read_fd \<in> set ready then
       (case os_read k read_fd (nat MAX_VOTE_PIPE_BUFF) of
          (k1, None) \<Rightarrow> (k1, v\<lparr>v_ext := (v_ext v)[p := (v_ext v ! p)\<lparr>buff_count := - 1\<rparr>]\<rparr>)
        | (k1, Some bs) \<Rightarrow>
            (let v1 = v\<lparr>v_ext := (v_ext v)[p := (v_ext v ! p)
                   \<lparr>buff_count := int (length bs),
                    buffer := memcpy (buffer (v_ext v ! p)) 0 bs 0 (length bs)\<rparr>]\<rparr> in
             if int (length bs) > 0 then processData k1 v1 p else (k1, v1)))
     else (k, v))"

definition readReplica :: "fd list \<Rightarrow> nat \<Rightarrow> nat \<Rightarrow> os \<times> voter \<Rightarrow> os \<times> voter" where
  "readReplica ready p r = (\<lambda>(k, v).
     let curr_fd = fd_in (vot (v_reps v) r p) in
     if curr_fd \<noteq> 0 \<and> curr_fd \<in> set ready then processFromRep k v r p else (k, v))"

definition select_set :: "voter \<Rightarrow> bool \<Rightarrow> fd list" where
  "select_set v check_inputs =
     (if check_inputs then filter (\<lambda>fd. fd \<noteq> 0) (map (\<lambda>p. fd_in (v_ext v ! p)) [0..<v_pipe_count v])
      else []) @
     filter (\<lambda>fd. fd \<noteq> 0) (concat (map (\<lambda>p. map (\<lambda>r. fd_in (vot (v_reps v) r p)) [0..<v_rep_count v])
       [0..<v_pipe_count v]))"

text \<open>The part of \<open>doOneUpdate\<close> before the descriptors are collected: dead children and the timer.\<close>

definition checkDead :: "os \<Rightarrow> voter \<Rightarrow> (os \<times> voter) option" where
  "checkDead k v =
     (if v_rep_type v = SMR then
        (let (k1, exit_pid) = os_waitpid_nohang k in
         if exit_pid > 0 \<and> exit_pid \<noteq> v_last_dead v
         then map_option (\<lambda>(k', v'). (k', v'\<lparr>v_timer_started := False\<rparr>)) (voterRestartHandler k1 v)
         else Some (k1, v))
      else Some (k, v))"

definition checkTimer :: "'d fp \<Rightarrow> os \<Rightarrow> voter \<Rightarrow> (os \<times> voter) option" where
  "checkTimer F k v =
     (if v_timer_started v then
        (let (k1, current) = generate_timestamp k;
             remaining = f_trunc F (f_sub F (f_of_int F (v_timeout v))
                           (diff_time F current (v_watchdog v) (CPU_MHZ F))) in
         if remaining > 0 then Some (k1, v) else voterRestartHandler k1 v)
      else Some (k, v))"

text \<open>
  \<open>doOneUpdate\<close>; \<open>env\<close> is what the replicas and the other components do to the pipes while the voter
  waits in \<open>select\<close>.
\<close>

definition doOneUpdate :: "'d fp \<Rightarrow> (os \<Rightarrow> os) \<Rightarrow> os \<Rightarrow> voter \<Rightarrow> (os \<times> voter) option" where
  "doOneUpdate F env k v =
     (case checkDead k v of
        None \<Rightarrow> None
      | Some (k1, v1) \<Rightarrow>
          (case checkTimer F k1 v1 of
             None \<Rightarrow> None
           | Some (k2, v2) \<Rightarrow>
               (let check_inputs = checkSync v2;
                    (k3, v3) =
                      (if \<not> check_inputs \<and> v_priority v2 < 5 \<and> \<not> v_timer_started v2 then
                         (let (k', t) = generate_timestamp k2 in
                          (k', v2\<lparr>v_timer_started := True, v_watchdog := t\<rparr>))
                       else (k2, v2));
                    k4 = env k3;
                    ready = os_select k4 (select_set v3 check_inputs) in
                if ready \<noteq> [] then
                  (let s1 = for_upto (v_pipe_count v3) (readExternal ready) (k4, v3) in
                   Some (for_upto (v_pipe_count v3) (\<lambda>p.
                          for_upto (v_rep_count v3) (readReplica ready p)) s1))
                else Some (k4, v3))))"

section \<open>Start\<close>

text \<open>\<open>parsePipe\<close>: fewer than four conversions leave variables uninitialised: \<open>None\<close>.\<close>

definition parsePipe :: "string \<Rightarrow> vote_pipe \<Rightarrow> vote_pipe option" where
  "parsePipe serial pipe =
     (case scan_not_colon serial of
        None \<Rightarrow> None
      | Some (info, s1) \<Rightarrow>
          (case scan_colon_int s1 of
             None \<Rightarrow> None
           | Some (i, s2) \<Rightarrow>
               (case scan_colon_int s2 of
                  None \<Rightarrow> None
                | Some (ou, s3) \<Rightarrow>
                    (case scan_colon_int s3 of
                       None \<Rightarrow> None
                     | Some (t, _) \<Rightarrow>
                         Some (pipe\<lparr>rep_info := info, fd_in := i, fd_out := ou, timed := (t \<noteq> 0)\<rparr>)))))"

fun parsePipes :: "string list \<Rightarrow> voter \<Rightarrow> voter option" where
  "parsePipes [] v = Some v"
| "parsePipes (a # as) v =
     (case parsePipe a (v_ext v ! v_pipe_count v) of
        None \<Rightarrow> None
      | Some p \<Rightarrow> parsePipes as (v\<lparr>v_ext := (v_ext v)[v_pipe_count v := p],
                                   v_pipe_count := v_pipe_count v + 1\<rparr>))"

definition set_timers :: "voter \<Rightarrow> voter" where
  "set_timers v =
     for_upto (v_pipe_count v) (\<lambda>i v.
       if timed (v_ext v ! i) then
         (if fd_in (v_ext v ! i) \<noteq> 0 then v\<lparr>v_timer_start := i\<rparr> else v\<lparr>v_timer_stop := i\<rparr>)
       else v) v"

text \<open>
  \<open>parseArgs\<close>: the four fixed arguments are read before \<open>argc\<close> is checked, so a shorter argument
  vector is read past its end and the usage message is never reached.
\<close>

definition parseArgs :: "string list \<Rightarrow> voter \<Rightarrow> voter option" where
  "parseArgs argv v =
     (if length argv < 5 then None
      else
        (let rt = reptypeToEnum (argv ! 2);
             t = atoi (argv ! 3);
             v1 = v\<lparr>v_name := argv ! 1, v_rep_type := rt, v_rep_count := nat (reptypeToCount rt),
                    v_timeout := (if t = 0 then PERIOD_USEC else t), v_priority := atoi (argv ! 4)\<rparr> in
         map_option set_timers (parsePipes (take PIPE_LIMIT (drop 5 argv)) v1)))"

text \<open>The reads of no bytes that \<open>initVoterD\<close> does for the page faults: they set the counts.\<close>

definition probe :: "os \<Rightarrow> vote_pipe \<Rightarrow> vote_pipe" where
  "probe k p =
     (if fd_in p \<noteq> 0 then p\<lparr>buff_count := (case os_read k (fd_in p) 0 of (_, None) \<Rightarrow> - 1 | (_, Some bs) \<Rightarrow> int (length bs))\<rparr>
      else p)"

definition initVoterD :: "(pid \<Rightarrow> nat set \<Rightarrow> bool) \<Rightarrow> bool \<Rightarrow> string list option \<Rightarrow> pid \<Rightarrow>
    bool \<Rightarrow> bool \<Rightarrow> os \<Rightarrow> voter \<Rightarrow> (os \<times> voter) option" where
  "initVoterD setaffinity mlockall_ok mapsfile self bind_ok listen_ok k v =
     (let v1 = v\<lparr>v_rep_priority := v_priority v - VOTER_PRIO_OFFSET\<rparr>;
          (k1, sd, _) = createFDS bind_ok listen_ok k (v_sd v1) (v_name v1);
          v2 = v1\<lparr>v_sd := sd\<rparr> in
      case startReplicas k1 (v_reps v2) (v_rep_count v2) sd (v_name v2) (v_ext v2) (v_pipe_count v2)
             (v_rep_priority v2) of
        None \<Rightarrow> None
      | Some (k2, reps) \<Rightarrow>
          (case InitTAS setaffinity mlockall_ok mapsfile self k2 DEFAULT_CPU (v_priority v2) of
             None \<Rightarrow> None
           | Some (k3, _, _, _) \<Rightarrow>
               (let ext = for_upto (v_pipe_count v2) (\<lambda>p e. e[p := probe k3 (e ! p)]) (v_ext v2);
                    reps' = for_upto (v_rep_count v2) (\<lambda>r reps.
                      for_upto (r_pipe_count (reps ! r)) (\<lambda>p reps.
                        set_vot reps r p (probe k3 (vot reps r p))) reps) reps in
                Some (k3, v2\<lparr>v_ext := ext, v_reps := reps'\<rparr>))))"

text \<open>While the voter waits, the others read and write pipes; its descriptors are its own.\<close>

definition env_ok :: "(os \<Rightarrow> os) \<Rightarrow> bool" where
  "env_ok env \<longleftrightarrow> (\<forall>k. fds_kept k (env k))"

text \<open>
  \<open>main\<close>: the states that the infinite loop passes through, for any behaviour of the environment.
\<close>

inductive voter_reaches :: "'d fp \<Rightarrow> os \<times> voter \<Rightarrow> os \<times> voter \<Rightarrow> bool" for F where
  start: "voter_reaches F s s"
| update: "voter_reaches F s (k, v) \<Longrightarrow> env_ok env \<Longrightarrow> doOneUpdate F env k v = Some s' \<Longrightarrow>
    voter_reaches F s s'"

section \<open>The invariant of the voter\<close>

text \<open>
  \<open>lockstep\<close>: the replicas' rings for one output pipe are read from the same position, which is what
  makes the comparison of the buffers meaningful.
\<close>

definition lockstep :: "vote_pipe list \<Rightarrow> nat \<Rightarrow> nat \<Rightarrow> replica list \<Rightarrow> bool" where
  "lockstep ext pc num reps \<longleftrightarrow>
     (\<forall>p < pc. fd_in (ext ! p) = 0 \<longrightarrow> (\<forall>r < num. buff_index (vot reps r p) = buff_index (vot reps 0 p)))"

definition rep_count_ok :: "voter \<Rightarrow> bool" where
  "rep_count_ok v \<longleftrightarrow> v_rep_type v \<in> {SMR, DMR, TMR} \<and> v_rep_count v = nat (reptypeToCount (v_rep_type v))"

definition voter_inv :: "os \<Rightarrow> voter \<Rightarrow> bool" where
  "voter_inv k v \<longleftrightarrow> reps_ok k (v_ext v) (v_pipe_count v) (v_rep_count v) (v_reps v) \<and>
     ext_apart k (v_ext v) (v_pipe_count v) (v_rep_count v) (v_reps v) \<and>
     lockstep (v_ext v) (v_pipe_count v) (v_rep_count v) (v_reps v) \<and>
     rep_count_ok v \<and>
     length (v_ext v) = PIPE_LIMIT \<and> (\<forall>p < v_pipe_count v. length (buffer (v_ext v ! p)) = 4096)"

text \<open>What no step changes: the configuration of the voter and the ends of its external pipes.\<close>

definition cfg_kept :: "voter \<Rightarrow> voter \<Rightarrow> bool" where
  "cfg_kept v v' \<longleftrightarrow> v_pipe_count v' = v_pipe_count v \<and> v_rep_count v' = v_rep_count v \<and>
     v_rep_type v' = v_rep_type v \<and> v_timer_start v' = v_timer_start v \<and> v_timer_stop v' = v_timer_stop v \<and>
     length (v_ext v') = length (v_ext v) \<and>
     (\<forall>p < v_pipe_count v. fd_in (v_ext v' ! p) = fd_in (v_ext v ! p) \<and>
        fd_out (v_ext v' ! p) = fd_out (v_ext v ! p) \<and>
        length (buffer (v_ext v' ! p)) = length (buffer (v_ext v ! p)))"

lemma cfg_kept_refl [simp]: "cfg_kept v v"
  by (simp add: cfg_kept_def)

lemma cfg_kept_trans: "cfg_kept a b \<Longrightarrow> cfg_kept b c \<Longrightarrow> cfg_kept a c"
  by (simp add: cfg_kept_def)

lemma cfg_kept_simps [simp]:
  "cfg_kept v (v'\<lparr>v_reps := r\<rparr>) = cfg_kept v v'" "cfg_kept v (v'\<lparr>v_timer_started := t\<rparr>) = cfg_kept v v'"
  "cfg_kept v (v'\<lparr>v_watchdog := w\<rparr>) = cfg_kept v v'" "cfg_kept v (v'\<lparr>v_last_dead := d\<rparr>) = cfg_kept v v'"
  by (simp_all add: cfg_kept_def)

text \<open>
  \<open>quiet k v k' v'\<close>: no descriptor was opened or closed and only rings, priorities and timers
  changed. Such a step keeps everything of the invariant but, possibly, the state of the rings.
\<close>

definition quiet :: "os \<Rightarrow> voter \<Rightarrow> os \<Rightarrow> voter \<Rightarrow> bool" where
  "quiet k v k' v' \<longleftrightarrow> fds_kept k k' \<and> cfg_kept v v' \<and> length (v_reps v') = length (v_reps v) \<and>
     (\<forall>i < v_rep_count v. ends_kept (v_reps v ! i) (v_reps v' ! i))"

lemma quiet_trans: "quiet a u b v \<Longrightarrow> quiet b v c w \<Longrightarrow> quiet a u c w"
  unfolding quiet_def using fds_kept_trans cfg_kept_trans ends_kept_trans
  by (smt (verit) cfg_kept_def)

lemma quiet_refl [simp]: "quiet k v k v"
  by (simp add: quiet_def)

definition rings_ok :: "voter \<Rightarrow> bool" where
  "rings_ok v \<longleftrightarrow> (\<forall>i < v_rep_count v. \<forall>p < PIPE_LIMIT. wf_vp (vot (v_reps v) i p)) \<and>
     lockstep (v_ext v) (v_pipe_count v) (v_rep_count v) (v_reps v)"

lemma voter_inv_rings: "voter_inv k v \<Longrightarrow> rings_ok v"
  by (auto simp: voter_inv_def rings_ok_def reps_ok_def rep_ok_def wf_simps)

text \<open>The invariant without the positions of the rings, which a restart resets for a while.\<close>

definition voter_wired :: "os \<Rightarrow> voter \<Rightarrow> bool" where
  "voter_wired k v \<longleftrightarrow> reps_ok k (v_ext v) (v_pipe_count v) (v_rep_count v) (v_reps v) \<and>
     ext_apart k (v_ext v) (v_pipe_count v) (v_rep_count v) (v_reps v) \<and> rep_count_ok v \<and>
     length (v_ext v) = PIPE_LIMIT \<and> (\<forall>p < v_pipe_count v. length (buffer (v_ext v ! p)) = 4096)"

lemma voter_inv_wired:
  "voter_inv k v \<longleftrightarrow> voter_wired k v \<and> lockstep (v_ext v) (v_pipe_count v) (v_rep_count v) (v_reps v)"
  by (auto simp: voter_inv_def voter_wired_def)

lemma voter_wired_quiet:
  assumes "voter_wired k v" "quiet k v k' v'" "\<forall>i < v_rep_count v. \<forall>p < PIPE_LIMIT. wf_vp (vot (v_reps v') i p)"
  shows "voter_wired k' v'"
proof -
  have c: "v_pipe_count v' = v_pipe_count v" "v_rep_count v' = v_rep_count v" "v_rep_type v' = v_rep_type v"
    "length (v_ext v') = length (v_ext v)"
    and ext: "\<forall>p < v_pipe_count v. fd_in (v_ext v' ! p) = fd_in (v_ext v ! p) \<and> fd_out (v_ext v' ! p) = fd_out (v_ext v ! p) \<and>
        length (buffer (v_ext v' ! p)) = length (buffer (v_ext v ! p))"
    and q: "fds_kept k k'" "length (v_reps v') = length (v_reps v)" "\<forall>i < v_rep_count v. ends_kept (v_reps v ! i) (v_reps v' ! i)"
    using assms(2) by (simp_all add: quiet_def cfg_kept_def)
  have ok: "reps_ok k (v_ext v) (v_pipe_count v) (v_rep_count v) (v_reps v)"
    "ext_apart k (v_ext v) (v_pipe_count v) (v_rep_count v) (v_reps v)"
    using assms(1) by (simp_all add: voter_wired_def)
  note K = reps_ok_kept [OF ok(1) q assms(3), of "v_ext v'"]
  have "ext_apart k' (v_ext v') (v_pipe_count v) (v_rep_count v) (v_reps v')"
    using ext_apart_kept [OF ok(2) q(1) K(2)] ext by simp
  then show ?thesis
    using K(1) ext c assms(1) by (simp add: voter_wired_def rep_count_ok_def)
qed

lemma voter_inv_quiet:
  assumes "voter_inv k v" "quiet k v k' v'" "rings_ok v'"
  shows "voter_inv k' v'"
proof -
  have "v_rep_count v' = v_rep_count v" using assms(2) by (simp add: quiet_def cfg_kept_def)
  then show ?thesis
    using voter_wired_quiet [OF _ assms(2)] assms(1,3) by (simp add: voter_inv_wired rings_ok_def)
qed

section \<open>What sending does\<close>

lemma send_loop:
  assumes "\<forall>i < num. wf_vp (vot reps i p) \<and> n \<le> buff_count (vot reps i p)" "0 \<le> n" "m \<le> num" "num \<le> length reps"
  shows "case for_upto m (send_step p r out n) (k, reps) of (k', reps') \<Rightarrow>
    k' = (if r < m then fst (os_write k out (take (nat n) (vp_contents (vot reps r p))) n) else k) \<and>
    length reps' = length reps \<and>
    (\<forall>i < length reps. reps' ! i = (if i < m then (reps ! i)\<lparr>r_vot_pipes := (r_vot_pipes (reps ! i))
       [p := fakeToPipe (vot reps i p) n]\<rparr> else reps ! i))"
  using assms(3)
proof (induction m)
  case (Suc m)
  obtain k' reps' where s: "for_upto m (send_step p r out n) (k, reps) = (k', reps')" by fastforce
  then have I: "k' = (if r < m then fst (os_write k out (take (nat n) (vp_contents (vot reps r p))) n) else k)"
    "length reps' = length reps" "\<forall>i < length reps. reps' ! i = (if i < m then (reps ! i)\<lparr>r_vot_pipes := (r_vot_pipes (reps ! i))
       [p := fakeToPipe (vot reps i p) n]\<rparr> else reps ! i)"
    using Suc by auto
  have m: "m < length reps" "reps' ! m = reps ! m" using I(3) Suc.prems assms(4) by auto
  have "buffToPipe k' (vot reps m p) out n =
      (fst (os_write k' out (take (nat n) (vp_contents (vot reps m p))) n), fakeToPipe (vot reps m p) n, 0)"
    using assms(1,2) Suc.prems by (intro buffToPipe_queue) auto
  then have "send_step p r out n m (k', reps') =
      (if r = m then fst (os_write k' out (take (nat n) (vp_contents (vot reps m p))) n) else k',
       set_vot reps' m p (fakeToPipe (vot reps m p) n))"
    using m(2) by (simp add: send_step_def)
  then show ?case
    using I m by (auto simp: for_upto_Suc s less_Suc_eq set_vot_def nth_list_update)
qed simp

lemma bytesReady_nonneg:
  "\<forall>i < num. wf_vp (vot reps i p) \<Longrightarrow> 0 \<le> bytesReady reps num p"
  by (rule bytesReady_ge) (simp_all add: wf_simps)

lemma sendPipe_spec:
  assumes wf: "\<forall>i < v_rep_count v. wf_vp (vot (v_reps v) i p)" and len: "v_rep_count v \<le> length (v_reps v)"
    and r: "r < v_rep_count v" and run: "sendPipe k v p r = (k', v')"
  defines "n \<equiv> bytesReady (v_reps v) (v_rep_count v) p"
  shows "0 \<le> n" "\<forall>i < v_rep_count v. n \<le> buff_count (vot (v_reps v) i p)"
    "k' = (if n = 0 then k else fst (os_write k (fd_out (v_ext v ! p)) (take (nat n) (vp_contents (vot (v_reps v) r p))) n))"
    "length (v_reps v') = length (v_reps v)" "cfg_kept v v'" "v_ext v' = v_ext v"
    "\<forall>i < length (v_reps v). v_reps v' ! i = (if i < v_rep_count v \<and> n \<noteq> 0 then (v_reps v ! i)
       \<lparr>r_vot_pipes := (r_vot_pipes (v_reps v ! i))[p := fakeToPipe (vot (v_reps v) i p) n]\<rparr> else v_reps v ! i)"
proof -
  show n: "0 \<le> n" "\<forall>i < v_rep_count v. n \<le> buff_count (vot (v_reps v) i p)"
    using bytesReady_nonneg [OF wf] bytesReady_le [of "v_reps v" "v_rep_count v" p] by (simp_all add: n_def)
  define v1 where "v1 = (if p = v_timer_stop v then v\<lparr>v_timer_started := False\<rparr> else v)"
  obtain k1 reps where s: "for_upto (v_rep_count v) (send_step p r (fd_out (v_ext v ! p)) n) (k, v_reps v) = (k1, reps)"
    by fastforce
  have e: "(k', v') = (if n = 0 then (k, v) else (k1, v1\<lparr>v_reps := reps\<rparr>))"
    using run s by (cases "p = v_timer_stop v") (auto simp: sendPipe_def n_def v1_def Let_def)
  have "\<forall>i < v_rep_count v. wf_vp (vot (v_reps v) i p) \<and> n \<le> buff_count (vot (v_reps v) i p)"
    using wf n by simp
  note L = send_loop [OF this n(1) order.refl len, where r = r and out = "fd_out (v_ext v ! p)" and k = k,
      unfolded s prod.case]
  show "k' = (if n = 0 then k else fst (os_write k (fd_out (v_ext v ! p)) (take (nat n) (vp_contents (vot (v_reps v) r p))) n))"
    "length (v_reps v') = length (v_reps v)" "cfg_kept v v'" "v_ext v' = v_ext v"
    "\<forall>i < length (v_reps v). v_reps v' ! i = (if i < v_rep_count v \<and> n \<noteq> 0 then (v_reps v ! i)
       \<lparr>r_vot_pipes := (r_vot_pipes (v_reps v ! i))[p := fakeToPipe (vot (v_reps v) i p) n]\<rparr> else v_reps v ! i)"
    using e L r by (auto simp: v1_def split: if_splits)
qed

lemma ends_kept_fake: "ends_kept a (a\<lparr>r_vot_pipes := (r_vot_pipes a)[p := fakeToPipe (r_vot_pipes a ! p) n]\<rparr>)"
  by (rule ends_kept_set_pipe) (simp add: fakeToPipe_def same_ends_def)

lemma rings_ok_wf: "rings_ok v \<Longrightarrow> i < v_rep_count v \<Longrightarrow> p < PIPE_LIMIT \<Longrightarrow> wf_vp (vot (v_reps v) i p)"
  by (simp add: rings_ok_def)

text \<open>
  After a send every ring of the pipe has advanced by the same count, so the rings that were in
  step still are. \<open>in_step\<close> is the statement for one pipe and the replicas of a set.
\<close>

definition in_step :: "nat set \<Rightarrow> nat \<Rightarrow> replica list \<Rightarrow> bool" where
  "in_step R p reps \<longleftrightarrow> (\<forall>r \<in> R. \<forall>r' \<in> R. buff_index (vot reps r p) = buff_index (vot reps r' p))"

lemma lockstep_in_step:
  assumes "0 < num"
  shows "lockstep ext pc num reps \<longleftrightarrow> (\<forall>p < pc. fd_in (ext ! p) = 0 \<longrightarrow> in_step {..<num} p reps)"
proof -
  have "(\<forall>r < num. f r = f 0) \<longleftrightarrow> (\<forall>r \<in> {..<num}. \<forall>r' \<in> {..<num}. f r = f r')" for f :: "nat \<Rightarrow> int"
    using assms by (metis lessThan_iff)
  from this [of "\<lambda>r. buff_index (vot reps r p)" for p] show ?thesis
    unfolding lockstep_def in_step_def by presburger
qed

lemma sendPipe_quiet:
  assumes wf: "\<forall>i < v_rep_count v. \<forall>q < PIPE_LIMIT. wf_vp (vot (v_reps v) i q)"
    and shape: "\<forall>i < v_rep_count v. length (r_vot_pipes (v_reps v ! i)) = PIPE_LIMIT"
    and len: "v_rep_count v \<le> length (v_reps v)"
    and r: "r < v_rep_count v" and p: "p < PIPE_LIMIT" and run: "sendPipe k v p r = (k', v')"
  shows "quiet k v k' v'" "\<forall>i < v_rep_count v. \<forall>q < PIPE_LIMIT. wf_vp (vot (v_reps v') i q)"
    "R \<subseteq> {..<v_rep_count v} \<Longrightarrow> in_step R q (v_reps v) \<Longrightarrow> in_step R q (v_reps v')"
proof -
  have wfp: "\<forall>i < v_rep_count v. wf_vp (vot (v_reps v) i p)" using wf p by blast
  note S = sendPipe_spec [OF wfp len r run]
  let ?n = "bytesReady (v_reps v) (v_rep_count v) p"
  have up: "vot (v_reps v') i q = (if q = p \<and> ?n \<noteq> 0 then fakeToPipe (vot (v_reps v) i p) ?n else vot (v_reps v) i q)"
    if "i < v_rep_count v" "q < PIPE_LIMIT \<or> q \<noteq> p" for i q
    using that S(7) len shape p by (auto simp: nth_list_update)
  have "fds_kept k k'" using S(3) by (simp split: if_splits)
  moreover have "ends_kept (v_reps v ! i) (v_reps v' ! i)" if "i < v_rep_count v" for i
    using that S(7) len ends_kept_fake by (simp split: if_splits)
  ultimately show "quiet k v k' v'" using S(4,5) by (simp add: quiet_def)
  show "\<forall>i < v_rep_count v. \<forall>q < PIPE_LIMIT. wf_vp (vot (v_reps v') i q)"
    using up wf S(1,2) p fakeToPipe_queue(1) by simp
  show "in_step R q (v_reps v')" if "R \<subseteq> {..<v_rep_count v}" "in_step R q (v_reps v)"
  proof -
    have "buff_index (vot (v_reps v') i q) = (if q = p \<and> ?n \<noteq> 0 then (buff_index (vot (v_reps v) i q) + ?n) mod 4096
        else buff_index (vot (v_reps v) i q))" if "i \<in> R" for i
    proof -
      have "i < v_rep_count v" "q < PIPE_LIMIT \<or> q \<noteq> p" using that \<open>R \<subseteq> _\<close> p by auto
      from up [OF this] show ?thesis by (simp add: fakeToPipe_def)
    qed
    note idx = this
    show ?thesis
      unfolding in_step_def
    proof (intro ballI)
      fix a b assume ab: "a \<in> R" "b \<in> R"
      then have "buff_index (vot (v_reps v) a q) = buff_index (vot (v_reps v) b q)"
        using that(2) unfolding in_step_def by blast
      then show "buff_index (vot (v_reps v') a q) = buff_index (vot (v_reps v') b q)"
        unfolding idx [OF ab(1)] idx [OF ab(2)] by (simp only:)
    qed
  qed
qed

section \<open>Steps without a restart keep the invariant\<close>

lemma voter_invD:
  assumes "voter_inv k v"
  shows "v_rep_count v \<le> length (v_reps v)" "v_pipe_count v \<le> PIPE_LIMIT" "0 < v_rep_count v" "v_rep_count v \<le> 3"
    "i < v_rep_count v \<Longrightarrow> rep_shape (v_reps v ! i)" "i < v_rep_count v \<Longrightarrow> r_pipe_count (v_reps v ! i) = v_pipe_count v"
    "i < v_rep_count v \<Longrightarrow> p < PIPE_LIMIT \<Longrightarrow> wf_vp (vot (v_reps v) i p)"
    "i < v_rep_count v \<Longrightarrow> length (r_vot_pipes (v_reps v ! i)) = PIPE_LIMIT"
  using assms by (auto simp: voter_inv_def reps_ok_def rep_ok_def rep_count_ok_def wf_simps)

lemma voter_inv_fds:
  assumes "voter_inv k v" "fds_kept k k'"
  shows "voter_inv k' v"
  using assms voter_inv_quiet [OF assms(1), of k' v] voter_inv_rings by (simp add: quiet_def)

lemma voter_inv_timer [simp]:
  "voter_inv k (v\<lparr>v_timer_started := t\<rparr>) = voter_inv k v" "voter_inv k (v\<lparr>v_watchdog := w\<rparr>) = voter_inv k v"
  "voter_inv k (v\<lparr>v_last_dead := d\<rparr>) = voter_inv k v"
  by (simp_all add: voter_inv_def rep_count_ok_def)

lemma lockstep_cong:
  assumes "lockstep ext pc num reps" "0 < num"
    "\<And>i p. i < num \<Longrightarrow> p < pc \<Longrightarrow> buff_index (vot reps' i p) = buff_index (vot reps i p)"
    "\<And>p. p < pc \<Longrightarrow> fd_in (ext' ! p) = fd_in (ext ! p)"
  shows "lockstep ext' pc num reps'"
  unfolding lockstep_def
proof (intro allI impI)
  fix p r assume "p < pc" "fd_in (ext' ! p) = 0" "r < num"
  moreover from this have "buff_index (vot reps r p) = buff_index (vot reps 0 p)"
    using assms(1,4) unfolding lockstep_def by metis
  ultimately show "buff_index (vot reps' r p) = buff_index (vot reps' 0 p)"
    using assms(2,3) by metis
qed

lemma rings_ok_set:
  assumes "voter_inv k v"
    "\<And>i p. i < v_rep_count v \<Longrightarrow> p < PIPE_LIMIT \<Longrightarrow> buff_index (vot reps i p) = buff_index (vot (v_reps v) i p)"
    "\<And>i p. i < v_rep_count v \<Longrightarrow> p < PIPE_LIMIT \<Longrightarrow> wf_vp (vot reps i p)"
  shows "rings_ok (v\<lparr>v_reps := reps\<rparr>)"
proof -
  have "lockstep (v_ext v) (v_pipe_count v) (v_rep_count v) (v_reps v)"
    using voter_inv_rings [OF assms(1)] by (simp add: rings_ok_def)
  then have "lockstep (v_ext v) (v_pipe_count v) (v_rep_count v) reps"
    using lockstep_cong [OF _ voter_invD(3) [OF assms(1)]] assms(2) voter_invD(2) [OF assms(1)] by fastforce
  then show ?thesis using assms(3) by (simp add: rings_ok_def)
qed

lemma balanceReps_inv:
  assumes "voter_inv k v" "balanceReps k (v_reps v) n d = (k', reps)"
  shows "voter_inv k' (v\<lparr>v_reps := reps\<rparr>)"
proof -
  have p: "prio_step (k, v_reps v) (k', reps)" using balanceReps_step assms(2) by metis
  have po: "prio_only (v_reps v) reps" using prio_stepD(3) [OF p] .
  have vot: "r_vot_pipes (reps ! i) = r_vot_pipes (v_reps v ! i)" if "i < v_rep_count v" for i
    using prio_onlyD(1) [OF po] that voter_invD(1) [OF assms(1)] by simp
  have "quiet k v k' (v\<lparr>v_reps := reps\<rparr>)"
    using fds_kept_prio [OF p] po prio_only_same_pipes [OF po] ends_kept_same_pipes voter_invD(1) [OF assms(1)]
    by (simp add: quiet_def prio_only_def)
  moreover have "rings_ok (v\<lparr>v_reps := reps\<rparr>)"
    by (rule rings_ok_set [OF assms(1)]) (use vot voter_invD(7) [OF assms(1)] in simp_all)
  ultimately show ?thesis using voter_inv_quiet [OF assms(1)] by blast
qed

lemma sendPipe_inv:
  assumes "voter_inv k v" "r < v_rep_count v" "p < PIPE_LIMIT" "sendPipe k v p r = (k', v')"
  shows "voter_inv k' v'" "cfg_kept v v'"
proof -
  have wf: "\<forall>i < v_rep_count v. \<forall>q < PIPE_LIMIT. wf_vp (vot (v_reps v) i q)"
    and shape: "\<forall>i < v_rep_count v. length (r_vot_pipes (v_reps v ! i)) = PIPE_LIMIT"
    using voter_invD [OF assms(1)] by auto
  note Q = sendPipe_quiet [OF wf shape voter_invD(1) [OF assms(1)] assms(2-4)]
  have c: "v_rep_count v' = v_rep_count v" "v_pipe_count v' = v_pipe_count v"
    "\<forall>p < v_pipe_count v. fd_in (v_ext v' ! p) = fd_in (v_ext v ! p)" "cfg_kept v v'"
    using Q(1) by (simp_all add: quiet_def cfg_kept_def)
  have "lockstep (v_ext v') (v_pipe_count v') (v_rep_count v') (v_reps v')"
    unfolding lockstep_in_step [OF voter_invD(3) [OF assms(1)]] c
    using voter_inv_rings [OF assms(1)] c(3) Q(3) [OF order.refl] lockstep_in_step [OF voter_invD(3) [OF assms(1)]]
    by (simp add: rings_ok_def)
  then have "rings_ok v'" using Q(2) c by (simp add: rings_ok_def)
  then show "voter_inv k' v'" "cfg_kept v v'" using voter_inv_quiet [OF assms(1) Q(1)] c(4) by blast+
qed

lemma storeBytes_keeps:
  assumes "wf_vp p" "storeBytes p bs = (p', r)"
  shows "wf_vp p'" "buff_index p' = buff_index p" "same_ends p' p"
proof -
  consider "bs = [] \<or> 4096 - buff_count p \<le> int (length bs)" | "bs \<noteq> []" "int (length bs) < 4096 - buff_count p"
    by fastforce
  then have "wf_vp p' \<and> buff_index p' = buff_index p \<and> same_ends p' p"
  proof cases
    case 1
    then show ?thesis using storeBytes_refused [OF 1] assms by simp
  next
    case 2
    from storeBytes_ok [OF assms(1) 2] show ?thesis using assms(2) by (metis prod.inject)
  qed
  then show "wf_vp p'" "buff_index p' = buff_index p" "same_ends p' p" by blast+
qed

lemma pipeToBuff_keeps:
  assumes "wf_vp p" "pipeToBuff k p = (k', p', r)"
  shows "fds_kept k k'" "wf_vp p'" "buff_index p' = buff_index p" "same_ends p' p"
proof -
  obtain k1 res where rd: "os_read k (fd_in p) 4096 = (k1, res)" by fastforce
  then have "k' = k1" using assms(2) by (auto simp: pipeToBuff_def split: option.splits)
  then show "fds_kept k k'" using fds_kept_read [OF rd] by simp
  have "res = None \<and> p' = p \<or> (\<exists>bs. res = Some bs \<and> storeBytes p bs = (p', r))"
    using assms(2) rd by (auto simp: pipeToBuff_def split: option.splits)
  then show "wf_vp p'" "buff_index p' = buff_index p" "same_ends p' p"
    using storeBytes_keeps [OF assms(1)] assms(1) by auto
qed

lemma set_ring_inv:
  assumes "voter_inv k v" "r < v_rep_count v" "p < PIPE_LIMIT" "fds_kept k k'" "wf_vp x"
    "buff_index x = buff_index (vot (v_reps v) r p)" "same_ends x (vot (v_reps v) r p)"
  shows "voter_inv k' (v\<lparr>v_reps := set_vot (v_reps v) r p x\<rparr>)"
proof -
  have len: "r < length (v_reps v)" using voter_invD(1) [OF assms(1)] assms(2) by simp
  have "ends_kept (v_reps v ! i) (set_vot (v_reps v) r p x ! i)" for i
    using len ends_kept_set_pipe [OF assms(7)] by (cases "i = r") simp_all
  then have q: "quiet k v k' (v\<lparr>v_reps := set_vot (v_reps v) r p x\<rparr>)"
    using assms(4) by (simp add: quiet_def)
  have "buff_index (vot (set_vot (v_reps v) r p x) i q) = buff_index (vot (v_reps v) i q) \<and>
      (wf_vp (vot (v_reps v) i q) \<longrightarrow> wf_vp (vot (set_vot (v_reps v) r p x) i q))" if "i < v_rep_count v" "q < PIPE_LIMIT" for i q
    using that len assms(5,6) voter_invD(8) [OF assms(1,2)] by (cases "i = r"; cases "q = p") simp_all
  then have "rings_ok (v\<lparr>v_reps := set_vot (v_reps v) r p x\<rparr>)"
    using voter_invD(7) [OF assms(1)] by (intro rings_ok_set [OF assms(1)]) blast+
  then show ?thesis using voter_inv_quiet [OF assms(1) q] by blast
qed

lemma processData_inv:
  assumes "voter_inv k v" "processData k v p = (k', v')"
  shows "voter_inv k' v'" "cfg_kept v v'" "v_ext v' = v_ext v"
proof -
  define s where "s = (if p = v_timer_start v \<and> \<not> v_timer_started v then
     (let (k', t) = generate_timestamp k in (k', v\<lparr>v_timer_started := True, v_watchdog := t\<rparr>)) else (k, v))"
  obtain k1 v1 where s1: "s = (k1, v1)" by fastforce
  have 1: "fds_kept k k1" "voter_inv k v1" "cfg_kept v v1" "v_ext v1 = v_ext v"
    using assms(1) s1 fds_kept_time by (auto simp: s_def split: if_splits prod.splits)
  then have inv1: "voter_inv k1 v1" using voter_inv_fds by blast
  obtain k2 reps where s2: "balanceReps k1 (v_reps v1) (v_rep_count v1) (v_rep_priority v1) = (k2, reps)" by fastforce
  note inv2 = balanceReps_inv [OF inv1 s2]
  let ?w = "\<lambda>r k. writeBuffer k (fd_out (vot reps r p)) (buffer (v_ext v1 ! p)) (buff_count (v_ext v1 ! p))"
  have e: "k' = for_upto (v_rep_count v1) ?w k2" "v' = v1\<lparr>v_reps := reps\<rparr>"
    using assms(2) s1 s2 by (simp_all add: processData_def s_def [symmetric] Let_def)
  have "fds_kept k2 k'"
    unfolding e by (rule for_upto_invariant) (auto simp: writeBuffer_def intro: fds_kept_trans fds_kept_write)
  then show "voter_inv k' v'" "cfg_kept v v'" "v_ext v' = v_ext v"
    using inv2 voter_inv_fds 1(3,4) e(2) by auto
qed

section \<open>A restart keeps the invariant\<close>

lemma steal_step_fds: "fds_kept k (fst s) \<Longrightarrow> fds_kept k (fst (steal_step rep ready i s))"
proof -
  assume a: "fds_kept k (fst s)"
  obtain k1 b where s: "s = (k1, b)" by (cases s)
  obtain k2 r where rd: "os_read k1 (r_in_copy rep ! i) 4096 = (k2, r)" by fastforce
  have "fds_kept k k2" using a s fds_kept_trans [OF _ fds_kept_read [OF rd]] by simp
  then show ?thesis using a s rd by (cases r) (simp_all add: steal_step_def)
qed

lemma stealPipes_fds: "stealPipes k rep = (k', bufs) \<Longrightarrow> fds_kept k k'"
  using for_upto_invariant [where I = "\<lambda>s. fds_kept k (fst s)"] steal_step_fds
  by (metis fst_conv fds_kept_refl stealPipes_def)

lemma returnPipes_fds: "fds_kept k (returnPipes k rep bufs)"
  unfolding returnPipes_def
  by (rule for_upto_invariant) (auto simp: writeBuffer_def intro: fds_kept_trans fds_kept_write)

lemma voter_wiredD:
  assumes "voter_wired k v"
  shows "v_rep_count v \<le> length (v_reps v)" "v_pipe_count v \<le> PIPE_LIMIT" "0 < v_rep_count v"
    "i < v_rep_count v \<Longrightarrow> p < PIPE_LIMIT \<Longrightarrow> wf_vp (vot (v_reps v) i p)"
    "i < v_rep_count v \<Longrightarrow> length (r_vot_pipes (v_reps v ! i)) = PIPE_LIMIT"
    "i < v_rep_count v \<Longrightarrow> p < v_pipe_count v \<Longrightarrow> fd_in (vot (v_reps v) i p) \<noteq> 0 \<longleftrightarrow> fd_in (v_ext v ! p) = 0"
proof -
  have ok: "reps_ok k (v_ext v) (v_pipe_count v) (v_rep_count v) (v_reps v)" using assms by (simp add: voter_wired_def)
  show "fd_in (vot (v_reps v) i p) \<noteq> 0 \<longleftrightarrow> fd_in (v_ext v ! p) = 0" if "i < v_rep_count v" "p < v_pipe_count v"
    using reps_okD(1) [OF ok that] by (auto simp: wired_def Let_def split: if_splits)
qed (use assms in \<open>auto simp: voter_wired_def reps_ok_def rep_ok_def rep_count_ok_def wf_simps\<close>)


text \<open>
  The loop after a restart: pipes below \<open>i\<close> are in step again, the others are in step but for the
  new replica \<open>e\<close>.
\<close>

definition resync :: "nat \<Rightarrow> voter \<Rightarrow> nat \<Rightarrow> os \<times> voter \<Rightarrow> bool" where
  "resync e v0 i s \<longleftrightarrow> (case s of (k, v) \<Rightarrow> voter_wired k v \<and> cfg_kept v0 v \<and>
     (\<forall>p < v_pipe_count v. fd_in (v_ext v ! p) = 0 \<longrightarrow> in_step ({..<v_rep_count v} - {e}) p (v_reps v) \<and>
        (p < i \<longrightarrow> in_step {..<v_rep_count v} p (v_reps v))))"

lemma in_step_set_vot:
  assumes "in_step R q reps" "q \<noteq> p \<or> e \<notin> R" "e < length reps"
  shows "in_step R q (set_vot reps e p x)"
proof -
  have "vot (set_vot reps e p x) i q = vot reps i q" if "i \<in> R" for i
    using assms that by (cases "i = e") auto
  then show ?thesis using assms(1) unfolding in_step_def by metis
qed

lemma in_step_copy:
  assumes "in_step (R - {e}) p reps" "r \<in> R" "r \<noteq> e" "e < length reps" "p < length (r_vot_pipes (reps ! e))"
    "buff_index x = buff_index (vot reps r p)"
  shows "in_step R p (set_vot reps e p x)"
proof -
  have "buff_index (vot (set_vot reps e p x) i p) = buff_index (vot reps r p)" if "i \<in> R" for i
  proof (cases "i = e")
    case True
    then show ?thesis using assms(4-6) by simp
  next
    case False
    then have "buff_index (vot reps i p) = buff_index (vot reps r p)"
      using assms(1-3) that unfolding in_step_def by blast
    then show ?thesis using False by simp
  qed
  then show ?thesis unfolding in_step_def by metis
qed

lemma copied_ring:
  assumes "voter_wired k v" "r < v_rep_count v" "e < v_rep_count v" "i < PIPE_LIMIT"
  defines "d \<equiv> copyPipe (vot (v_reps v) e i) (vot (v_reps v) r i)"
  shows "voter_wired k (v\<lparr>v_reps := set_vot (v_reps v) e i d\<rparr>)" "quiet k v k (v\<lparr>v_reps := set_vot (v_reps v) e i d\<rparr>)"
proof -
  have len: "e < length (v_reps v)" using voter_wiredD(1) [OF assms(1)] assms(3) by simp
  have "wf_vp (vot (v_reps v) r i)" "wf_vp (vot (v_reps v) e i)"
    using voter_wiredD(4) [OF assms(1)] assms(2-4) by blast+
  then have d: "wf_vp d" "same_ends d (vot (v_reps v) e i)"
    using copyPipe_contents(1) copyPipe_fields(3) by (simp_all add: d_def wf_simps)
  have "ends_kept (v_reps v ! j) (set_vot (v_reps v) e i d ! j)" for j
    using len ends_kept_set_pipe [OF d(2)] by (cases "j = e") simp_all
  then show q: "quiet k v k (v\<lparr>v_reps := set_vot (v_reps v) e i d\<rparr>)" by (simp add: quiet_def)
  have "wf_vp (vot (set_vot (v_reps v) e i d) j p)" if "j < v_rep_count v" "p < PIPE_LIMIT" for j p
    using d(1) len voter_wiredD(4,5) [OF assms(1) that(1)] that(2) by (cases "j = e"; cases "p = i") simp_all
  then show "voter_wired k (v\<lparr>v_reps := set_vot (v_reps v) e i d\<rparr>)"
    using voter_wired_quiet [OF assms(1) q] by simp
qed

lemma copy_and_send_step:
  assumes "resync e v0 i s" "i < v_pipe_count v0" "r < v_rep_count v0" "e < v_rep_count v0" "r \<noteq> e"
  shows "resync e v0 (Suc i) (copy_and_send e r i s)"
proof -
  obtain k v where s: "s = (k, v)" by (cases s)
  have w: "voter_wired k v" and c: "v_pipe_count v = v_pipe_count v0" "v_rep_count v = v_rep_count v0" "cfg_kept v0 v"
    and st: "\<And>p. p < v_pipe_count v0 \<Longrightarrow> fd_in (v_ext v ! p) = 0 \<Longrightarrow> in_step ({..<v_rep_count v0} - {e}) p (v_reps v)"
      "\<And>p. p < i \<Longrightarrow> fd_in (v_ext v ! p) = 0 \<Longrightarrow> in_step {..<v_rep_count v0} p (v_reps v)"
    using assms(1,2) by (auto simp: resync_def s cfg_kept_def)
  note D = voter_wiredD [OF w, unfolded c]
  have i: "i < PIPE_LIMIT" "e < length (v_reps v)" using D(1,2) assms(2,4) by auto
  show ?thesis
  proof (cases "fd_in (vot (v_reps v) r i) = 0")
    case True
    then have "fd_in (v_ext v ! i) \<noteq> 0" using D(6) [OF assms(3,2)] by simp
    then show ?thesis
      using True w c st by (auto simp: s resync_def copy_and_send_def less_Suc_eq)
  next
    case False
    let ?d = "copyPipe (vot (v_reps v) e i) (vot (v_reps v) r i)"
    let ?v = "v\<lparr>v_reps := set_vot (v_reps v) e i ?d\<rparr>"
    obtain k' v' where run: "sendPipe k ?v i r = (k', v')" by fastforce
    then have cs: "copy_and_send e r i s = (k', v')"
      using False by (simp add: s copy_and_send_def Let_def)
    have w1: "voter_wired k ?v" using copied_ring(1) [OF w] assms(3,4) c i(1) by simp
    note D1 = voter_wiredD [OF w1]
    have "\<forall>j < v_rep_count ?v. \<forall>q < PIPE_LIMIT. wf_vp (vot (v_reps ?v) j q)"
      "\<forall>j < v_rep_count ?v. length (r_vot_pipes (v_reps ?v ! j)) = PIPE_LIMIT" "r < v_rep_count ?v"
      using D1(4,5) assms(3) c by auto
    note Q = sendPipe_quiet [OF this(1,2) D1(1) this(3) i(1) run]
    have w2: "voter_wired k' v'" using voter_wired_quiet [OF w1 Q(1,2)] .
    have c2: "v_pipe_count v' = v_pipe_count v0" "v_rep_count v' = v_rep_count v0" "cfg_kept v0 v'"
      and ext: "\<And>p. p < v_pipe_count v0 \<Longrightarrow> fd_in (v_ext v' ! p) = fd_in (v_ext v ! p)"
      using Q(1) c cfg_kept_trans [of v0 ?v v'] by (auto simp: quiet_def cfg_kept_def)
    have pres: "in_step R p (v_reps ?v) \<Longrightarrow> in_step R p (v_reps v')" if "R \<subseteq> {..<v_rep_count v0}" for R p
      using Q(3) [of R p] that c by simp
    have "in_step ({..<v_rep_count v0} - {e}) p (v_reps v')" if "p < v_pipe_count v0" "fd_in (v_ext v ! p) = 0" for p
      using pres st(1) [OF that] in_step_set_vot i(2) by simp
    moreover have "in_step {..<v_rep_count v0} p (v_reps v')" if "p < Suc i" "fd_in (v_ext v ! p) = 0" for p
    proof (cases "p = i")
      case True
      then have "in_step {..<v_rep_count v0} i (v_reps ?v)"
        using st(1) [of i] assms that(2) i D(5) copyPipe_fields(2)
        by (simp add: in_step_copy [where r = r])
      then show ?thesis using pres True by blast
    next
      case False
      then show ?thesis using pres st(2) [of p] that in_step_set_vot i(2) by simp
    qed
    ultimately show ?thesis
      using w2 c2 ext assms(2) by (simp add: cs resync_def)
  qed
qed

lemma resync_done:
  assumes "resync e v0 (v_pipe_count v0) (k, v)"
  shows "voter_inv k v" "cfg_kept v0 v"
proof -
  have w: "voter_wired k v" and c: "cfg_kept v0 v" "v_pipe_count v = v_pipe_count v0"
    using assms by (auto simp: resync_def cfg_kept_def)
  moreover have "lockstep (v_ext v) (v_pipe_count v) (v_rep_count v) (v_reps v)"
    unfolding lockstep_in_step [OF voter_wiredD(3) [OF w]] using assms c(2) by (simp add: resync_def)
  ultimately show "voter_inv k v" "cfg_kept v0 v" by (simp_all add: voter_inv_wired)
qed

lemma restart_resync:
  assumes "voter_inv k v" "e < v_rep_count v" "r < v_rep_count v" "r \<noteq> e"
    "restartReplica k (v_reps v) (v_rep_count v) sd (v_ext v) r e prio = (k', reps)"
  shows "resync e v 0 (k', v\<lparr>v_reps := reps\<rparr>)"
    "rebuilt (v_ext v) (v_pipe_count v) (v_rep_count v) e k (v_reps v) k' reps"
proof -
  have ok: "reps_ok k (v_ext v) (v_pipe_count v) (v_rep_count v) (v_reps v)"
    "ext_apart k (v_ext v) (v_pipe_count v) (v_rep_count v) (v_reps v)"
    using assms(1) by (simp_all add: voter_inv_def)
  show R: "rebuilt (v_ext v) (v_pipe_count v) (v_rep_count v) e k (v_reps v) k' reps"
    using restartReplica_rebuilt [OF ok assms(2-5)] .
  have w: "voter_wired k' (v\<lparr>v_reps := reps\<rparr>)"
    using assms(1) R by (simp add: rebuilt_def voter_inv_def voter_wired_def rep_count_ok_def)
  have "in_step ({..<v_rep_count v} - {e}) p reps" if "p < v_pipe_count v" "fd_in (v_ext v ! p) = 0" for p
  proof -
    have "in_step {..<v_rep_count v} p (v_reps v)"
      using assms(1) that lockstep_in_step [OF voter_invD(3) [OF assms(1)]] by (simp add: voter_inv_def)
    moreover have "vot reps i p = vot (v_reps v) i p" if "i < v_rep_count v" "i \<noteq> e" for i
      using R that by (simp add: rebuilt_def same_pipes_def)
    ultimately show ?thesis unfolding in_step_def by (metis DiffE insertI1 lessThan_iff)
  qed
  then show "resync e v 0 (k', v\<lparr>v_reps := reps\<rparr>)" using w by (simp add: resync_def)
qed

lemma restart_prep_inv:
  assumes "voter_inv k v" "e < v_rep_count v" "r < v_rep_count v" "r \<noteq> e" "restart_prep k v e r = (k', v')"
  shows "voter_inv k' v'" "cfg_kept v v'"
proof -
  obtain k1 bufs where s1: "stealPipes k (v_reps v ! r) = (k1, bufs)" by fastforce
  let ?v = "v\<lparr>v_timer_started := False\<rparr>"
  have inv1: "voter_inv k1 ?v" using voter_inv_fds [OF assms(1) stealPipes_fds [OF s1]] by simp
  obtain k2 reps where s2: "restartReplica k1 (v_reps v) (v_rep_count v) (v_sd v) (v_ext v) r e (v_rep_priority v) = (k2, reps)"
    by fastforce
  have R: "resync e ?v 0 (k2, ?v\<lparr>v_reps := reps\<rparr>)"
    using restart_resync(1) [OF inv1, of e r "v_sd v" "v_rep_priority v" k2 reps] assms(2-4) s2 by simp
  have "voter_wired k2 (?v\<lparr>v_reps := reps\<rparr>)" using R by (simp add: resync_def)
  then have pc: "r_pipe_count (reps ! r) = v_pipe_count ?v"
    using assms(3) by (simp add: voter_wired_def reps_ok_def rep_ok_def)
  obtain k3 v3 where s3: "for_upto (v_pipe_count ?v) (copy_and_send e r) (k2, ?v\<lparr>v_reps := reps\<rparr>) = (k3, v3)" by fastforce
  have "resync e ?v (v_pipe_count ?v) (k3, v3)"
    unfolding s3 [symmetric]
    by (rule for_upto_indexed_invariant [where I = "resync e ?v"], rule R)
      (rule copy_and_send_step, use assms(2-4) in simp_all)
  note D = resync_done [OF this]
  have "k' = returnPipes (returnPipes k3 (v_reps v3 ! e) bufs) (v_reps v3 ! r) bufs" "v' = v3"
    using assms(5) s1 s2 s3 pc by (auto simp: restart_prep_def Let_def)
  then show "voter_inv k' v'" "cfg_kept v v'"
    using voter_inv_fds [OF voter_inv_fds [OF D(1) returnPipes_fds] returnPipes_fds] D(2)
    by (auto simp: cfg_kept_def)
qed

section \<open>Every update keeps the invariant\<close>

lemma tmr_vote_inv:
  assumes "voter_inv k v" "v_rep_count v = 3" "\<forall>r \<in> set rs. r < 3" "p < PIPE_LIMIT" "tmr_vote k v p n rs = (k', v')"
  shows "voter_inv k' v' \<and> cfg_kept v v'"
  using assms
proof (induction rs)
  case (Cons r rs)
  have "r = 0 \<or> r = 1 \<or> r = 2" using Cons.prems(3) by auto
  then have r: "r < v_rep_count v" "(r + 2) mod 3 < v_rep_count v" "r \<noteq> (r + 2) mod 3"
    unfolding Cons.prems(2) by auto
  note rp = restart_prep_inv [OF Cons.prems(1) r(2,1,3)] and sp = sendPipe_inv [OF Cons.prems(1) r(1) Cons.prems(4)]
  show ?case
  proof (cases "compareBuffs (vot (v_reps v) r p) (vot (v_reps v) ((r + 1) mod 3) p) n = 0")
    case True
    then show ?thesis
      using rp sp Cons.prems(2,5)
      by (cases "compareBuffs (vot (v_reps v) r p) (vot (v_reps v) ((r + 2) mod 3) p) n = 0") simp_all
  next
    case False
    then show ?thesis using Cons by simp
  qed
qed simp

lemma checkSDC_inv:
  assumes "voter_inv k v" "p < PIPE_LIMIT" "checkSDC k v p = (k', v')"
  shows "voter_inv k' v' \<and> cfg_kept v v'"
proof -
  have t: "v_rep_count v = 3" if "v_rep_type v = TMR" using assms(1) that by (simp add: voter_inv_def rep_count_ok_def)
  show ?thesis
    using assms(3) sendPipe_inv [OF assms(1) voter_invD(3) [OF assms(1)] assms(2)] assms(1)
      tmr_vote_inv [OF assms(1) t _ assms(2), of "[0..<3]"] t
    by (auto simp: checkSDC_def Let_def split: if_splits replication_t.splits)
qed

lemma processFromRep_inv:
  assumes "voter_inv k v" "r < v_rep_count v" "p < PIPE_LIMIT" "processFromRep k v r p = (k', v')"
  shows "voter_inv k' v' \<and> cfg_kept v v'"
proof -
  obtain k1 x res where s1: "pipeToBuff k (vot (v_reps v) r p) = (k1, x, res)" by (metis prod_cases3)
  note P = pipeToBuff_keeps [OF voter_invD(7) [OF assms(1-3)] s1]
  let ?v = "v\<lparr>v_reps := set_vot (v_reps v) r p x\<rparr>"
  have inv1: "voter_inv k1 ?v" using set_ring_inv [OF assms(1-3) P] .
  obtain k2 reps where s2: "balanceReps k1 (v_reps ?v) (v_rep_count v) (v_rep_priority v) = (k2, reps)" by fastforce
  have inv2: "voter_inv k2 (?v\<lparr>v_reps := reps\<rparr>)" using balanceReps_inv [OF inv1 s2] .
  show ?thesis
  proof (cases "res = 0")
    case True
    then have "checkSDC k2 (?v\<lparr>v_reps := reps\<rparr>) p = (k', v')"
      using assms(4) s1 s2 by (simp add: processFromRep_def Let_def)
    from checkSDC_inv [OF inv2 assms(3) this] show ?thesis by (auto simp: cfg_kept_def)
  next
    case False
    then show ?thesis using assms(4) s1 inv1 by (auto simp: processFromRep_def Let_def)
  qed
qed

definition good :: "voter \<Rightarrow> os \<times> voter \<Rightarrow> bool" where
  "good v0 s \<longleftrightarrow> (case s of (k, v) \<Rightarrow> voter_inv k v \<and> cfg_kept v0 v)"

lemma readReplica_good:
  assumes "good v0 s" "p < v_pipe_count v0" "r < v_rep_count v0"
  shows "good v0 (readReplica ready p r s)"
proof -
  obtain k v where s: "s = (k, v)" by (cases s)
  have inv: "voter_inv k v" "cfg_kept v0 v" "p < PIPE_LIMIT" "r < v_rep_count v"
    using assms voter_invD(2) [of k v] by (auto simp: good_def s cfg_kept_def)
  obtain k' v' where run: "processFromRep k v r p = (k', v')" by fastforce
  show ?thesis
    using processFromRep_inv [OF inv(1,4,3) run] inv run cfg_kept_trans
    by (auto simp: good_def s readReplica_def Let_def)
qed

lemma set_ext_inv:
  assumes "voter_inv k v" "same_ends x (v_ext v ! p)" "length (buffer x) = length (buffer (v_ext v ! p))"
  shows "voter_inv k (v\<lparr>v_ext := (v_ext v)[p := x]\<rparr>)" "cfg_kept v (v\<lparr>v_ext := (v_ext v)[p := x]\<rparr>)"
proof -
  let ?v = "v\<lparr>v_ext := (v_ext v)[p := x]\<rparr>"
  have e: "fd_in ((v_ext v)[p := x] ! q) = fd_in (v_ext v ! q) \<and> fd_out ((v_ext v)[p := x] ! q) = fd_out (v_ext v ! q) \<and>
      length (buffer ((v_ext v)[p := x] ! q)) = length (buffer (v_ext v ! q))" for q
    using assms(2,3) by (cases "q = p"; cases "p < length (v_ext v)") (simp_all add: same_ends_def list_update_beyond)
  then show c: "cfg_kept v ?v" by (simp add: cfg_kept_def)
  have "lockstep ((v_ext v)[p := x]) (v_pipe_count v) (v_rep_count v) (v_reps v)"
    using voter_inv_rings [OF assms(1)] e unfolding rings_ok_def
    by (blast intro: lockstep_cong [OF _ voter_invD(3) [OF assms(1)]])
  then have "rings_ok ?v"
    using voter_inv_rings [OF assms(1)] by (simp add: rings_ok_def)
  then show "voter_inv k ?v" using voter_inv_quiet [OF assms(1), of k ?v] c by (simp add: quiet_def)
qed

lemma readExternal_good:
  assumes "good v0 s" "p < v_pipe_count v0"
  shows "good v0 (readExternal ready p s)"
proof -
  obtain k v where s: "s = (k, v)" by (cases s)
  have inv: "voter_inv k v" "cfg_kept v0 v" using assms by (auto simp: good_def s)
  have len: "length (buffer (v_ext v ! p)) = 4096"
    using inv assms(2) by (simp add: voter_inv_def cfg_kept_def)
  obtain k1 res where rd: "os_read k (fd_in (v_ext v ! p)) 4096 = (k1, res)" by fastforce
  have inv1: "voter_inv k1 v" using voter_inv_fds [OF inv(1) fds_kept_read [OF rd]] .
  show ?thesis
  proof (cases "fd_in (v_ext v ! p) \<noteq> 0 \<and> fd_in (v_ext v ! p) \<in> set ready")
    case False
    then show ?thesis using assms(1) by (auto simp: s readExternal_def Let_def)
  next
    case True
    show ?thesis
    proof (cases res)
      case None
      let ?x = "(v_ext v ! p)\<lparr>buff_count := - 1\<rparr>"
      have "readExternal ready p s = (k1, v\<lparr>v_ext := (v_ext v)[p := ?x]\<rparr>)"
        using True rd None by (simp add: s readExternal_def Let_def)
      then show ?thesis
        using set_ext_inv [OF inv1, of ?x p] cfg_kept_trans [OF inv(2)] by (simp add: good_def same_ends_def)
    next
      case (Some bs)
      let ?x = "(v_ext v ! p)\<lparr>buff_count := int (length bs), buffer := memcpy (buffer (v_ext v ! p)) 0 bs 0 (length bs)\<rparr>"
      let ?v = "v\<lparr>v_ext := (v_ext v)[p := ?x]\<rparr>"
      have "length bs \<le> 4096"
        using rd Some by (auto simp: os_read_def split: option.splits fd_object.splits if_splits list.splits)
      then have inv2: "voter_inv k1 ?v" "cfg_kept v ?v"
        using set_ext_inv [OF inv1, of ?x p] len by (simp_all add: same_ends_def)
      obtain k2 v2 where pd: "processData k1 ?v p = (k2, v2)" by fastforce
      have "readExternal ready p s = (if bs \<noteq> [] then (k2, v2) else (k1, ?v))"
        using True rd Some pd by (simp add: s readExternal_def Let_def)
      moreover have "cfg_kept v0 ?v" using cfg_kept_trans [OF inv(2) inv2(2)] .
      moreover note processData_inv(1) [OF inv2(1) pd] cfg_kept_trans [OF this processData_inv(2) [OF inv2(1) pd]]
      ultimately show ?thesis using inv2(1) by (cases "bs = []") (simp_all add: good_def)
    qed
  qed
qed

lemma rebuilt_one_inv:
  assumes "voter_inv k v" "v_rep_count v = 1"
    "rebuilt (v_ext v) (v_pipe_count v) 1 0 k (v_reps v) k' reps"
  shows "voter_inv k' (v\<lparr>v_reps := reps\<rparr>)"
proof -
  have "lockstep (v_ext v) (v_pipe_count v) (v_rep_count v) reps"
    using assms(2) by (simp add: lockstep_def)
  then show ?thesis
    using assms by (simp add: voter_inv_def rebuilt_def) (simp add: rep_count_ok_def)
qed

lemma resend_good:
  assumes "good v0 s"
  shows "good v0 (for_upto n (\<lambda>p (k, v). if fd_in (v_ext v ! p) \<noteq> 0 then processData k v p else (k, v)) s)"
proof (rule for_upto_invariant [where I = "good v0", OF assms])
  fix i t assume t: "good v0 t"
  obtain k v where "t = (k, v)" by (cases t)
  moreover obtain k' v' where "processData k v i = (k', v')" by fastforce
  ultimately show "good v0 ((\<lambda>(k, v). if fd_in (v_ext v ! i) \<noteq> 0 then processData k v i else (k, v)) t)"
    using t processData_inv [of k v i k' v'] cfg_kept_trans [of v0 v v'] by (simp add: good_def)
qed

lemma restarter_other:
  fixes n e :: nat
  assumes "n = 2 \<or> n = 3" "e < n"
  shows "(e + (n - 1)) mod n < n \<and> (e + (n - 1)) mod n \<noteq> e"
proof -
  have "n = 2 \<and> (e = 0 \<or> e = 1) \<or> n = 3 \<and> (e = 0 \<or> e = 1 \<or> e = 2)" using assms by auto
  then show ?thesis by auto
qed

lemma handler_good:
  assumes "good v0 (k, v)" "voterRestartHandler k v = Some s"
  shows "good v0 s"
proof -
  have inv: "voter_inv k v" "cfg_kept v0 v" using assms(1) by (simp_all add: good_def)
  have rc: "rep_count_ok v" using inv(1) by (simp add: voter_inv_def)
  show ?thesis
  proof (cases "v_rep_type v = SMR")
    case True
    let ?v = "v\<lparr>v_last_dead := r_pid (v_reps v ! 0)\<rparr>"
    have n: "v_rep_count v = 1" using rc True by (simp add: rep_count_ok_def)
    obtain k2 reps where st: "startReplicas (cleanupReplica k (v_reps v) 0) (v_reps v) 1 (v_sd v) (v_name v)
        (v_ext v) (v_pipe_count v) (v_rep_priority v) = Some (k2, reps)"
      and s: "s = for_upto (v_pipe_count v) (\<lambda>p (k, v). if fd_in (v_ext v ! p) \<noteq> 0 then processData k v p else (k, v))
        (k2, ?v\<lparr>v_reps := reps\<rparr>)"
      using assms(2) True n by (auto simp: voterRestartHandler_def Let_def split: option.splits)
    have "reps_ok k (v_ext v) (v_pipe_count v) 1 (v_reps v)" "ext_apart k (v_ext v) (v_pipe_count v) 1 (v_reps v)"
      using inv(1) n by (simp_all add: voter_inv_def)
    note R = cold_restart_rebuilt [OF this st]
    have "voter_inv k2 (?v\<lparr>v_reps := reps\<rparr>)" using rebuilt_one_inv [of k ?v k2 reps] inv(1) n R by simp
    then have "good v0 (k2, ?v\<lparr>v_reps := reps\<rparr>)" using inv(2) by (simp add: good_def)
    from resend_good [OF this] show ?thesis unfolding s .
  next
    case False
    let ?n = "v_rep_count v"
    have n: "?n = 2 \<or> ?n = 3" using rc False by (auto simp: rep_count_ok_def)
    let ?e = "behindRep (v_reps v) ?n (v_timer_stop v)"
    let ?r = "(?e + (?n - 1)) mod ?n"
    have e: "?e < ?n" using behindRep_min [of ?n "v_reps v"] n by auto
    then have r: "?r < ?n" "?r \<noteq> ?e" using restarter_other [OF n e] by simp_all
    obtain k' v' where run: "restart_prep k v ?e ?r = (k', v')" by fastforce
    then have "s = (k', v')"
      using assms(2) False rc by (auto simp: voterRestartHandler_def Let_def rep_count_ok_def)
    then show ?thesis
      using restart_prep_inv [OF inv(1) e r run] cfg_kept_trans [OF inv(2)] by (simp add: good_def)
  qed
qed

lemma doOneUpdate_good:
  assumes "good v0 (k, v)" "env_ok env" "doOneUpdate F env k v = Some s"
  shows "good v0 s"
proof -
  obtain k1 v1 where s1: "checkDead k v = Some (k1, v1)" using assms(3) by (auto simp: doOneUpdate_def split: option.splits)
  obtain k2 v2 where s2: "checkTimer F k1 v1 = Some (k2, v2)" using assms(3) s1 by (auto simp: doOneUpdate_def split: option.splits)
  have 1: "good v0 (k1, v1)"
  proof -
    obtain kw z where w: "os_waitpid_nohang k = (kw, z)" by fastforce
    then have "fds_kept k kw" by (auto simp: os_waitpid_nohang_def fds_kept_def split: list.splits)
    then have gw: "good v0 (kw, v)" using assms(1) voter_inv_fds by (auto simp: good_def)
    show ?thesis
      using s1 assms(1) gw w handler_good [OF gw] by (auto simp: checkDead_def good_def split: if_splits)
  qed
  have 2: "good v0 (k2, v2)"
  proof -
    obtain kt t where t: "generate_timestamp k1 = (kt, t)" by fastforce
    have gt: "good v0 (kt, v1)" using 1 voter_inv_fds [OF _ fds_kept_time [OF t]] by (auto simp: good_def)
    show ?thesis
      using s2 1 gt t handler_good [OF gt] by (auto simp: checkTimer_def Let_def split: if_splits)
  qed
  define s3 where "s3 = (if \<not> checkSync v2 \<and> v_priority v2 < 5 \<and> \<not> v_timer_started v2 then
      (let (k', t) = generate_timestamp k2 in (k', v2\<lparr>v_timer_started := True, v_watchdog := t\<rparr>)) else (k2, v2))"
  obtain k3 v3 where e3: "s3 = (k3, v3)" by fastforce
  have "fds_kept k2 k3" "v_reps v3 = v_reps v2" "voter_inv k2 v3 = voter_inv k2 v2" "cfg_kept v0 v3 = cfg_kept v0 v2"
    using e3 fds_kept_time by (auto simp: s3_def split: if_splits prod.splits)
  moreover have "fds_kept k3 (env k3)" using assms(2) by (simp add: env_ok_def)
  ultimately have 4: "good v0 (env k3, v3)"
    using 2 voter_inv_fds [OF voter_inv_fds] by (auto simp: good_def)
  let ?ready = "os_select (env k3) (select_set v3 (checkSync v2))"
  define t1 where "t1 = for_upto (v_pipe_count v3) (readExternal ?ready) (env k3, v3)"
  have s: "s = (if ?ready \<noteq> [] then for_upto (v_pipe_count v3) (\<lambda>p. for_upto (v_rep_count v3) (readReplica ?ready p)) t1
      else (env k3, v3))"
    using assms(3) s1 s2 e3 by (auto simp: doOneUpdate_def s3_def [symmetric] t1_def Let_def)
  have c: "v_pipe_count v3 = v_pipe_count v0" "v_rep_count v3 = v_rep_count v0" using 4 by (simp_all add: good_def cfg_kept_def)
  have "good v0 t1" unfolding t1_def c
    by (rule for_upto_invariant [where I = "good v0", OF 4]) (rule readExternal_good)
  then have "good v0 (for_upto (v_pipe_count v3) (\<lambda>p. for_upto (v_rep_count v3) (readReplica ?ready p)) t1)"
    unfolding c by (rule for_upto_invariant [where I = "good v0"])
      (rule for_upto_invariant [where I = "good v0"], assumption, rule readReplica_good)
  then show ?thesis using s 4 by simp
qed

section \<open>Properties\<close>

text \<open>A TMR voter with one input pipe and one output pipe, as it stands after its start.\<close>

definition demo_ring :: "string \<Rightarrow> fd \<Rightarrow> fd \<Rightarrow> vote_pipe" where
  "demo_ring info i ou = \<lparr>rep_info = info, fd_in = i, fd_out = ou, timed = False, buff_count = 0,
     buff_index = 0, buffer = replicate 4096 0\<rparr>"

definition demo_rep :: "nat \<Rightarrow> replica" where
  "demo_rep r = (let b = 5 + 4 * int r in
     \<lparr>r_pid = 100 + int r, r_priority = 0, r_name = Some ''Filter'', r_pipe_count = 2,
      r_vot_pipes = [demo_ring ''RANGE_POSE_DATA'' 0 (b + 1), demo_ring ''RANGE_POSE_DATA'' (b + 2) 0] @
        replicate 8 (demo_ring [] 0 0),
      r_in_copy = [b, 0] @ replicate 8 0,
      r_rep_pipes = [demo_ring ''RANGE_POSE_DATA'' b 0, demo_ring ''RANGE_POSE_DATA'' 0 (b + 3)] @
        replicate 8 (demo_ring [] 0 0)\<rparr>)"

definition demo_voter :: voter where
  "demo_voter = \<lparr>v_timeout = 120, v_timer_start = 0, v_timer_stop = 1, v_timer_started = False,
     v_watchdog = 0, v_last_dead = - 1, v_reps = [demo_rep 0, demo_rep 1, demo_rep 2], v_priority = 5,
     v_rep_priority = 0, v_sd = \<lparr>sd_address = [], sd_sock_fd = 2\<rparr>, v_rep_type = TMR, v_rep_count = 3,
     v_name = ''Filter'', v_pipe_count = 2,
     v_ext = [demo_ring ''RANGE_POSE_DATA'' 3 0, demo_ring ''RANGE_POSE_DATA'' 0 4] @
       replicate 8 (demo_ring [] 0 0)\<rparr>"

definition demo_kernel :: "byte list list \<Rightarrow> os" where
  "demo_kernel pipes = (demo_os [])\<lparr>os_pipes := pipes, os_alive := [100, 101, 102],
     os_fd_table := [Some SocketEnd, Some SocketEnd, Some SocketEnd, Some (ReadEnd 0), Some (WriteEnd 1),
       Some (ReadEnd 2), Some (WriteEnd 2), Some (ReadEnd 3), Some (WriteEnd 3),
       Some (ReadEnd 4), Some (WriteEnd 4), Some (ReadEnd 5), Some (WriteEnd 5),
       Some (ReadEnd 6), Some (WriteEnd 6), Some (ReadEnd 7), Some (WriteEnd 7)]\<rparr>"

lemma demo_lookup: "os_lookup (demo_kernel pipes) f =
    (if 0 \<le> f \<and> nat f < 17 then [Some SocketEnd, Some SocketEnd, Some SocketEnd, Some (ReadEnd 0), Some (WriteEnd 1),
       Some (ReadEnd 2), Some (WriteEnd 2), Some (ReadEnd 3), Some (WriteEnd 3),
       Some (ReadEnd 4), Some (WriteEnd 4), Some (ReadEnd 5), Some (WriteEnd 5),
       Some (ReadEnd 6), Some (WriteEnd 6), Some (ReadEnd 7), Some (WriteEnd 7)] ! nat f else None)"
  by (simp add: demo_kernel_def os_lookup_def)

lemma demo_ring_simps [simp]:
  "wf_vp (demo_ring s i ou)" "fd_in (demo_ring s i ou) = i" "fd_out (demo_ring s i ou) = ou"
  "buff_index (demo_ring s i ou) = 0" "buff_count (demo_ring s i ou) = 0" "length (buffer (demo_ring s i ou)) = 4096"
  by (simp_all add: demo_ring_def wf_simps)

lemma all_less_2: "(\<forall>i < 2. P i) \<longleftrightarrow> P 0 \<and> P (Suc 0)" for P :: "nat \<Rightarrow> bool"
  by (auto simp: less_Suc_eq numeral_2_eq_2)

lemma all_less_3: "(\<forall>i < 3. P i) \<longleftrightarrow> P 0 \<and> P (Suc 0) \<and> P 2" for P :: "nat \<Rightarrow> bool"
  by (auto simp: less_Suc_eq numeral_3_eq_3 numeral_2_eq_2)

lemma demo_rep_shape: "rep_shape (demo_rep r)"
proof -
  have "\<forall>x \<in> set (r_vot_pipes (demo_rep r)). wf_vp x" "length (r_vot_pipes (demo_rep r)) = 10"
    by (auto simp: demo_rep_def Let_def)
  then have "\<forall>p < 10. wf_vp (r_vot_pipes (demo_rep r) ! p)" by simp
  then show ?thesis by (simp add: rep_shape_def) (simp add: demo_rep_def Let_def)
qed

lemma demo_wired:
  assumes "8 \<le> length pipes" "r < 3"
  shows "wired (demo_kernel pipes) (v_ext demo_voter ! 0) (demo_rep r) 0 (2 + 2 * r)"
    "wired (demo_kernel pipes) (v_ext demo_voter ! Suc 0) (demo_rep r) (Suc 0) (2 + 2 * r + Suc 0)"
proof -
  have l: "length (os_pipes (demo_kernel pipes)) = length pipes" by (simp add: demo_kernel_def)
  have "r = 0 \<or> r = 1 \<or> r = 2" using assms(2) by auto
  then show "wired (demo_kernel pipes) (v_ext demo_voter ! 0) (demo_rep r) 0 (2 + 2 * r)"
    "wired (demo_kernel pipes) (v_ext demo_voter ! Suc 0) (demo_rep r) (Suc 0) (2 + 2 * r + Suc 0)"
    using assms(1) l
    by (auto simp: wired_def demo_rep_def demo_voter_def Let_def demo_lookup)
qed

lemma demo_voter_inv:
  assumes "length pipes = 8"
  shows "voter_inv (demo_kernel pipes) demo_voter"
proof -
  let ?k = "demo_kernel pipes" and ?reps = "[demo_rep 0, demo_rep 1, demo_rep 2]"
  have r: "?reps ! r = demo_rep r" if "r < 3" for r using that by (auto simp: less_Suc_eq numeral_3_eq_3 numeral_2_eq_2)
  have w: "wired ?k (v_ext demo_voter ! p) (?reps ! r) p (2 + 2 * r + p)" if "r < 3" "p < 2" for r p
  proof -
    have "p = 0 \<or> p = Suc 0" using that(2) by auto
    then show ?thesis using demo_wired [of pipes r] assms that(1) unfolding r [OF that(1)] by auto
  qed
  have c: "chan ?k (?reps ! r) p = 2 + 2 * r + p" if "r < 3" "p < 2" for r p
    using wired_chan [OF w [OF that]] .
  have "open_fds ?k \<subseteq> int ` {..<17}"
    by (auto simp: open_fds_def demo_lookup image_iff split: if_splits) (metis int_nat_eq lessThan_iff)
  then have "card (open_fds ?k) \<le> card (int ` {..<17})" by (intro card_mono) simp_all
  also have "\<dots> \<le> 17" using card_image_le [of "{..<17}" int] by simp
  finally have card: "card (open_fds ?k) \<le> os_fd_max ?k" by (simp add: demo_kernel_def demo_os_def)
  have "inj_on (\<lambda>(r, p). chan ?k (?reps ! r) p) ({..<3} \<times> {..<2})"
    by (rule inj_onI) (use c in \<open>auto, presburger+\<close>)
  then have "reps_ok ?k (v_ext demo_voter) 2 3 ?reps"
    using c w card demo_rep_shape r
    by (simp add: reps_ok_def rep_ok_def del: nth_Cons_0 nth_Cons_Suc) (simp add: demo_rep_def open_fds_def demo_lookup Let_def)
  moreover have "ext_apart ?k (v_ext demo_voter) 2 3 ?reps"
    unfolding ext_apart_def
  proof (intro allI impI ballI)
    fix p f assume "p < (2::nat)" "f \<in> {fd_in (v_ext demo_voter ! p), fd_out (v_ext demo_voter ! p)} - {0}"
    then have "f = 3 \<or> f = 4" by (auto simp: demo_voter_def less_Suc_eq numeral_2_eq_2)
    then have "os_lookup ?k f = Some (ReadEnd 0) \<or> os_lookup ?k f = Some (WriteEnd 1)"
      by (auto simp: demo_lookup)
    moreover have "length (os_pipes ?k) = 8" using assms by (simp add: demo_kernel_def)
    moreover have "q \<noteq> chan ?k (?reps ! r) i" if "r < 3" "i < 2" "q < 2" for q r i using c [OF that(1,2)] that(3) by simp
    ultimately have "\<exists>q < 2. 2 \<le> length (os_pipes ?k) \<and> (os_lookup ?k f = Some (ReadEnd q) \<or> os_lookup ?k f = Some (WriteEnd q)) \<and>
        (\<forall>r < 3. \<forall>i < 2. q \<noteq> chan ?k (?reps ! r) i)"
      by (elim disjE) (rule exI [of _ 0], simp, rule exI [of _ 1], simp)
    then show "\<exists>q < length (os_pipes ?k). (os_lookup ?k f = Some (ReadEnd q) \<or> os_lookup ?k f = Some (WriteEnd q)) \<and>
        (\<forall>r < 3. \<forall>i < 2. q \<noteq> chan ?k (?reps ! r) i)"
      by (meson less_le_trans)
  qed
  moreover have "lockstep (v_ext demo_voter) 2 3 ?reps"
    unfolding lockstep_def all_less_2 all_less_3 by (simp add: demo_rep_def Let_def demo_ring_def)
  ultimately show ?thesis
    unfolding voter_inv_def by (simp add: demo_voter_def rep_count_ok_def all_less_2)
qed

lemma handler_total: "v_rep_type v \<in> {DMR, TMR} \<Longrightarrow> \<exists>s. voterRestartHandler k v = Some s"
  by (auto simp: voterRestartHandler_def Let_def)

lemma checkTimer_total: "v_rep_type v \<in> {DMR, TMR} \<Longrightarrow> \<exists>s. checkTimer F k v = Some s"
  using handler_total [of v] by (auto simp: checkTimer_def Let_def split: prod.splits)

lemma doOneUpdate_total:
  assumes "v_rep_type v \<in> {DMR, TMR}"
  shows "\<exists>s. doOneUpdate F env k v = Some s"
proof -
  have "checkDead k v = Some (k, v)" using assms by (auto simp: checkDead_def)
  moreover obtain k2 v2 where "checkTimer F k v = Some (k2, v2)" using checkTimer_total [OF assms] by fastforce
  ultimately show ?thesis by (simp add: doOneUpdate_def Let_def del: not_None_eq split: prod.split)
qed

lemma reaches_good:
  assumes "voter_reaches F s s'" "s = (k, v)" "voter_inv k v"
  shows "good v s'"
  using assms(1,2)
proof (induction rule: voter_reaches.induct)
  case (start s)
  then show ?case using assms(3) by (simp add: good_def)
next
  case (update s k' v' env s')
  then show ?case using doOneUpdate_good [of v k' v' env F s'] by blast
qed

text \<open>
  (C1) The invariant of the whole voter. From a state in which the replicas are wired like the
  external pipes, every state that the main loop reaches, over any number of updates, with any
  behaviour of the replicas and the environment on the pipes, through disagreements, timeouts, dead
  children and restarts, satisfies: each replica is connected by its own fresh kernel pipes in the
  direction of the external ones, no descriptor or pipe is shared, every ring is well formed, and
  the rings that are compared with each other are read from the same position. The configuration
  never changes.
\<close>

theorem voter_invariant_reachable:
  assumes "voter_inv k v" "voter_reaches F (k, v) (k', v')"
  shows "voter_inv k' v' \<and> v_rep_count v' = v_rep_count v \<and> v_pipe_count v' = v_pipe_count v \<and>
    (\<forall>r < v_rep_count v. \<forall>p < v_pipe_count v. wf_vp (vot (v_reps v') r p) \<and>
       (fd_in (v_ext v ! p) = 0 \<longrightarrow> buff_index (vot (v_reps v') r p) = buff_index (vot (v_reps v') 0 p)))"
proof -
  have g: "voter_inv k' v'" "cfg_kept v v'"
    using reaches_good [OF assms(2) refl assms(1)] by (simp_all add: good_def)
  have c: "v_pipe_count v' = v_pipe_count v" "v_rep_count v' = v_rep_count v"
    "\<forall>p < v_pipe_count v. fd_in (v_ext v' ! p) = fd_in (v_ext v ! p)"
    using g(2) by (simp_all add: cfg_kept_def)
  have "lockstep (v_ext v') (v_pipe_count v') (v_rep_count v') (v_reps v')" using g(1) by (simp add: voter_inv_def)
  then have "buff_index (vot (v_reps v') r p) = buff_index (vot (v_reps v') 0 p)"
    if "r < v_rep_count v" "p < v_pipe_count v" "fd_in (v_ext v ! p) = 0" for r p
    using that c unfolding lockstep_def by metis
  moreover have "wf_vp (vot (v_reps v') r p)" if "r < v_rep_count v" "p < v_pipe_count v" for r p
    using voter_invD(2,7) [OF g(1)] that c(1,2) by fastforce
  ultimately show ?thesis using g(1) c(1,2) by blast
qed

theorem voter_invariant_reachable_witness:
  "\<exists>k' v'. doOneUpdate rat_fp id (demo_kernel (replicate 8 [])) demo_voter = Some (k', v') \<and>
    voter_inv k' v' \<and> v_rep_count v' = 3"
proof -
  let ?k = "demo_kernel (replicate 8 [])"
  have inv: "voter_inv ?k demo_voter" by (simp add: demo_voter_inv)
  have d: "v_timer_started demo_voter = False" "v_rep_type demo_voter = TMR" "v_priority demo_voter = 5"
    "v_rep_count demo_voter = 3" by (simp_all add: demo_voter_def)
  have "\<exists>s. doOneUpdate rat_fp id ?k demo_voter = Some s"
    by (rule doOneUpdate_total) (simp add: d)
  then obtain k' v' where u: "doOneUpdate rat_fp id ?k demo_voter = Some (k', v')" by auto
  have "env_ok id" by (simp add: env_ok_def)
  then have "voter_reaches rat_fp (?k, demo_voter) (k', v')"
    using voter_reaches.update [OF voter_reaches.start _ u] by blast
  from voter_invariant_reachable [OF inv this] show ?thesis using u d(4) by auto
qed

section \<open>Following the bytes\<close>

text \<open>The input side: what one round of writes does to the kernel's pipes.\<close>

lemma fanout_loop:
  assumes "\<forall>r < num. os_lookup k (out r) = Some (WriteEnd (ch r)) \<and> ch r < length (os_pipes k)"
    "inj_on ch {..<num}" "0 \<le> n" "m \<le> num"
  shows "let k' = for_upto m (\<lambda>r k. writeBuffer k (out r) bs n) k in fds_kept k k' \<and>
    (\<forall>r < m. os_pipes k' ! ch r = os_pipes k ! ch r @ take (nat n) bs) \<and>
    (\<forall>q. q \<notin> ch ` {..<m} \<longrightarrow> os_pipes k' ! q = os_pipes k ! q)"
  using assms(4)
proof (induction m)
  case (Suc m)
  let ?k = "for_upto m (\<lambda>r k. writeBuffer k (out r) bs n) k"
  let ?k' = "fst (os_write ?k (out m) bs n)"
  have I: "fds_kept k ?k" "\<forall>r < m. os_pipes ?k ! ch r = os_pipes k ! ch r @ take (nat n) bs"
    "\<forall>q. q \<notin> ch ` {..<m} \<longrightarrow> os_pipes ?k ! q = os_pipes k ! q"
    using Suc by (simp_all add: Let_def)
  have m: "os_lookup ?k (out m) = Some (WriteEnd (ch m))" "ch m < length (os_pipes ?k)"
    using assms(1) Suc.prems I(1) by (simp_all add: fds_kept_def)
  have new: "ch m \<notin> ch ` {..<m}"
    using inj_onD [OF assms(2), of m] Suc.prems by fastforce
  have same: "os_pipes ?k' ! ch m = os_pipes ?k ! ch m @ take (nat n) bs" using os_write_same [OF m assms(3)] .
  have other: "os_pipes ?k' ! q = os_pipes ?k ! q" if "q \<noteq> ch m" for q using os_write_other m(1) that by auto
  have "fds_kept k ?k'" using fds_kept_trans [OF I(1) fds_kept_write] .
  moreover have "os_pipes ?k' ! ch r = os_pipes k ! ch r @ take (nat n) bs" if "r < Suc m" for r
  proof (cases "r = m")
    case True
    then show ?thesis using same I(3) new by simp
  next
    case False
    then have "r < m" using that by simp
    moreover from this have "ch r \<noteq> ch m" using new by (metis imageI lessThan_iff)
    ultimately show ?thesis using other I(2) by simp
  qed
  moreover have "os_pipes ?k' ! q = os_pipes k ! q" if "q \<notin> ch ` {..<Suc m}" for q
    using that other [of q] I(3) by (auto simp: lessThan_Suc)
  ultimately show ?case by (simp add: for_upto_Suc writeBuffer_def Let_def)
qed (simp add: Let_def)

text \<open>
  (C7) Every replica gets the same input. When the voter passes on what it read from an external
  pipe, the kernel pipe of each replica receives exactly the bytes read, once, behind what the
  replica has not read yet; no other pipe of the system changes.
\<close>

theorem processData_fans_out:
  assumes "voter_inv k v" "p < v_pipe_count v" "fd_in (v_ext v ! p) \<noteq> 0" "0 \<le> buff_count (v_ext v ! p)"
    "processData k v p = (k', v')"
  shows "(\<forall>r < v_rep_count v. os_pipes k' ! chan k (v_reps v ! r) p =
      os_pipes k ! chan k (v_reps v ! r) p @ take (nat (buff_count (v_ext v ! p))) (buffer (v_ext v ! p))) \<and>
    (\<forall>q. (\<forall>r < v_rep_count v. q \<noteq> chan k (v_reps v ! r) p) \<longrightarrow> os_pipes k' ! q = os_pipes k ! q)"
proof -
  define s where "s = (if p = v_timer_start v \<and> \<not> v_timer_started v then
     (let (k', t) = generate_timestamp k in (k', v\<lparr>v_timer_started := True, v_watchdog := t\<rparr>)) else (k, v))"
  obtain k1 v1 where s1: "s = (k1, v1)" by fastforce
  have 1: "os_pipes k1 = os_pipes k" "\<forall>f. os_lookup k1 f = os_lookup k f" "v_reps v1 = v_reps v" "v_ext v1 = v_ext v"
    "v_rep_count v1 = v_rep_count v" "v_rep_priority v1 = v_rep_priority v"
    using s1 by (auto simp: s_def generate_timestamp_def os_time_def split: if_splits prod.splits list.splits)
  obtain k2 reps where s2: "balanceReps k1 (v_reps v) (v_rep_count v) (v_rep_priority v) = (k2, reps)" by fastforce
  have "prio_step (k1, v_reps v) (k2, reps)" using balanceReps_step s2 by metis
  note P = prio_stepD [OF this]
  let ?n = "v_rep_count v" and ?ch = "\<lambda>r. chan k (v_reps v ! r) p"
  have ok: "reps_ok k (v_ext v) (v_pipe_count v) ?n (v_reps v)" using assms(1) by (simp add: voter_inv_def)
  have len: "?n \<le> length (v_reps v)" using voter_invD(1) [OF assms(1)] .
  have vp: "vot reps r p = vot (v_reps v) r p" if "r < ?n" for r using prio_onlyD(1) [OF P(3), of r] that len by simp
  have 2: "os_pipes k2 = os_pipes k" "\<forall>f. os_lookup k2 f = os_lookup k f" using P(1,2) 1(1,2) by (simp_all add: pipes_kept_def)
  have w: "\<forall>r < ?n. os_lookup k2 (fd_out (vot reps r p)) = Some (WriteEnd (?ch r)) \<and> ?ch r < length (os_pipes k2)"
    using reps_okD(1) [OF ok _ assms(2)] assms(3) vp 2 by (auto simp: wired_def Let_def)
  have inj: "inj_on ?ch {..<?n}" using chan_inj [OF ok] assms(2) by (auto simp: inj_on_def)
  have k': "k' = for_upto ?n (\<lambda>r k. writeBuffer k (fd_out (vot reps r p)) (buffer (v_ext v ! p)) (buff_count (v_ext v ! p))) k2"
    using assms(5) s1 s2 1(3-6) by (auto simp: processData_def s_def [symmetric] Let_def)
  show ?thesis
    using fanout_loop [OF w inj assms(4) order.refl, of "buffer (v_ext v ! p)"] 2(1) by (auto simp: k' Let_def)
qed

definition demo_input :: voter where
  "demo_input = demo_voter\<lparr>v_ext := (v_ext demo_voter)[0 := (v_ext demo_voter ! 0)
     \<lparr>buff_count := 2, buffer := [7, 8] @ replicate 4094 0\<rparr>]\<rparr>"

lemma demo_input_inv: "length pipes = 8 \<Longrightarrow> voter_inv (demo_kernel pipes) demo_input"
  unfolding demo_input_def
  by (rule set_ext_inv(1) [OF demo_voter_inv]) (simp_all add: same_ends_def, simp add: demo_voter_def)

lemma demo_input_simps:
  "v_pipe_count demo_input = 2" "v_rep_count demo_input = 3" "fd_in (v_ext demo_input ! 0) = 3"
  "buff_count (v_ext demo_input ! 0) = 2" "take 2 (buffer (v_ext demo_input ! 0)) = [7, 8]"
  "v_reps demo_input = v_reps demo_voter" "v_reps demo_voter ! Suc 0 = demo_rep 1"
  by (simp_all add: demo_input_def demo_voter_def)

theorem processData_fans_out_witness:
  "\<exists>k' v'. processData (demo_kernel [[], [], [1], [], [2], [], [3], []]) demo_input 0 = (k', v') \<and>
    os_pipes k' ! 4 = [2, 7, 8] \<and> os_pipes k' ! 1 = []"
proof -
  let ?k = "demo_kernel [[], [], [1], [], [2], [], [3], []]"
  obtain k' v' where run: "processData ?k demo_input 0 = (k', v')" by fastforce
  have c: "chan ?k (v_reps demo_voter ! r) 0 = 2 + 2 * r" if "r < 3" for r
  proof -
    have "r = 0 \<or> r = 1 \<or> r = 2" using that by auto
    then have "v_reps demo_voter ! r = demo_rep r" by (auto simp: demo_voter_def)
    then show ?thesis using wired_chan [OF demo_wired(1) [of _ r]] that by simp
  qed
  have k: "os_pipes ?k = [[], [], [1], [], [2], [], [3], []]" by (simp add: demo_kernel_def)
  have "voter_inv ?k demo_input" by (rule demo_input_inv) simp
  from processData_fans_out [OF this _ _ _ run]
  have "\<forall>r < 3. os_pipes k' ! chan ?k (v_reps demo_voter ! r) 0 = os_pipes ?k ! chan ?k (v_reps demo_voter ! r) 0 @ [7, 8]"
    "\<forall>q. (\<forall>r < 3. q \<noteq> chan ?k (v_reps demo_voter ! r) 0) \<longrightarrow> os_pipes k' ! q = os_pipes ?k ! q"
    by (simp_all add: demo_input_simps(1-6))
  then have "os_pipes k' ! 4 = [2, 7, 8]" "os_pipes k' ! 1 = []"
    using c [of 1] c k by (auto dest: spec [of _ 1])
  then show ?thesis using run by blast
qed

text \<open>
  \<open>ext_output k v p q\<close>: the external pipe \<open>p\<close> is an output whose kernel pipe \<open>q\<close> no other external
  pipe of this voter writes to.
\<close>

definition ext_output :: "os \<Rightarrow> voter \<Rightarrow> nat \<Rightarrow> nat \<Rightarrow> bool" where
  "ext_output k v p q \<longleftrightarrow> p < v_pipe_count v \<and> fd_in (v_ext v ! p) = 0 \<and> fd_out (v_ext v ! p) \<noteq> 0 \<and>
     os_lookup k (fd_out (v_ext v ! p)) = Some (WriteEnd q) \<and> os_lookup k 0 \<noteq> Some (WriteEnd q) \<and>
     (\<forall>i < v_pipe_count v. i \<noteq> p \<longrightarrow> os_lookup k (fd_out (v_ext v ! i)) \<noteq> Some (WriteEnd q))"

lemma ext_output_apart:
  assumes "voter_inv k v" "ext_output k v p q"
  shows "q < length (os_pipes k)" "r < v_rep_count v \<Longrightarrow> i < v_pipe_count v \<Longrightarrow> q \<noteq> chan k (v_reps v ! r) i"
proof -
  have p: "p < v_pipe_count v" "fd_out (v_ext v ! p) \<in> {fd_in (v_ext v ! p), fd_out (v_ext v ! p)} - {0}"
    "os_lookup k (fd_out (v_ext v ! p)) = Some (WriteEnd q)"
    using assms(2) by (simp_all add: ext_output_def)
  have "ext_apart k (v_ext v) (v_pipe_count v) (v_rep_count v) (v_reps v)" using assms(1) by (simp add: voter_inv_def)
  then obtain q' where "q' < length (os_pipes k)"
    "os_lookup k (fd_out (v_ext v ! p)) = Some (ReadEnd q') \<or> os_lookup k (fd_out (v_ext v ! p)) = Some (WriteEnd q')"
    "\<forall>r < v_rep_count v. \<forall>i < v_pipe_count v. q' \<noteq> chan k (v_reps v ! r) i"
    unfolding ext_apart_def using p(1,2) by blast
  then show "q < length (os_pipes k)" "r < v_rep_count v \<Longrightarrow> i < v_pipe_count v \<Longrightarrow> q \<noteq> chan k (v_reps v ! r) i"
    using p(3) by auto
qed

text \<open>The descriptors of the external pipes outlive the restart of a replica.\<close>

lemma ext_fd_kept:
  assumes "voter_inv k v" "e < v_rep_count v" "i < v_pipe_count v"
    "rebuilt (v_ext v) (v_pipe_count v) (v_rep_count v) e k (v_reps v) k' reps"
    "f = 0 \<or> f = fd_in (v_ext v ! i) \<or> f = fd_out (v_ext v ! i)"
  shows "os_lookup k' f = os_lookup k f"
proof -
  have ok: "reps_ok k (v_ext v) (v_pipe_count v) (v_rep_count v) (v_reps v)"
    "ext_apart k (v_ext v) (v_pipe_count v) (v_rep_count v) (v_reps v)" using assms(1) by (simp_all add: voter_inv_def)
  have "f \<in> open_fds k - rep_fds (v_reps v ! e)"
  proof (cases "f = 0")
    case True
    then show ?thesis using ok(1) rep_fds_owner [OF ok(1) assms(2), of 0] by (auto simp: reps_ok_def)
  next
    case False
    then have "f \<in> {fd_in (v_ext v ! i), fd_out (v_ext v ! i)} - {0}" using assms(5) by blast
    then obtain q where q: "os_lookup k f = Some (ReadEnd q) \<or> os_lookup k f = Some (WriteEnd q)"
      "\<forall>r < v_rep_count v. \<forall>i < v_pipe_count v. q \<noteq> chan k (v_reps v ! r) i"
      using ok(2) assms(3) unfolding ext_apart_def by blast
    have "\<forall>j < v_pipe_count v. q \<noteq> chan k (v_reps v ! e) j" using q(2) assms(2) by blast
    then have "f \<notin> rep_fds (v_reps v ! e)" using rep_fds_owner [OF ok(1) assms(2), of f] q(1) by fastforce
    then show ?thesis using q(1) by (auto simp: open_fds_def)
  qed
  then show ?thesis using assms(4) by (simp add: rebuilt_def)
qed

lemma stealPipes_other:
  assumes "stealPipes k rep = (k', bufs)"
    "\<forall>i < r_pipe_count rep. r_in_copy rep ! i \<noteq> 0 \<longrightarrow> os_lookup k (r_in_copy rep ! i) \<noteq> Some (ReadEnd q)"
  shows "os_pipes k' ! q = os_pipes k ! q"
proof -
  let ?ready = "os_select k (filter (\<lambda>fd. fd \<noteq> 0) (map (\<lambda>i. r_in_copy rep ! i) [0..<r_pipe_count rep]))"
  have "fds_kept k (fst s) \<and> os_pipes (fst s) ! q = os_pipes k ! q"
    if "s = for_upto (r_pipe_count rep) (steal_step rep ?ready) (k, replicate PIPE_LIMIT ([], 0))" for s
    unfolding that
  proof (rule for_upto_invariant [where I = "\<lambda>s. fds_kept k (fst s) \<and> os_pipes (fst s) ! q = os_pipes k ! q"])
    fix i and t :: "os \<times> (byte list \<times> int) list"
    assume i: "i < r_pipe_count rep" and t: "fds_kept k (fst t) \<and> os_pipes (fst t) ! q = os_pipes k ! q"
    obtain k1 b where kb: "t = (k1, b)" by (cases t)
    obtain k2 res where rd: "os_read k1 (r_in_copy rep ! i) 4096 = (k2, res)" by fastforce
    have "os_pipes k2 ! q = os_pipes k1 ! q" if "r_in_copy rep ! i \<in> set ?ready"
    proof -
      have "r_in_copy rep ! i \<noteq> 0" using that by (auto simp: os_select_def)
      then have "os_lookup k1 (r_in_copy rep ! i) \<noteq> Some (ReadEnd q)"
        using assms(2) i t kb by (simp add: fds_kept_def)
      then show ?thesis using os_read_other [OF rd] by blast
    qed
    then show "fds_kept k (fst (steal_step rep ?ready i t)) \<and> os_pipes (fst (steal_step rep ?ready i t)) ! q = os_pipes k ! q"
      using steal_step_fds [of k t rep ?ready i] t kb rd by (cases res) (auto simp: steal_step_def)
  qed simp
  then show ?thesis using assms(1) by (simp add: stealPipes_def Let_def)
qed

lemma returnPipes_other:
  assumes "\<forall>i < r_pipe_count rep. os_lookup k (fd_out (r_vot_pipes rep ! i)) \<noteq> Some (WriteEnd q)"
  shows "os_pipes (returnPipes k rep bufs) ! q = os_pipes k ! q"
proof -
  have "fds_kept k (returnPipes k rep bufs) \<and> os_pipes (returnPipes k rep bufs) ! q = os_pipes k ! q"
    unfolding returnPipes_def
  proof (rule for_upto_invariant [where I = "\<lambda>t. fds_kept k t \<and> os_pipes t ! q = os_pipes k ! q"], simp)
    fix i t assume i: "i < r_pipe_count rep" and t: "fds_kept k t \<and> os_pipes t ! q = os_pipes k ! q"
    have "os_lookup t (fd_out (r_vot_pipes rep ! i)) \<noteq> Some (WriteEnd q)" using assms i t by (simp add: fds_kept_def)
    from os_write_other [OF this] show "fds_kept k (if 0 < snd (bufs ! i)
        then writeBuffer t (fd_out (r_vot_pipes rep ! i)) (fst (bufs ! i)) (snd (bufs ! i)) else t) \<and>
      os_pipes (if 0 < snd (bufs ! i)
        then writeBuffer t (fd_out (r_vot_pipes rep ! i)) (fst (bufs ! i)) (snd (bufs ! i)) else t) ! q = os_pipes k ! q"
      using t fds_kept_trans [of k t, OF _ fds_kept_write] by (simp add: writeBuffer_def)
  qed
  then show ?thesis by blast
qed

lemma bytesReady_cong:
  "(\<And>r. r < num \<Longrightarrow> buff_count (vot reps r p) = buff_count (vot reps' r p)) \<Longrightarrow>
    bytesReady reps num p = bytesReady reps' num p"
  unfolding bytesReady_def by (rule for_upto_cong) simp

text \<open>
  \<open>tracked\<close> follows the kernel pipe \<open>q\<close> of output \<open>p\<close> through the loop after a restart: untouched
  until the loop reaches \<open>p\<close>, then extended once, by \<open>sent\<close>.
\<close>

definition tracked :: "nat \<Rightarrow> nat \<Rightarrow> byte list \<Rightarrow> os \<Rightarrow> voter \<Rightarrow> nat \<Rightarrow> os \<times> voter \<Rightarrow> bool" where
  "tracked p q sent k0 v0 i s \<longleftrightarrow> (case s of (k, v) \<Rightarrow>
     quiet k0 v0 k v \<and> v_ext v = v_ext v0 \<and>
     (\<forall>j \<ge> i. \<forall>o' < v_rep_count v0. vot (v_reps v) o' j = vot (v_reps v0) o' j) \<and>
     os_pipes k ! q = os_pipes k0 ! q @ (if p < i then sent else []))"

lemma copy_and_send_tracked:
  fixes v0 p r e
  defines "d \<equiv> copyPipe (vot (v_reps v0) e p) (vot (v_reps v0) r p)"
  defines "m \<equiv> bytesReady (set_vot (v_reps v0) e p d) (v_rep_count v0) p"
  assumes R: "resync e v0 i s" and T: "tracked p q (take (nat m) (vp_contents (vot (v_reps v0) r p))) k0 v0 i s"
    and ix: "i < v_pipe_count v0" "p < v_pipe_count v0" "r < v_rep_count v0" "e < v_rep_count v0" "r \<noteq> e"
    and len0: "v_rep_count v0 \<le> length (v_reps v0)" "length (r_vot_pipes (v_reps v0 ! e)) = PIPE_LIMIT"
    and out: "fd_in (v_ext v0 ! p) = 0" "os_lookup k0 (fd_out (v_ext v0 ! p)) = Some (WriteEnd q)" "q < length (os_pipes k0)"
      "\<forall>j < v_pipe_count v0. j \<noteq> p \<longrightarrow> os_lookup k0 (fd_out (v_ext v0 ! j)) \<noteq> Some (WriteEnd q)"
  shows "tracked p q (take (nat m) (vp_contents (vot (v_reps v0) r p))) k0 v0 (Suc i) (copy_and_send e r i s)"
proof -
  let ?sent = "take (nat m) (vp_contents (vot (v_reps v0) r p))"
  obtain k v where s: "s = (k, v)" by (cases s)
  have w: "voter_wired k v" and c: "v_pipe_count v = v_pipe_count v0" "v_rep_count v = v_rep_count v0"
    using R by (auto simp: resync_def s cfg_kept_def)
  have t: "fds_kept k0 k" "v_ext v = v_ext v0"
    "\<And>j o'. i \<le> j \<Longrightarrow> o' < v_rep_count v0 \<Longrightarrow> vot (v_reps v) o' j = vot (v_reps v0) o' j"
    "os_pipes k ! q = os_pipes k0 ! q @ (if p < i then ?sent else [])"
    and q0: "quiet k0 v0 k v"
    using T by (auto simp: tracked_def s quiet_def)
  note D = voter_wiredD [OF w, unfolded c]
  have i: "i < PIPE_LIMIT" "p < PIPE_LIMIT" "e < length (v_reps v)" using D(1,2) ix by auto
  show ?thesis
  proof (cases "fd_in (vot (v_reps v) r i) = 0")
    case True
    then have "i \<noteq> p" using D(6) [OF ix(3,1)] out(1) t(2) by auto
    then show ?thesis using True t q0 by (auto simp: tracked_def s copy_and_send_def)
  next
    case False
    let ?d = "copyPipe (vot (v_reps v) e i) (vot (v_reps v) r i)"
    let ?v = "v\<lparr>v_reps := set_vot (v_reps v) e i ?d\<rparr>"
    obtain k' v' where run: "sendPipe k ?v i r = (k', v')" by fastforce
    have cs: "copy_and_send e r i s = (k', v')" using False run by (simp add: s copy_and_send_def Let_def)
    have w1: "voter_wired k ?v" using copied_ring(1) [OF w] ix(3,4) c i(1) by simp
    note D1 = voter_wiredD [OF w1]
    have "\<forall>j < v_rep_count ?v. wf_vp (vot (v_reps ?v) j i)" "r < v_rep_count ?v" using D1(4) i(1) ix(3) c by auto
    note S = sendPipe_spec [OF this(1) D1(1) this(2) run]
    let ?n = "bytesReady (v_reps ?v) (v_rep_count ?v) i"
    have "\<forall>j < v_rep_count ?v. \<forall>q < PIPE_LIMIT. wf_vp (vot (v_reps ?v) j q)"
      "\<forall>j < v_rep_count ?v. length (r_vot_pipes (v_reps ?v ! j)) = PIPE_LIMIT" "r < v_rep_count ?v"
      using D1(4,5) ix(3) c by auto
    note Q = sendPipe_quiet(1) [OF this(1,2) D1(1) this(3) i(1) run]
    have "quiet k v k ?v" using copied_ring(2) [OF w] ix(3,4) c i(1) by simp
    then have fk: "quiet k0 v0 k' v'" using quiet_trans q0 Q by blast
    have vo: "vot (v_reps v') o' j = vot (v_reps v) o' j" if "Suc i \<le> j" "o' < v_rep_count v0" for j o'
      using that S(7) D(1) i(3) c by (cases "o' = e") auto
    have r: "vot (v_reps ?v) r i = vot (v_reps v) r i" using ix(5) by simp
    have out_i: "os_lookup k (fd_out (v_ext v ! j)) = os_lookup k0 (fd_out (v_ext v0 ! j))" for j
      using t(1,2) by (simp add: fds_kept_def)
    have "os_pipes k' ! q = os_pipes k0 ! q @ (if p < Suc i then ?sent else [])"
    proof (cases "i = p")
      case True
      have ve: "vot (v_reps v) o' p = vot (v_reps v0) o' p" if "o' < v_rep_count v0" for o' using t(3) that True by simp
      have "buff_count (vot (set_vot (v_reps v) e p ?d) o' p) = buff_count (vot (set_vot (v_reps v0) e p d) o' p)"
        if "o' < v_rep_count v0" for o'
        using ve [OF that] ve [OF ix(3)] ve [OF ix(4)] True i D(5) [OF ix(4)] len0 ix(4)
        by (cases "o' = e") (simp_all add: d_def)
      then have "bytesReady (set_vot (v_reps v) e p ?d) (v_rep_count v0) p = m"
        unfolding m_def by (rule bytesReady_cong)
      then have "?n = m" using True c(2) by simp
      then have "os_pipes k' ! q = os_pipes k ! q @ take (nat m) (vp_contents (vot (v_reps v) r p))"
        using S(1,3) r True os_write_same [of k "fd_out (v_ext v ! p)" q m] out_i [of p] out(2,3) t(1)
        by (auto simp: fds_kept_def)
      then show ?thesis using t(4) True ve [OF ix(3)] by simp
    next
      case False
      have "os_lookup k (fd_out (v_ext v ! i)) \<noteq> Some (WriteEnd q)" using out(4) ix(1) False out_i [of i] by simp
      then have "os_pipes k' ! q = os_pipes k ! q" using S(3) os_write_other by simp
      then show ?thesis using t(4) False by (simp add: less_Suc_eq)
    qed
    then show ?thesis using fk vo t(2,3) S(6) by (simp add: tracked_def cs)
  qed
qed

lemma restart_prep_forwards:
  assumes inv: "voter_inv k v" and ix: "e < v_rep_count v" "r < v_rep_count v" "r \<noteq> e"
    and out: "ext_output k v p q" and run: "restart_prep k v e r = (k', v')"
  obtains m where "\<forall>o' < v_rep_count v. o' \<noteq> e \<longrightarrow> m \<le> buff_count (vot (v_reps v) o' p)"
    "\<exists>o' < v_rep_count v. o' \<noteq> e \<and> m = buff_count (vot (v_reps v) o' p)"
    "os_pipes k' ! q = os_pipes k ! q @ take (nat m) (vp_contents (vot (v_reps v) r p))"
    "\<forall>i < v_pipe_count v. length (os_pipes k) \<le> chan k' (v_reps v' ! e) i"
proof -
  have p: "p < v_pipe_count v" "fd_in (v_ext v ! p) = 0" "p < PIPE_LIMIT"
    using out voter_invD(2) [OF inv] by (auto simp: ext_output_def)
  let ?n = "v_rep_count v" and ?pc = "v_pipe_count v"
  have q: "q < length (os_pipes k)" "\<And>j i. j < ?n \<Longrightarrow> i < ?pc \<Longrightarrow> q \<noteq> chan k (v_reps v ! j) i"
    using ext_output_apart [OF inv out] by auto
  obtain k1 bufs where s1: "stealPipes k (v_reps v ! r) = (k1, bufs)" by fastforce
  note f1 = stealPipes_fds [OF s1]
  let ?v = "v\<lparr>v_timer_started := False\<rparr>"
  have inv1: "voter_inv k1 ?v" using voter_inv_fds [OF inv f1] by simp
  have ok: "reps_ok k (v_ext v) ?pc ?n (v_reps v)" using inv by (simp add: voter_inv_def)
  have "os_lookup k (r_in_copy (v_reps v ! r) ! i) \<noteq> Some (ReadEnd q)"
    if "i < ?pc" "r_in_copy (v_reps v ! r) ! i \<noteq> 0" for i
    using reps_okD(1) [OF ok ix(2) that(1)] q(2) [OF ix(2) that(1)] that(2) by (auto simp: wired_def Let_def split: if_splits)
  then have b1: "os_pipes k1 ! q = os_pipes k ! q"
    using stealPipes_other [OF s1] voter_invD(6) [OF inv ix(2)] by simp
  obtain k2 reps where s2: "restartReplica k1 (v_reps v) ?n (v_sd v) (v_ext v) r e (v_rep_priority v) = (k2, reps)"
    by fastforce
  have R: "resync e ?v 0 (k2, ?v\<lparr>v_reps := reps\<rparr>)" and B: "rebuilt (v_ext v) ?pc ?n e k1 (v_reps v) k2 reps"
    using restart_resync [OF inv1, of e r "v_sd v" "v_rep_priority v" k2 reps] ix s2 by simp_all
  let ?v2 = "?v\<lparr>v_reps := reps\<rparr>"
  have b2: "os_pipes k2 ! q = os_pipes k ! q" "q < length (os_pipes k2)" "length (os_pipes k) \<le> length (os_pipes k2)"
    using B b1 q(1) f1 by (auto simp: rebuilt_def nth_append fds_kept_def)
  have l2: "os_lookup k2 f = os_lookup k f" if "i < ?pc" "f = 0 \<or> f = fd_in (v_ext v ! i) \<or> f = fd_out (v_ext v ! i)" for f i
    using ext_fd_kept [OF inv1, of e i k2 reps f] ix(1) that B f1 by (simp add: fds_kept_def)
  have w2: "voter_wired k2 ?v2" using R by (simp add: resync_def)
  note D2 = voter_wiredD [OF w2]
  have len2: "?n \<le> length reps" "length (r_vot_pipes (reps ! e)) = PIPE_LIMIT" using D2(1) D2(5) [of e] ix(1) by simp_all
  have pc: "r_pipe_count (reps ! r) = ?pc" using w2 ix(2) by (simp add: voter_wired_def reps_ok_def rep_ok_def)
  let ?d = "copyPipe (vot reps e p) (vot reps r p)"
  define m where "m = bytesReady (set_vot reps e p ?d) ?n p"
  let ?sent = "take (nat m) (vp_contents (vot reps r p))"
  obtain k3 v3 where s3: "for_upto ?pc (copy_and_send e r) (k2, ?v2) = (k3, v3)" by fastforce
  have R2: "resync e ?v2 0 (k2, ?v2)" using R by (simp add: resync_def cfg_kept_def)
  have "resync e ?v2 ?pc (k3, v3) \<and> tracked p q ?sent k2 ?v2 ?pc (k3, v3)"
    unfolding s3 [symmetric]
  proof (rule for_upto_indexed_invariant [where I = "\<lambda>i s. resync e ?v2 i s \<and> tracked p q ?sent k2 ?v2 i s"])
    show "resync e ?v2 0 (k2, ?v2) \<and> tracked p q ?sent k2 ?v2 0 (k2, ?v2)" using R2 by (simp add: tracked_def)
    fix i t assume i: "i < ?pc" and t: "resync e ?v2 i t \<and> tracked p q ?sent k2 ?v2 i t"
    have "resync e ?v2 (Suc i) (copy_and_send e r i t)" using copy_and_send_step [of e ?v2 i t r] t i ix by simp
    moreover have "tracked p q ?sent k2 ?v2 (Suc i) (copy_and_send e r i t)"
      using copy_and_send_tracked [of e ?v2 i t p q r k2] t i ix p len2 l2 out b2(2)
      by (simp add: m_def ext_output_def)
    ultimately show "resync e ?v2 (Suc i) (copy_and_send e r i t) \<and> tracked p q ?sent k2 ?v2 (Suc i) (copy_and_send e r i t)" ..
  qed
  then have R3: "resync e ?v2 (v_pipe_count ?v2) (k3, v3)" and T3: "fds_kept k2 k3" "v_ext v3 = v_ext v"
    "os_pipes k3 ! q = os_pipes k ! q @ ?sent" and e3: "ends_kept (reps ! e) (v_reps v3 ! e)"
    using p(1) b2(1) ix(1) by (auto simp: tracked_def quiet_def)
  note inv3 = resync_done [OF R3]
  have c3: "v_rep_count v3 = ?n" "v_pipe_count v3 = ?pc" using inv3(2) by (simp_all add: cfg_kept_def)
  have out3: "ext_output k3 v3 p q"
    using out T3(1,2) c3(2) l2 p(1) by (simp add: ext_output_def fds_kept_def)
  have wr: "\<forall>i < r_pipe_count (v_reps v3 ! j). os_lookup k3 (fd_out (r_vot_pipes (v_reps v3 ! j) ! i)) \<noteq> Some (WriteEnd q)"
    if "j < ?n" for j
  proof (intro allI impI)
    fix i assume "i < r_pipe_count (v_reps v3 ! j)"
    then have i: "i < ?pc" using voter_invD(6) [OF inv3(1), of j] that c3 by simp
    have "reps_ok k3 (v_ext v3) ?pc ?n (v_reps v3)" using inv3(1) c3 by (simp add: voter_inv_def)
    from reps_okD(1) [OF this that i] ext_output_apart(2) [OF inv3(1) out3, of j i] that i c3 out3
    show "os_lookup k3 (fd_out (r_vot_pipes (v_reps v3 ! j) ! i)) \<noteq> Some (WriteEnd q)"
      by (auto simp: wired_def Let_def ext_output_def split: if_splits)
  qed
  let ?k4 = "returnPipes k3 (v_reps v3 ! e) bufs"
  have k': "k' = returnPipes ?k4 (v_reps v3 ! r) bufs" "v' = v3"
    using run s1 s2 s3 pc by (auto simp: restart_prep_def Let_def)
  have f4: "fds_kept k3 ?k4" "fds_kept ?k4 k'" using returnPipes_fds k'(1) by simp_all
  have "os_pipes k' ! q = os_pipes ?k4 ! q"
    unfolding k'(1) by (rule returnPipes_other) (use wr [OF ix(2)] f4(1) in \<open>simp add: fds_kept_def\<close>)
  also have "\<dots> = os_pipes k3 ! q" by (rule returnPipes_other [OF wr [OF ix(1)]])
  finally have bytes: "os_pipes k' ! q = os_pipes k ! q @ ?sent" using T3(3) by simp
  have vr: "vot reps o' p = vot (v_reps v) o' p" if "o' < ?n" "o' \<noteq> e" for o'
    using B that by (simp add: rebuilt_def same_pipes_def)
  have cnt: "buff_count (vot (set_vot reps e p ?d) o' p) = buff_count (vot (v_reps v) (if o' = e then r else o') p)" if "o' < ?n" for o'
    using that vr [of o'] vr [OF ix(2,3)] len2 p(3) ix(1) copyPipe_fields(1) by simp
  have le: "m \<le> buff_count (vot (v_reps v) o' p)" if "o' < ?n" "o' \<noteq> e" for o'
    using bytesReady_le [of "set_vot reps e p ?d" ?n p] cnt [OF that(1)] that unfolding m_def by auto
  have "m < 4096" using le [OF ix(2,3)] voter_invD(7) [OF inv ix(2) p(3)] by (simp add: wf_simps)
  then obtain o1 where o1: "o1 < ?n" "m = buff_count (vot (set_vot reps e p ?d) o1 p)"
    using bytesReady_attained [of "set_vot reps e p ?d" ?n p] unfolding m_def by auto
  show thesis
  proof (rule that)
    show "\<forall>o' < ?n. o' \<noteq> e \<longrightarrow> m \<le> buff_count (vot (v_reps v) o' p)" using le by blast
    show "os_pipes k' ! q = os_pipes k ! q @ take (nat m) (vp_contents (vot (v_reps v) r p))"
      using bytes vr [OF ix(2,3)] by simp
    show "\<exists>o' < ?n. o' \<noteq> e \<and> m = buff_count (vot (v_reps v) o' p)"
      using o1 cnt [OF o1(1)] ix(2,3) by (intro exI [of _ "if o1 = e then r else o1"]) simp
    show "\<forall>i < ?pc. length (os_pipes k) \<le> chan k' (v_reps v' ! e) i"
    proof (intro allI impI)
      fix i assume i: "i < ?pc"
      then have "same_ends (vot (v_reps v3) e i) (vot reps e i)"
        using e3 len2(2) voter_invD(2) [OF inv] by (simp add: ends_kept_def)
      then have "chan k' (v_reps v' ! e) i = chan k2 (reps ! e) i"
        using T3(1) f4 k'(2) by (simp add: chan_def same_ends_def fds_kept_def Let_def)
      then show "length (os_pipes k) \<le> chan k' (v_reps v' ! e) i"
        using B i f1 by (simp add: rebuilt_def fds_kept_def)
    qed
  qed
qed

section \<open>Voting\<close>

text \<open>What a replica offers for comparison: its oldest \<open>n\<close> bytes.\<close>

abbreviation offer :: "voter \<Rightarrow> nat \<Rightarrow> int \<Rightarrow> nat \<Rightarrow> byte list" where
  "offer v p n r \<equiv> take (nat n) (vp_contents (vot (v_reps v) r p))"

lemma compare_offers:
  assumes "voter_inv k v" "p < v_pipe_count v" "fd_in (v_ext v ! p) = 0" "a < v_rep_count v" "b < v_rep_count v"
  defines "n \<equiv> bytesReady (v_reps v) (v_rep_count v) p"
  shows "compareBuffs (vot (v_reps v) a p) (vot (v_reps v) b p) n = 0 \<longleftrightarrow> offer v p n a = offer v p n b"
proof (rule compareBuffs_contents)
  have p: "p < PIPE_LIMIT" using assms(2) voter_invD(2) [OF assms(1)] by simp
  show "wf_vp (vot (v_reps v) a p)" "wf_vp (vot (v_reps v) b p)" using voter_invD(7) [OF assms(1)] assms(4,5) p by auto
  show "0 \<le> n" unfolding n_def using bytesReady_nonneg voter_invD(7) [OF assms(1) _ p] by blast
  show "n \<le> buff_count (vot (v_reps v) a p)" "n \<le> buff_count (vot (v_reps v) b p)"
    using bytesReady_le [of "v_reps v" "v_rep_count v" p] assms(4,5) by (auto simp: n_def)
  have "lockstep (v_ext v) (v_pipe_count v) (v_rep_count v) (v_reps v)" using assms(1) by (simp add: voter_inv_def)
  then show "buff_index (vot (v_reps v) a p) = buff_index (vot (v_reps v) b p)"
    using assms(2-5) unfolding lockstep_def by metis
qed

lemma sendPipe_forwards:
  assumes "voter_inv k v" "ext_output k v p q" "r < v_rep_count v" "sendPipe k v p r = (k', v')"
  shows "os_pipes k' ! q = os_pipes k ! q @ offer v p (bytesReady (v_reps v) (v_rep_count v) p) r"
proof -
  have p: "p < PIPE_LIMIT" "os_lookup k (fd_out (v_ext v ! p)) = Some (WriteEnd q)"
    using assms(2) voter_invD(2) [OF assms(1)] by (auto simp: ext_output_def)
  have "\<forall>i < v_rep_count v. wf_vp (vot (v_reps v) i p)" using voter_invD(7) [OF assms(1)] p(1) by blast
  note S = sendPipe_spec [OF this voter_invD(1) [OF assms(1)] assms(3,4)]
  show ?thesis
    using S(1,3) os_write_same [OF p(2) ext_output_apart(1) [OF assms(1,2)]] by auto
qed

lemma two: "Suc (Suc 0) = 2"
  by simp

lemma upt_3: "[0..<3] = [0, 1, 2]"
  by (simp add: upt_rec numeral_2_eq_2)

text \<open>The replica that decides: the first that agrees with its successor.\<close>

lemma tmr_choice:
  assumes inv: "voter_inv k v" and t: "v_rep_type v = TMR" and out: "ext_output k v p q"
  defines "n \<equiv> bytesReady (v_reps v) 3 p"
  assumes n: "n \<noteq> 0" and ij: "i < 3" "j < 3" "i \<noteq> j" "offer v p n i = offer v p n j"
  obtains r where "r < 3" "offer v p n r = offer v p n ((r + 1) mod 3)"
    "checkSDC k v p = (if offer v p n r = offer v p n ((r + 2) mod 3) then sendPipe k v p r
      else restart_prep k v ((r + 2) mod 3) r)"
proof -
  have c: "v_rep_count v = 3" using inv t by (simp add: voter_inv_def rep_count_ok_def)
  have cmp: "compareBuffs (vot (v_reps v) a p) (vot (v_reps v) b p) n = 0 \<longleftrightarrow> offer v p n a = offer v p n b"
    if "a < 3" "b < 3" for a b
    using compare_offers [OF inv, of p a b] out that c by (simp add: ext_output_def n_def)
  have sdc: "checkSDC k v p = tmr_vote k v p n [0, 1, 2]"
    using n t c by (simp add: checkSDC_def n_def Let_def upt_3 del: tmr_vote.simps)
  have "{i, j} = {0, 1} \<or> {i, j} = {1, 2} \<or> {i, j} = {0, 2}" using ij(1-3) by auto
  then have "offer v p n 0 = offer v p n 1 \<or> offer v p n 1 = offer v p n 2 \<or> offer v p n 2 = offer v p n 0"
    using ij(4) by (metis doubleton_eq_iff)
  then consider "offer v p n 0 = offer v p n 1" | "offer v p n 0 \<noteq> offer v p n 1" "offer v p n 1 = offer v p n 2"
    | "offer v p n 0 \<noteq> offer v p n 1" "offer v p n 1 \<noteq> offer v p n 2" "offer v p n 2 = offer v p n 0" by blast
  then show thesis
  proof cases
    case 1
    then show ?thesis using that [of 0] by (simp add: sdc c cmp Let_def two)
  next
    case 2
    then show ?thesis using that [of 1] by (simp add: sdc c cmp Let_def two)
  next
    case 3
    then show ?thesis using that [of 2] by (simp add: sdc c cmp Let_def two)
  qed
qed

text \<open>
  (C4) Triple redundancy masks one faulty replica. When all three replicas have written something to
  an output pipe and two of them agree on the \<open>n\<close> bytes that all have, then whatever the third one
  wrote, the bytes that leave the voter on that pipe start with the \<open>n\<close> bytes of the majority, and
  are exactly these when all three agree.
\<close>

theorem tmr_forwards_majority:
  assumes "voter_inv k v" "v_rep_type v = TMR" "ext_output k v p q" "bytesReady (v_reps v) 3 p = n" "n \<noteq> 0"
    "i < 3" "j < 3" "i \<noteq> j" "offer v p n i = offer v p n j" "checkSDC k v p = (k', v')"
  shows "\<exists>bs. os_pipes k' ! q = os_pipes k ! q @ bs \<and> take (nat n) bs = offer v p n i \<and>
    (offer v p n 0 = offer v p n 1 \<and> offer v p n 1 = offer v p n 2 \<longrightarrow> bs = offer v p n i)"
proof -
  have c: "v_rep_count v = 3" using assms(1,2) by (simp add: voter_inv_def rep_count_ok_def)
  obtain r where r: "r < 3" "offer v p n r = offer v p n ((r + 1) mod 3)"
    "checkSDC k v p = (if offer v p n r = offer v p n ((r + 2) mod 3) then sendPipe k v p r
      else restart_prep k v ((r + 2) mod 3) r)"
    using tmr_choice [OF assms(1-3)] assms(4-9) by blast
  have three: "r = 0 \<or> r = 1 \<or> r = 2" "i = 0 \<or> i = 1 \<or> i = 2" "j = 0 \<or> j = 1 \<or> j = 2" using r(1) assms(6,7) by auto
  have maj: "offer v p n r = offer v p n i"
    using three r(2) assms(8,9) by (auto simp: two)
  show ?thesis
  proof (cases "offer v p n r = offer v p n ((r + 2) mod 3)")
    case True
    then have "sendPipe k v p r = (k', v')" using r(3) assms(10) by simp
    then have "os_pipes k' ! q = os_pipes k ! q @ offer v p n r"
      using sendPipe_forwards [OF assms(1,3)] r(1) c assms(4) by simp
    then show ?thesis using maj by auto
  next
    case False
    then have run: "restart_prep k v ((r + 2) mod 3) r = (k', v')" using r(3) assms(10) by simp
    have e: "(r + 2) mod 3 < v_rep_count v" "r < v_rep_count v" "r \<noteq> (r + 2) mod 3" using three(1) c by auto
    obtain m where m: "\<exists>o' < v_rep_count v. o' \<noteq> (r + 2) mod 3 \<and> m = buff_count (vot (v_reps v) o' p)"
      "os_pipes k' ! q = os_pipes k ! q @ take (nat m) (vp_contents (vot (v_reps v) r p))"
      using restart_prep_forwards [OF assms(1) e assms(3) run] by metis
    have "n \<le> m" using m(1) bytesReady_le [of "v_reps v" 3 p] c assms(4) by auto
    then have "take (nat n) (take (nat m) (vp_contents (vot (v_reps v) r p))) = offer v p n i"
      using maj by (simp add: min_def nat_le_eq_zle) 
    moreover have "\<not> (offer v p n 0 = offer v p n 1 \<and> offer v p n 1 = offer v p n 2)" using False three(1) by (auto simp: two)
    ultimately show ?thesis using m(2) by blast
  qed
qed

text \<open>
  (C5) The replica that is outvoted is replaced: when two replicas agree and the third differs from
  them, the third is connected afterwards by pipes that did not exist before, on every pipe of the
  controller, and the voter is again in a state that satisfies its invariant.
\<close>

theorem tmr_replaces_minority:
  assumes "voter_inv k v" "v_rep_type v = TMR" "ext_output k v p q" "bytesReady (v_reps v) 3 p = n" "n \<noteq> 0"
    "i < 3" "j < 3" "e < 3" "i \<noteq> j" "e \<noteq> i" "e \<noteq> j" "offer v p n i = offer v p n j" "offer v p n e \<noteq> offer v p n i"
    "checkSDC k v p = (k', v')"
  shows "voter_inv k' v' \<and> (\<forall>x < v_pipe_count v. length (os_pipes k) \<le> chan k' (v_reps v' ! e) x)"
proof -
  have c: "v_rep_count v = 3" using assms(1,2) by (simp add: voter_inv_def rep_count_ok_def)
  obtain r where r: "r < 3" "offer v p n r = offer v p n ((r + 1) mod 3)"
    "checkSDC k v p = (if offer v p n r = offer v p n ((r + 2) mod 3) then sendPipe k v p r
      else restart_prep k v ((r + 2) mod 3) r)"
    using tmr_choice [OF assms(1-3)] assms(4-9,12) by blast
  have "r = 0 \<or> r = 1 \<or> r = 2" "i = 0 \<or> i = 1 \<or> i = 2" "j = 0 \<or> j = 1 \<or> j = 2" "e = 0 \<or> e = 1 \<or> e = 2"
    using r(1) assms(6-8) by auto
  then have e: "e = (r + 2) mod 3" "offer v p n r \<noteq> offer v p n ((r + 2) mod 3)"
    using r(2) assms(9-13) by (auto simp: two)
  then have run: "restart_prep k v e r = (k', v')" using r(3) assms(14) by simp
  have ix: "e < v_rep_count v" "r < v_rep_count v" "r \<noteq> e" using e c r(1) assms(8) by auto
  show ?thesis
    using restart_prep_forwards [OF assms(1) ix assms(3) run] restart_prep_inv(1) [OF assms(1) ix run] by metis
qed

text \<open>
  Without a majority nothing leaves the voter: when the three replicas offer three different
  values, the vote changes neither the kernel nor the voter, and the bytes stay buffered.
\<close>

theorem tmr_no_majority_holds:
  assumes "voter_inv k v" "v_rep_type v = TMR" "ext_output k v p q" "bytesReady (v_reps v) 3 p = n"
    "offer v p n 0 \<noteq> offer v p n 1" "offer v p n 1 \<noteq> offer v p n 2" "offer v p n 2 \<noteq> offer v p n 0"
  shows "checkSDC k v p = (k, v)"
proof -
  have c: "v_rep_count v = 3" using assms(1,2) by (simp add: voter_inv_def rep_count_ok_def)
  have cmp: "compareBuffs (vot (v_reps v) a p) (vot (v_reps v) b p) n = 0 \<longleftrightarrow> offer v p n a = offer v p n b"
    if "a < 3" "b < 3" for a b
    using compare_offers [OF assms(1), of p a b] assms(3,4) that c by (simp add: ext_output_def)
  show ?thesis
    using assms(2,4-7) c by (simp add: checkSDC_def Let_def upt_3 cmp two)
qed

section \<open>Concrete votes\<close>

text \<open>Three replicas that have written \<open>a\<close>, \<open>b\<close> and \<open>c\<close> after the byte 7 to the output pipe.\<close>

definition demo_written :: "nat \<Rightarrow> byte \<Rightarrow> vote_pipe" where
  "demo_written r x = (vot (v_reps demo_voter) r 1)\<lparr>buff_count := 2, buffer := [7, x] @ replicate 4094 0\<rparr>"

definition demo_vote :: "byte \<Rightarrow> byte \<Rightarrow> byte \<Rightarrow> voter" where
  "demo_vote a b c = demo_voter\<lparr>v_reps := set_vot (set_vot (set_vot (v_reps demo_voter) 0 1 (demo_written 0 a))
     1 1 (demo_written 1 b)) 2 1 (demo_written 2 c)\<rparr>"

lemma demo_voter_simps [simp]:
  "v_rep_count demo_voter = 3" "v_pipe_count demo_voter = 2" "v_rep_type demo_voter = TMR" "length (v_reps demo_voter) = 3"
  "fd_in (v_ext demo_voter ! Suc 0) = 0" "fd_out (v_ext demo_voter ! Suc 0) = 4" "fd_out (v_ext demo_voter ! 0) = 0"
  "r < 3 \<Longrightarrow> length (r_vot_pipes (v_reps demo_voter ! r)) = 10" "r < 3 \<Longrightarrow> wf_vp (vot (v_reps demo_voter) r (Suc 0))"
  "r < 3 \<Longrightarrow> buff_index (vot (v_reps demo_voter) r (Suc 0)) = 0"
proof -
  have "v_reps demo_voter ! r = demo_rep r" if "r < 3" for r
    using that by (auto simp: demo_voter_def less_Suc_eq numeral_3_eq_3 numeral_2_eq_2)
  then show "r < 3 \<Longrightarrow> length (r_vot_pipes (v_reps demo_voter ! r)) = 10" "r < 3 \<Longrightarrow> wf_vp (vot (v_reps demo_voter) r (Suc 0))"
    "r < 3 \<Longrightarrow> buff_index (vot (v_reps demo_voter) r (Suc 0)) = 0"
    by (simp_all add: demo_rep_def Let_def)
qed (simp_all add: demo_voter_def)

lemma demo_written_simps:
  assumes "r < 3"
  shows "wf_vp (demo_written r x)" "buff_index (demo_written r x) = 0" "buff_count (demo_written r x) = 2"
    "vp_contents (demo_written r x) = [7, x]" "same_ends (demo_written r x) (vot (v_reps demo_voter) r (Suc 0))"
  using demo_voter_simps(10) [OF assms]
  by (simp_all add: demo_written_def wf_simps vp_contents_def ring_list_def same_ends_def)

lemma demo_vote_vot:
  "vot (v_reps (demo_vote a b c)) 0 (Suc 0) = demo_written 0 a"
  "vot (v_reps (demo_vote a b c)) (Suc 0) (Suc 0) = demo_written 1 b"
  "vot (v_reps (demo_vote a b c)) 2 (Suc 0) = demo_written 2 c"
  by (simp_all add: demo_vote_def)

lemma demo_vote_inv:
  assumes "length pipes = 8"
  shows "voter_inv (demo_kernel pipes) (demo_vote a b c)"
proof -
  let ?v1 = "demo_voter\<lparr>v_reps := set_vot (v_reps demo_voter) 0 1 (demo_written 0 a)\<rparr>"
  let ?v2 = "?v1\<lparr>v_reps := set_vot (v_reps ?v1) 1 1 (demo_written 1 b)\<rparr>"
  have 1: "voter_inv (demo_kernel pipes) ?v1"
    by (rule set_ring_inv [OF demo_voter_inv [OF assms]]) (simp_all add: demo_written_simps)
  have 2: "voter_inv (demo_kernel pipes) ?v2"
    by (rule set_ring_inv [OF 1]) (simp_all add: demo_written_simps)
  have "voter_inv (demo_kernel pipes) (?v2\<lparr>v_reps := set_vot (v_reps ?v2) 2 1 (demo_written 2 c)\<rparr>)"
    by (rule set_ring_inv [OF 2]) (simp_all add: demo_written_simps)
  then show ?thesis by (simp add: demo_vote_def)
qed

lemma demo_vote_output: "length pipes = 8 \<Longrightarrow> ext_output (demo_kernel pipes) (demo_vote a b c) 1 1"
  by (simp add: ext_output_def demo_vote_def demo_lookup less_Suc_eq numeral_2_eq_2)

lemma demo_vote_ready: "bytesReady (v_reps (demo_vote a b c)) 3 1 = 2"
proof -
  have "bytesReady R 3 p = 2" if "\<forall>r < 3. buff_count (vot R r p) = 2" for R p
  proof -
    have "bytesReady R 3 p \<le> 2" using bytesReady_le [of R 3 p] that by (metis zero_less_numeral)
    then show ?thesis using bytesReady_attained [of R 3 p] that by auto
  qed
  then show ?thesis by (simp add: all_less_3 demo_vote_vot demo_written_simps)
qed

lemma demo_offer:
  "offer (demo_vote a b c) 1 2 0 = [7, a]" "offer (demo_vote a b c) 1 2 1 = [7, b]" "offer (demo_vote a b c) 1 2 2 = [7, c]"
  by (simp_all add: demo_vote_vot demo_written_simps)

lemma demo_vote_type: "v_rep_type (demo_vote a b c) = TMR" "v_pipe_count (demo_vote a b c) = 2"
  by (simp_all add: demo_vote_def)

theorem tmr_forwards_majority_witness:
  "\<exists>k' v' bs. checkSDC (demo_kernel (replicate 8 [])) (demo_vote 8 9 8) 1 = (k', v') \<and>
    os_pipes k' ! 1 = bs \<and> take 2 bs = [7, 8]"
proof -
  let ?k = "demo_kernel (replicate 8 [])" and ?v = "demo_vote 8 9 8"
  obtain k' v' where run: "checkSDC ?k ?v 1 = (k', v')" by fastforce
  have "os_pipes ?k ! 1 = []" by (simp add: demo_kernel_def)
  moreover have "\<exists>bs. os_pipes k' ! 1 = os_pipes ?k ! 1 @ bs \<and> take (nat 2) bs = offer ?v 1 2 0 \<and>
      (offer ?v 1 2 0 = offer ?v 1 2 1 \<and> offer ?v 1 2 1 = offer ?v 1 2 2 \<longrightarrow> bs = offer ?v 1 2 0)"
    by (rule tmr_forwards_majority [OF demo_vote_inv demo_vote_type(1) demo_vote_output demo_vote_ready,
          where i = 0 and j = 2]) (use run in \<open>simp_all only: demo_offer, simp_all\<close>)
  ultimately show ?thesis using run demo_offer(1) by auto
qed

theorem tmr_replaces_minority_witness:
  "\<exists>k' v'. checkSDC (demo_kernel (replicate 8 [])) (demo_vote 8 9 8) 1 = (k', v') \<and>
    voter_inv k' v' \<and> 8 \<le> chan k' (v_reps v' ! 1) 0"
proof -
  let ?k = "demo_kernel (replicate 8 [])" and ?v = "demo_vote 8 9 8"
  obtain k' v' where run: "checkSDC ?k ?v 1 = (k', v')" by fastforce
  have "length (os_pipes ?k) = 8" by (simp add: demo_kernel_def)
  moreover have "voter_inv k' v' \<and> (\<forall>x < v_pipe_count ?v. length (os_pipes ?k) \<le> chan k' (v_reps v' ! 1) x)"
    by (rule tmr_replaces_minority [OF demo_vote_inv demo_vote_type(1) demo_vote_output demo_vote_ready,
          where i = 0 and j = 2 and e = 1]) (use run in \<open>simp_all only: demo_offer, simp_all\<close>)
  ultimately show ?thesis using run demo_vote_type(2) by auto
qed

theorem tmr_no_majority_holds_witness:
  "checkSDC (demo_kernel (replicate 8 [])) (demo_vote 8 9 10) 1 = (demo_kernel (replicate 8 []), demo_vote 8 9 10)"
  by (rule tmr_no_majority_holds [OF demo_vote_inv demo_vote_type(1) demo_vote_output demo_vote_ready])
    (simp_all only: demo_offer, simp_all)

section \<open>Restarts and priorities\<close>

text \<open>
  (C31) A restart leaks nothing and touches nothing else. When the voter replaces replica \<open>e\<close>, the
  number of open descriptors is the same afterwards, so any number of restarts stays below the limit
  of the process; every descriptor that did not belong to \<open>e\<close> still refers to what it referred to; the
  pipes of the other replicas are the ones they had; and the replacement starts with empty rings on
  pipes that did not exist before.
\<close>

theorem restart_leaks_nothing:
  assumes "voter_inv k v" "e < v_rep_count v" "r < v_rep_count v" "r \<noteq> e"
    "restartReplica k (v_reps v) (v_rep_count v) sd (v_ext v) r e prio = (k', reps')"
  shows "card (open_fds k') = card (open_fds k) \<and>
    (\<forall>f \<in> open_fds k - rep_fds (v_reps v ! e). os_lookup k' f = os_lookup k f) \<and>
    (\<forall>i < v_rep_count v. i \<noteq> e \<longrightarrow> same_pipes (v_reps v ! i) (reps' ! i)) \<and>
    (\<forall>p < v_pipe_count v. vp_contents (vot reps' e p) = [] \<and> chan k' (reps' ! e) p = length (os_pipes k) + p)"
proof -
  have "reps_ok k (v_ext v) (v_pipe_count v) (v_rep_count v) (v_reps v)"
    "ext_apart k (v_ext v) (v_pipe_count v) (v_rep_count v) (v_reps v)"
    using assms(1) unfolding voter_inv_def by blast+
  from restartReplica_rebuilt [OF this assms(2-5)]
  show ?thesis
    unfolding rebuilt_def by (auto simp: empty_rings_def vp_contents_def ring_list_def)
qed

theorem restart_leaks_nothing_witness:
  "card (open_fds (fst (restartReplica (demo_kernel (replicate 8 [])) (v_reps demo_voter) 3
      \<lparr>sd_address = [], sd_sock_fd = 0\<rparr> (v_ext demo_voter) 0 2 5))) = card (open_fds (demo_kernel (replicate 8 [])))"
proof -
  let ?k = "demo_kernel (replicate 8 [])" and ?sd = "\<lparr>sd_address = [], sd_sock_fd = 0\<rparr>"
  obtain k' reps' where run: "restartReplica ?k (v_reps demo_voter) (v_rep_count demo_voter) ?sd (v_ext demo_voter) 0 2 5 = (k', reps')"
    by fastforce
  have "voter_inv ?k demo_voter" by (simp add: demo_voter_inv)
  from restart_leaks_nothing [OF this _ _ _ run] run show ?thesis by simp
qed

lemma set_priorities:
  assumes "\<forall>i < n. r_pid (reps ! i) \<in> set (os_alive k) \<and> 0 < prio i \<and> prio i < 99" "m \<le> n" "n \<le> length reps"
    "for_upto m (\<lambda>i. set_rep_priority i (prio i)) (k, reps) = (k', reps')"
  shows "os_alive k' = os_alive k \<and> length reps' = length reps \<and> (\<forall>i < length reps. r_pid (reps' ! i) = r_pid (reps ! i)) \<and>
    (\<forall>i < m. r_priority (reps' ! i) = prio i)"
  using assms(2,4)
proof (induction m arbitrary: k' reps')
  case (Suc m)
  obtain k1 reps1 where s1: "for_upto m (\<lambda>i. set_rep_priority i (prio i)) (k, reps) = (k1, reps1)" by fastforce
  note I = Suc.IH [OF _ s1]
  have m: "m < n" "m < length reps1" "r_pid (reps1 ! m) \<in> set (os_alive k1)"
    using Suc.prems(1) assms(1,3) I by auto
  have "sched_set_policy k1 (r_pid (reps1 ! m)) (prio m) =
      (k1\<lparr>os_sched := os_sched k1 @ [(r_pid (reps1 ! m), SCHED_RR, prio m)]\<rparr>, 0)"
    using m(3) assms(1) [rule_format, OF m(1)] by (simp add: sched_set_policy_def os_sched_setscheduler_def)
  then have "k' = k1\<lparr>os_sched := os_sched k1 @ [(r_pid (reps1 ! m), SCHED_RR, prio m)]\<rparr>"
    "reps' = reps1[m := (reps1 ! m)\<lparr>r_priority := prio m\<rparr>]"
    using Suc.prems(2) s1 by (simp_all add: for_upto_Suc set_rep_priority_def)
  then show ?case using I Suc.prems(1) m(2) by (auto simp: nth_list_update less_Suc_eq)
qed simp

text \<open>
  (C32) Balancing helps the replica that is furthest behind: when the replicas are alive and the
  priorities are in range, \<open>balanceReps\<close> gives the highest priority to exactly one replica, one with the
  largest gap to the leading replicas, and every other replica gets one of the two lower priorities.
\<close>

theorem balanceReps_promotes_laggard:
  assumes "0 < num" "num \<le> length reps" "\<forall>i < num. r_pid (reps ! i) \<in> set (os_alive k)" "0 < d" "d + 2 < 99"
    "balanceReps k reps num d = (k', reps')"
  shows "\<exists>s < num. (\<forall>i < num. rep_gap reps num i \<le> rep_gap reps num s) \<and> r_priority (reps' ! s) = d + 2 \<and>
    (\<forall>i < num. i \<noteq> s \<longrightarrow> r_priority (reps' ! i) \<in> {d, d + 1})"
proof -
  obtain s t where l: "laggards reps num = (s, t)" by fastforce
  let ?prio = "\<lambda>i. if i = s then d + 2 else if i = t then d + 1 else d"
  have "for_upto num (\<lambda>i. set_rep_priority i (?prio i)) (k, reps) = (k', reps')"
    using assms(6) l by (simp add: balanceReps_def)
  from set_priorities [OF _ order_refl assms(2) this] assms(3-5)
  have "\<forall>i < num. r_priority (reps' ! i) = ?prio i" by simp
  then show ?thesis using laggards_starting [OF assms(1) l] by auto
qed

theorem balanceReps_promotes_laggard_witness:
  "\<exists>k' reps' s. balanceReps (demo_kernel (replicate 8 [])) (v_reps demo_voter) 3 5 = (k', reps') \<and> s < 3 \<and> r_priority (reps' ! s) = 7"
proof -
  let ?k = "demo_kernel (replicate 8 [])"
  obtain k' reps' where run: "balanceReps ?k (v_reps demo_voter) 3 5 = (k', reps')" by fastforce
  have "\<forall>i < 3. r_pid (v_reps demo_voter ! i) \<in> set (os_alive ?k)"
    unfolding all_less_3 by (simp add: demo_voter_def demo_rep_def demo_kernel_def Let_def)
  from balanceReps_promotes_laggard [OF _ _ this _ _ run] run show ?thesis by auto
qed

end
