(* ===== verification/Controller.thy ===== *)
theory Controller imports Fd_Passing Tas_Lib begin

text \<open>
  What every robot controller shares (\<open>src/controller.c\<close>): the globals that the controllers declare
  and the library refers to, the signal handlers that inject faults, the set up, and the handler of the
  restart signal, by which a healthy replica forks its replacement. A controller extends the record
  \<open>controller\<close> by its own globals and supplies its \<open>setPipeIndexes\<close>. Signal masks are not part of the
  state.
\<close>

section \<open>Faults\<close>

text \<open>
  The ways in which a controller's code can leave defined behaviour or stop: an access outside an
  array, a null pointer, an uninitialised or missing argument, \<open>exit\<close>, a loop that never ends.
\<close>

datatype fault = OutOfBounds | NullDereference | Undefined | Exited | Hangs | OutOfFuel

type_synonym 'a outcome = "fault + 'a"

definition then_do :: "'a outcome \<Rightarrow> ('a \<Rightarrow> 'b outcome) \<Rightarrow> 'b outcome" where
  "then_do r f = (case r of Inl e \<Rightarrow> Inl e | Inr x \<Rightarrow> f x)"

lemma then_do_simps [simp]: "then_do (Inl e) f = Inl e" "then_do (Inr x) f = f x"
  by (simp_all add: then_do_def)

lemma then_do_Inr: "then_do r f = Inr y \<longleftrightarrow> (\<exists>x. r = Inr x \<and> f x = Inr y)"
  by (cases r) simp_all

lemma then_do_Inl: "then_do r f = Inl e \<longleftrightarrow> r = Inl e \<or> (\<exists>x. r = Inr x \<and> f x = Inl e)"
  by (cases r) simp_all

definition or_fault :: "fault \<Rightarrow> 'a option \<Rightarrow> 'a outcome" where
  "or_fault e x = (case x of None \<Rightarrow> Inl e | Some y \<Rightarrow> Inr y)"

lemma or_fault_simps [simp]: "or_fault e None = Inl e" "or_fault e (Some y) = Inr y"
  by (simp_all add: or_fault_def)

lemma or_fault_Inr: "or_fault e x = Inr y \<longleftrightarrow> x = Some y"
  by (cases x) simp_all

lemma or_fault_Inl: "or_fault e x = Inl f \<longleftrightarrow> x = None \<and> f = e"
  by (cases x) auto

section \<open>State\<close>

record controller =
  c_name :: string
  c_priority :: int
  c_pipe_count :: int
  c_pipes :: "typed_pipe list"
  insertSDC :: bool
  insertCFE :: bool

text \<open>An element of the array of pipes.\<close>

definition pipe_at :: "('a controller_scheme) \<Rightarrow> int \<Rightarrow> typed_pipe outcome" where
  "pipe_at c i = (if 0 \<le> i \<and> nat i < length (c_pipes c) then Inr (c_pipes c ! nat i) else Inl OutOfBounds)"

text \<open>
  The surroundings: what the system answers to the calls of \<open>InitTAS\<close>, and what the descriptor
  server offers to a client.
\<close>

record tas_env =
  te_affinity :: "pid \<Rightarrow> nat set \<Rightarrow> bool"
  te_mlock :: bool
  te_maps :: "string list option"

record fd_offer =
  fo_connects :: bool
  fo_message :: "(byte list \<times> fd_object list) option"
  fo_reads :: bool

text \<open>The kernel refuses to receive a negative number of pipes, which is a huge length when unsigned.\<close>

definition offer_for :: "fd_offer \<Rightarrow> int \<Rightarrow> fd_offer" where
  "offer_for S n = (if n < 0 then S\<lparr>fo_message := None\<rparr> else S)"

definition init_tas :: "tas_env \<Rightarrow> pid \<Rightarrow> os \<Rightarrow> int \<Rightarrow> os outcome" where
  "init_tas E pid k priority =
     (case InitTAS (te_affinity E) (te_mlock E) (te_maps E) pid k 1 priority of
        None \<Rightarrow> Inl OutOfBounds
      | Some (k1, _) \<Rightarrow> Inr k1)"

definition connect_pipes ::
    "fd_offer \<Rightarrow> pid \<Rightarrow> os \<Rightarrow> ('a controller_scheme) \<Rightarrow> nat \<Rightarrow> string \<Rightarrow> (os \<times> 'a controller_scheme \<times> int) outcome" where
  "connect_pipes S pid k c n nm =
     (case connectRecvFDS k (fo_connects S) (fo_message S) (fo_reads S) pid (c_pipes c) n nm of
        None \<Rightarrow> Inl Undefined
      | Some (k1, ps, r, _) \<Rightarrow> Inr (k1, c\<lparr>c_pipes := ps\<rparr>, r))"

section \<open>Handlers\<close>

definition testSDCHandler :: "('a controller_scheme) \<Rightarrow> 'a controller_scheme" where
  "testSDCHandler c = c\<lparr>insertSDC := True\<rparr>"

definition testCFEHandler :: "('a controller_scheme) \<Rightarrow> 'a controller_scheme" where
  "testCFEHandler c = c\<lparr>insertCFE := True\<rparr>"

text \<open>
  \<open>initController\<close>: the flags are the outcomes of the three calls of \<open>sigaction\<close>, for the restart
  signal and the two signals that simulate faults.
\<close>

definition initController ::
    "bool \<Rightarrow> bool \<Rightarrow> bool \<Rightarrow> tas_env \<Rightarrow> pid \<Rightarrow> os \<Rightarrow> ('a controller_scheme) \<Rightarrow> (os \<times> int) outcome" where
  "initController restart_ok sdc_ok cfe_ok E pid k c =
     (if \<not> restart_ok then Inr (k, - 1)
      else if \<not> sdc_ok then Inr (k, - 1)
      else if \<not> cfe_ok then Inr (k, - 1)
      else then_do (init_tas E pid k (c_priority c)) (\<lambda>k1. Inr (k1, 0)))"

definition reset_pipes :: "os \<Rightarrow> typed_pipe list \<Rightarrow> nat \<Rightarrow> os \<times> typed_pipe list" where
  "reset_pipes k ps n =
     for_upto n (\<lambda>i (k, ps). case resetPipe k (ps ! i) of (k1, p) \<Rightarrow> (k1, ps[i := p])) (k, ps)"

datatype fork_side = ForkFailed | InChild pid | InParent pid

text \<open>
  \<open>restartHandler\<close>: after the fork the child has a copy of the parent's descriptors, which it closes
  before it asks the voter for new ones. More pipes than the array has are accesses outside it.
\<close>

definition restartHandler ::
    "fork_side \<Rightarrow> tas_env \<Rightarrow> fd_offer \<Rightarrow> (('a controller_scheme) \<Rightarrow> 'a controller_scheme) \<Rightarrow>
     os \<Rightarrow> ('a controller_scheme) \<Rightarrow> (os \<times> 'a controller_scheme) outcome" where
  "restartHandler side E S setPipeIndexes k c =
     (case side of
        ForkFailed \<Rightarrow> Inr (k, c)
      | InParent pid \<Rightarrow> then_do (init_tas E pid k (c_priority c)) (\<lambda>k1. Inr (k1, c))
      | InChild pid \<Rightarrow>
          then_do (init_tas E pid k (c_priority c)) (\<lambda>k1.
            if int (length (c_pipes c)) < c_pipe_count c then Inl OutOfBounds
            else (case reset_pipes k1 (c_pipes c) (nat (c_pipe_count c)) of
              (k2, ps) \<Rightarrow>
                then_do (connect_pipes S pid k2 (c\<lparr>c_pipes := ps\<rparr>) (nat (c_pipe_count c)) (c_name c))
                  (\<lambda>(k3, c3, r). if r < 0 then Inr (k3, c3) else Inr (k3, setPipeIndexes c3)))))"

text \<open>The pipes on a command line, read into the array until it is full.\<close>

fun read_pipe_args :: "string list \<Rightarrow> nat \<Rightarrow> typed_pipe list \<Rightarrow> typed_pipe list outcome" where
  "read_pipe_args [] i ps = Inr ps"
| "read_pipe_args (a # as) i ps =
     (if length ps \<le> i then Inr ps
      else then_do (or_fault Undefined (deserializePipe a)) (\<lambda>p. read_pipe_args as (Suc i) (ps[i := p])))"

lemma read_pipe_args_length: "read_pipe_args as i ps = Inr ps' \<Longrightarrow> length ps' = length ps"
  by (induction as i ps rule: read_pipe_args.induct) (auto simp: then_do_Inr split: if_splits)

section \<open>The array of pipes\<close>

lemma connect_pipes_ok:
  assumes "connect_pipes S pid k c n nm = Inr (k', c', r)" "n \<le> length (c_pipes c)"
  shows "length (c_pipes c') = length (c_pipes c)" "\<exists>ps. c' = c\<lparr>c_pipes := ps\<rparr>"
  using assms connectRecvFDS_length
  by (auto simp: connect_pipes_def split: option.splits)

lemma length_reset_pipes: "reset_pipes k ps n = (k', ps') \<Longrightarrow> length ps' = length ps"
  unfolding reset_pipes_def
  using for_upto_invariant [where I = "\<lambda>(k, qs). length qs = length ps" and s = "(k, ps)" and n = n
      and body = "\<lambda>i (k, ps). case resetPipe k (ps ! i) of (k1, p) \<Rightarrow> (k1, ps[i := p])"]
  by (auto split: prod.splits)

text \<open>
  Whatever becomes of a restart, the controller keeps the length of its array of pipes and its own
  globals, up to what \<open>setPipeIndexes\<close> does.
\<close>

lemma restartHandler_frame:
  assumes "restartHandler side E S spi k c = Inr (k', c')"
  shows "\<exists>ps. length ps = length (c_pipes c) \<and> (c' = c\<lparr>c_pipes := ps\<rparr> \<or> c' = spi (c\<lparr>c_pipes := ps\<rparr>))"
proof (cases side)
  case (InChild pid)
  obtain k1 k2 ps k3 c3 r where r: "int (length (c_pipes c)) \<ge> c_pipe_count c"
    "reset_pipes k1 (c_pipes c) (nat (c_pipe_count c)) = (k2, ps)"
    "connect_pipes S pid k2 (c\<lparr>c_pipes := ps\<rparr>) (nat (c_pipe_count c)) (c_name c) = Inr (k3, c3, r)"
    "c' = c3 \<or> c' = spi c3"
    using assms InChild by (auto simp: restartHandler_def then_do_Inr split: if_splits prod.splits)
  have len: "length ps = length (c_pipes c)" using length_reset_pipes [OF r(2)] .
  then have "nat (c_pipe_count c) \<le> length (c_pipes (c\<lparr>c_pipes := ps\<rparr>))" using r(1) by (simp add: nat_le_iff)
  note C = connect_pipes_ok [OF r(3) this]
  then obtain qs where qs: "c3 = c\<lparr>c_pipes := qs\<rparr>" by auto
  then have "length qs = length (c_pipes c)" using C(1) len by simp
  then show ?thesis using qs r(4) by blast
next
  case ForkFailed
  then show ?thesis using assms by (auto simp: restartHandler_def intro!: exI [of _ "c_pipes c"])
next
  case (InParent pid)
  then show ?thesis using assms by (auto simp: restartHandler_def then_do_Inr intro!: exI [of _ "c_pipes c"])
qed

section \<open>Controllers as processes\<close>

text \<open>
  What every controller goes through: it starts, serves its pipes round by round while other processes
  change the kernel, receives the signals that inject faults, and may be forked by the restart signal.
\<close>

inductive program_reaches ::
    "(os \<Rightarrow> 'a controller_scheme \<Rightarrow> bool) \<Rightarrow> (os \<Rightarrow> 'a controller_scheme \<Rightarrow> (os \<times> 'a controller_scheme) outcome) \<Rightarrow>
     ('a controller_scheme \<Rightarrow> 'a controller_scheme) \<Rightarrow> os \<Rightarrow> 'a controller_scheme \<Rightarrow> bool"
  for started loop spi where
  start: "started k c \<Longrightarrow> program_reaches started loop spi k c"
| loop: "program_reaches started loop spi k c \<Longrightarrow> loop k c = Inr (k1, c1) \<Longrightarrow> program_reaches started loop spi k1 c1"
| environment: "program_reaches started loop spi k c \<Longrightarrow> program_reaches started loop spi k1 c"
| sdc: "program_reaches started loop spi k c \<Longrightarrow> program_reaches started loop spi k (testSDCHandler c)"
| cfe: "program_reaches started loop spi k c \<Longrightarrow> program_reaches started loop spi k (testCFEHandler c)"
| restart: "program_reaches started loop spi k c \<Longrightarrow> restartHandler side E S spi k c = Inr (k1, c1) \<Longrightarrow>
    program_reaches started loop spi k1 c1"

text \<open>
  The contract of a controller: a condition on its globals that holds after the start and that the loop,
  the handlers, a new array of pipes and the assignment of the indexes keep. It then holds for ever.
\<close>

locale controller_program =
  fixes ok :: "'a controller_scheme \<Rightarrow> bool"
    and started :: "os \<Rightarrow> 'a controller_scheme \<Rightarrow> bool"
    and loop :: "os \<Rightarrow> 'a controller_scheme \<Rightarrow> (os \<times> 'a controller_scheme) outcome"
    and spi :: "'a controller_scheme \<Rightarrow> 'a controller_scheme"
  assumes started_ok: "started k c \<Longrightarrow> ok c"
    and loop_ok: "ok c \<Longrightarrow> loop k c = Inr (k1, c1) \<Longrightarrow> ok c1"
    and flags_ok: "ok c \<Longrightarrow> ok (c\<lparr>insertSDC := True\<rparr>)" "ok c \<Longrightarrow> ok (c\<lparr>insertCFE := True\<rparr>)"
    and pipes_ok: "ok c \<Longrightarrow> length ps = length (c_pipes c) \<Longrightarrow> ok (c\<lparr>c_pipes := ps\<rparr>)"
    and indexes_ok: "ok c \<Longrightarrow> ok (spi c)"
begin

lemma restarted_ok:
  assumes "restartHandler side E S spi k c = Inr (k1, c1)" "ok c"
  shows "ok c1"
  using restartHandler_frame [OF assms(1)] pipes_ok [OF assms(2)] indexes_ok by blast

lemma reaches_ok: "program_reaches started loop spi k c \<Longrightarrow> ok c"
proof (induction rule: program_reaches.induct)
  case (restart k c side E S k1 c1)
  then show ?case using restarted_ok by blast
qed (use started_ok loop_ok flags_ok in \<open>auto simp: testSDCHandler_def testCFEHandler_def\<close>)

end

end
