(* ===== verification/Plumber.thy ===== *)
theory Plumber imports Voter Controller begin

text \<open>
  The plumber (\<open>plumber/plumbing.c\<close>, \<open>plumber/plumbing.h\<close>): it builds the list of components that the
  configuration names, connects them with pipes, and starts each of them, either directly or under a
  voter, with the descriptions of its pipes on the command line. A list of nodes is the sequence of
  its non-empty cells, and a pointer to a node is its position. The cell that \<open>add_node\<close> allocates
  behind the last node counts as empty: the code relies on memory that reads as zero.
\<close>

section \<open>Data\<close>

record node =
  n_name :: string
  n_value :: string
  n_priority :: string
  n_rep_strat :: replication_t
  n_voter_name :: "string option"
  n_voter_timer :: "string option"
  n_pipe_count :: nat
  n_timed :: "int list"
  n_pipes :: "typed_pipe list"

type_synonym nodelist = "node list"

section \<open>Operations\<close>

text \<open>
  \<open>new_node\<close> copies its texts into blocks that are one byte shorter than the texts with their null
  character; what the byte behind a block holds is outside the model.
\<close>

definition new_node :: "string \<Rightarrow> string \<Rightarrow> replication_t \<Rightarrow> string \<Rightarrow> string \<Rightarrow> string \<Rightarrow> node" where
  "new_node Name Value rep_type voter_name voter_timer priority =
     \<lparr>n_name = Name, n_value = Value, n_priority = priority, n_rep_strat = rep_type,
      n_voter_name = (if rep_type \<noteq> NONE then Some voter_name else None),
      n_voter_timer = (if rep_type \<noteq> NONE then Some voter_timer else None),
      n_pipe_count = 0, n_timed = replicate PIPE_LIMIT 0, n_pipes = replicate PIPE_LIMIT blank_pipe\<rparr>"

fun add_node :: "nodelist \<Rightarrow> string \<Rightarrow> string \<Rightarrow> replication_t \<Rightarrow> string \<Rightarrow> string \<Rightarrow> string \<Rightarrow> nodelist \<times> bool" where
  "add_node [] Name Value rep_type voter_name voter_timer priority =
     ([new_node Name Value rep_type voter_name voter_timer priority], True)"
| "add_node (n # ns) Name Value rep_type voter_name voter_timer priority =
     (if Name = n_name n then (n # ns, False)
      else (case add_node ns Name Value rep_type voter_name voter_timer priority of
              (ns', ok) \<Rightarrow> (n # ns', ok)))"

fun get_node :: "nodelist \<Rightarrow> string \<Rightarrow> nat option" where
  "get_node [] Name = None"
| "get_node (n # ns) Name = (if Name = n_name n then Some 0 else map_option Suc (get_node ns Name))"

text \<open>
  \<open>link_bench\<close> fills the next pipe of a node. The node must not be the null pointer, and the arrays
  hold \<open>PIPE_LIMIT\<close> pipes; the count is not compared with the limit.
\<close>

definition link_bench :: "nodelist \<Rightarrow> nat option \<Rightarrow> comm_message_t \<Rightarrow> fd \<Rightarrow> fd \<Rightarrow> bool \<Rightarrow> nodelist outcome" where
  "link_bench nodes p type i ou tm =
     (case p of
        None \<Rightarrow> Inl NullDereference
      | Some j \<Rightarrow>
          (let n = nodes ! j; c = n_pipe_count n in
           if length (n_pipes n) \<le> c \<or> length (n_timed n) \<le> c then Inl OutOfBounds
           else Inr (nodes[j := n\<lparr>n_pipes := (n_pipes n)[c := \<lparr>tp_type = type, tp_in = i, tp_out = ou\<rparr>],
                                  n_timed := (n_timed n)[c := (if tm then 1 else 0)],
                                  n_pipe_count := c + 1\<rparr>])))"

definition link_node :: "os \<Rightarrow> nodelist \<Rightarrow> comm_message_t \<Rightarrow> nat option \<Rightarrow> bool \<Rightarrow> nat option \<Rightarrow> bool \<Rightarrow> (os \<times> nodelist) outcome" where
  "link_node k nodes type fromNode fromTimed toNode toTimed =
     (case os_pipe k of
        (k1, None) \<Rightarrow> Inr (k1, nodes)
      | (k1, Some (r, w)) \<Rightarrow>
          then_do (link_bench nodes fromNode type 0 w fromTimed) (\<lambda>ns1.
            then_do (link_bench ns1 toNode type r 0 toTimed) (\<lambda>ns2. Inr (k1, ns2))))"

definition print_nodes :: "nodelist \<Rightarrow> string" where
  "print_nodes nodes = concat (map (\<lambda>n. n_name n @ [CHR 0x0A]) nodes) @ ''XXX'' @ [CHR 0x0A]"

definition serializeRep :: "replication_t \<Rightarrow> string" where
  "serializeRep rep_type = REP_TYPE_T rep_type"

text \<open>The argument vector of \<open>launch_node\<close>, without the final null pointer.\<close>

definition launch_argv :: "node \<Rightarrow> string list outcome" where
  "launch_argv n =
     (if n_rep_strat n = NONE then
        Inr ([n_value n, n_priority n, show_int (int (n_pipe_count n))] @
             map (\<lambda>i. serializePipe (n_pipes n ! i)) [0..<n_pipe_count n])
      else
        (case (n_voter_name n, n_voter_timer n) of
           (Some vn, Some vt) \<Rightarrow>
             Inr ([vn, n_value n, serializeRep (n_rep_strat n), vt, n_priority n] @
                  map (\<lambda>i. serializePipe (n_pipes n ! i) @ '':'' @ show_int (n_timed n ! i)) [0..<n_pipe_count n])
         | _ \<Rightarrow> Inl NullDereference))"

text \<open>
  \<open>launch_node\<close>: the result is -1 after a failed fork; otherwise the function ends without a
  \<open>return\<close> and its value is \<open>None\<close>. The recursive call's result is dropped.
\<close>

fun launch_node :: "os \<Rightarrow> nodelist \<Rightarrow> (os \<times> int option) outcome" where
  "launch_node k [] = Inr (k, None)"
| "launch_node k (n # ns) =
     then_do (launch_argv n) (\<lambda>argv.
       case os_fork_exec k argv of
         (k1, pid) \<Rightarrow>
           (if pid < 0 then Inr (k1, Some (- 1))
            else then_do (launch_node k1 ns) (\<lambda>(k2, _). Inr (k2, None))))"

section \<open>Declarations and look-ups\<close>

text \<open>
  Declarations and look-ups agree. A new name is added once, at the end, and is found under its
  name with the values it was declared with; a name that exists already is refused and the list stays
  as it is; every other name is found where it was.
\<close>

theorem add_node_then_get_node:
  assumes "add_node nodes Name Value rt vn vt prio = (nodes', ok)"
  shows "ok = (get_node nodes Name = None) \<and>
    (ok \<longrightarrow> nodes' = nodes @ [new_node Name Value rt vn vt prio] \<and> get_node nodes' Name = Some (length nodes)) \<and>
    (\<not> ok \<longrightarrow> nodes' = nodes) \<and> (\<forall>m. m \<noteq> Name \<longrightarrow> get_node nodes' m = get_node nodes m)"
  using assms
proof (induction nodes arbitrary: nodes')
  case Nil
  then show ?case by (auto simp: new_node_def)
next
  case (Cons n ns)
  obtain ns1 ok1 where r: "add_node ns Name Value rt vn vt prio = (ns1, ok1)" by fastforce
  show ?case
  proof (cases "Name = n_name n")
    case True
    then show ?thesis using Cons.prems by auto
  next
    case False
    then have "nodes' = n # ns1" "ok = ok1" using Cons.prems r by auto
    moreover from this have "add_node ns Name Value rt vn vt prio = (ns1, ok)" using r by simp
    ultimately show ?thesis using Cons.IH [of ns1] False by (auto split: if_splits)
  qed
qed

theorem add_node_then_get_node_witness:
  "get_node (fst (add_node [] ''nav'' ''ArtPot'' TMR ''VoterD'' ''120'' ''5'')) ''nav'' = Some 0"
proof -
  obtain ns ok where r: "add_node [] ''nav'' ''ArtPot'' TMR ''VoterD'' ''120'' ''5'' = (ns, ok)" by fastforce
  from add_node_then_get_node [OF r] show ?thesis unfolding r fst_conv by auto
qed

section \<open>Links\<close>

lemma link_bench_Some:
  assumes "link_bench nodes (Some j) type i ou tm = Inr ns'" "j < length nodes"
  shows "n_pipe_count (ns' ! j) = n_pipe_count (nodes ! j) + 1"
    "n_pipes (ns' ! j) ! n_pipe_count (nodes ! j) = \<lparr>tp_type = type, tp_in = i, tp_out = ou\<rparr>"
    "n_timed (ns' ! j) ! n_pipe_count (nodes ! j) = (if tm then 1 else 0)"
    "\<forall>c < n_pipe_count (nodes ! j). n_pipes (ns' ! j) ! c = n_pipes (nodes ! j) ! c"
    "\<forall>l. l \<noteq> j \<longrightarrow> ns' ! l = nodes ! l" "length ns' = length nodes"
  using assms by (auto simp: link_bench_def Let_def split: if_splits)

text \<open>
  A link of the configuration connects the two components: after \<open>link_node\<close> the newest output of
  the one and the newest input of the other are the two ends of one pipe that did not exist before, of
  the given type, and the pipes the components had before are still theirs.
\<close>

theorem link_node_connects:
  assumes "card (open_fds k) + 2 \<le> os_fd_max k" "os_lookup k 0 \<noteq> None" "a \<noteq> b" "a < length nodes" "b < length nodes"
    "\<forall>j \<in> {a, b}. n_pipe_count (nodes ! j) < PIPE_LIMIT \<and> length (n_pipes (nodes ! j)) = PIPE_LIMIT \<and> length (n_timed (nodes ! j)) = PIPE_LIMIT"
  shows "\<exists>k' nodes' w r. link_node k nodes type (Some a) fa (Some b) fb = Inr (k', nodes') \<and>
    n_pipes (nodes' ! a) ! n_pipe_count (nodes ! a) = \<lparr>tp_type = type, tp_in = 0, tp_out = w\<rparr> \<and>
    n_pipes (nodes' ! b) ! n_pipe_count (nodes ! b) = \<lparr>tp_type = type, tp_in = r, tp_out = 0\<rparr> \<and> r \<noteq> 0 \<and>
    os_lookup k' w = Some (WriteEnd (length (os_pipes k))) \<and> os_lookup k' r = Some (ReadEnd (length (os_pipes k))) \<and>
    (\<forall>c < n_pipe_count (nodes ! a). n_pipes (nodes' ! a) ! c = n_pipes (nodes ! a) ! c) \<and>
    (\<forall>c < n_pipe_count (nodes ! b). n_pipes (nodes' ! b) ! c = n_pipes (nodes ! b) ! c)"
proof -
  obtain k' r w where p: "os_pipe k = (k', Some (r, w))" "0 < r" "os_lookup k' r = Some (ReadEnd (length (os_pipes k)))"
    "os_lookup k' w = Some (WriteEnd (length (os_pipes k)))"
    using os_pipe_room [OF assms(1,2)] by metis
  obtain ns1 where 1: "link_bench nodes (Some a) type 0 w fa = Inr ns1"
    using assms(6) by (simp add: link_bench_def Let_def)
  note L1 = link_bench_Some [OF 1 assms(4)]
  obtain ns2 where 2: "link_bench ns1 (Some b) type r 0 fb = Inr ns2"
    using assms(3,6) L1(5) by (simp add: link_bench_def Let_def)
  note L2 = link_bench_Some [OF 2] L1(5,6)
  have "link_node k nodes type (Some a) fa (Some b) fb = Inr (k', ns2)" using p(1) 1 2 by (simp add: link_node_def)
  moreover have "ns2 ! a = ns1 ! a" "ns1 ! b = nodes ! b" "b < length ns1" using L2(5,7,8) assms(3,5) by simp_all
  ultimately show ?thesis using p(2-4) L1(2,4) L2(2,4) by auto
qed

theorem link_node_connects_witness:
  "\<exists>k' nodes' w r. link_node (demo_os []) [new_node ''nav'' ''ArtPot'' NONE [] [] ''5'', new_node ''map'' ''Mapper'' NONE [] [] ''6'']
      WAY_REQ (Some 0) False (Some 1) False = Inr (k', nodes') \<and>
    os_lookup k' w = Some (WriteEnd 1) \<and> os_lookup k' r = Some (ReadEnd 1) \<and>
    n_pipes (nodes' ! 0) ! 0 = \<lparr>tp_type = WAY_REQ, tp_in = 0, tp_out = w\<rparr> \<and>
    n_pipes (nodes' ! 1) ! 0 = \<lparr>tp_type = WAY_REQ, tp_in = r, tp_out = 0\<rparr>"
proof -
  let ?ns = "[new_node ''nav'' ''ArtPot'' NONE [] [] ''5'', new_node ''map'' ''Mapper'' NONE [] [] ''6'']"
  have "open_fds (demo_os []) \<subseteq> {0..4}"
    by (auto simp: open_fds_def demo_os_def os_lookup_def split: if_splits)
  then have "card (open_fds (demo_os [])) \<le> 5" using card_mono [of "{0..4 :: int}"] by simp
  then have "card (open_fds (demo_os [])) + 2 \<le> os_fd_max (demo_os [])" by (simp add: demo_os_def)
  moreover have "os_lookup (demo_os []) 0 \<noteq> None" "length (os_pipes (demo_os [])) = 1"
    by (simp_all add: demo_os_def os_lookup_def)
  ultimately show ?thesis
    using link_node_connects [of "demo_os []" 0 1 ?ns WAY_REQ False False] by (simp add: new_node_def) blast
qed

section \<open>The command line of a voter\<close>

lemma parsePipe_launched:
  "parsePipe (serializePipe p @ '':'' @ show_int t) vp =
     Some (vp\<lparr>rep_info := MESSAGE_T (tp_type p), fd_in := tp_in p, fd_out := (if tp_in p = 0 then tp_out p else 0), timed := (t \<noteq> 0)\<rparr>)"
proof -
  have "parsePipe (MESSAGE_T (tp_type p) @ '':'' @ show_int i @ '':'' @ show_int j @ '':'' @ show_int t) vp =
      Some (vp\<lparr>rep_info := MESSAGE_T (tp_type p), fd_in := i, fd_out := j, timed := (t \<noteq> 0)\<rparr>)" for i j
    using message_name [of "tp_type p"] scan_colon_int_show [of "[]" t]
    by (simp add: parsePipe_def scan_not_colon_append scan_colon_int_show is_digit_def)
  then show ?thesis by (simp add: serializePipe_def)
qed

definition launched :: "typed_pipe \<Rightarrow> int \<Rightarrow> vote_pipe \<Rightarrow> vote_pipe" where
  "launched p t vp = vp\<lparr>rep_info := MESSAGE_T (tp_type p), fd_in := tp_in p,
     fd_out := (if tp_in p = 0 then tp_out p else 0), timed := (t \<noteq> 0)\<rparr>"

lemma parsePipes_launched:
  assumes "v_pipe_count v + length ps \<le> length (v_ext v)"
  shows "\<exists>ext. parsePipes (map (\<lambda>(p, t). serializePipe p @ '':'' @ show_int t) ps) v =
      Some (v\<lparr>v_ext := ext, v_pipe_count := v_pipe_count v + length ps\<rparr>) \<and> length ext = length (v_ext v) \<and>
    (\<forall>i < v_pipe_count v. ext ! i = v_ext v ! i) \<and>
    (\<forall>i < length ps. ext ! (v_pipe_count v + i) = launched (fst (ps ! i)) (snd (ps ! i)) (v_ext v ! (v_pipe_count v + i)))"
  using assms
proof (induction ps arbitrary: v)
  case Nil
  then show ?case by (auto intro!: exI [of _ "v_ext v"])
next
  case (Cons q ps)
  obtain p t where q: "q = (p, t)" by fastforce
  let ?n = "v_pipe_count v"
  let ?v = "v\<lparr>v_ext := (v_ext v)[?n := launched p t (v_ext v ! ?n)], v_pipe_count := ?n + 1\<rparr>"
  have "v_pipe_count ?v + length ps \<le> length (v_ext ?v)" using Cons.prems by simp
  from Cons.IH [OF this] obtain ext where ext:
    "parsePipes (map (\<lambda>(p, t). serializePipe p @ '':'' @ show_int t) ps) ?v =
      Some (?v\<lparr>v_ext := ext, v_pipe_count := ?n + 1 + length ps\<rparr>)" "length ext = length (v_ext v)"
    "\<forall>i < ?n + 1. ext ! i = v_ext ?v ! i"
    "\<forall>i < length ps. ext ! (?n + 1 + i) = launched (fst (ps ! i)) (snd (ps ! i)) (v_ext ?v ! (?n + 1 + i))" by auto
  have "parsePipes (map (\<lambda>(p, t). serializePipe p @ '':'' @ show_int t) (q # ps)) v =
      Some (v\<lparr>v_ext := ext, v_pipe_count := ?n + length (q # ps)\<rparr>)"
    using ext(1) parsePipe_launched [of p t] by (simp add: q launched_def)
  moreover have "\<forall>i < ?n. ext ! i = v_ext v ! i" using ext(3) by simp
  moreover have "ext ! (?n + i) = launched (fst ((q # ps) ! i)) (snd ((q # ps) ! i)) (v_ext v ! (?n + i))"
    if "i < length (q # ps)" for i
  proof (cases i)
    case 0
    then show ?thesis using ext(3) Cons.prems q by simp
  next
    case (Suc l)
    then show ?thesis using ext(4) that by (auto simp: nth_list_update)
  qed
  ultimately show ?case using ext(2) by blast
qed

lemma set_timers_frame:
  "v_ext (set_timers v) = v_ext v \<and> v_pipe_count (set_timers v) = v_pipe_count v \<and> v_name (set_timers v) = v_name v \<and>
   v_rep_type (set_timers v) = v_rep_type v \<and> v_priority (set_timers v) = v_priority v \<and> v_timeout (set_timers v) = v_timeout v"
  unfolding set_timers_def by (rule for_upto_invariant) simp_all

lemma parseArgs_arguments:
  "Voter.parseArgs (a # nm # rt # tm # pr # texts) v = map_option set_timers (parsePipes (take PIPE_LIMIT texts)
     (v\<lparr>v_name := nm, v_rep_type := reptypeToEnum rt, v_rep_count := nat (reptypeToCount (reptypeToEnum rt)),
        v_timeout := (if atoi tm = 0 then PERIOD_USEC else atoi tm), v_priority := atoi pr\<rparr>))"
  by (simp add: Voter.parseArgs_def Let_def numeral_3_eq_3 numeral_2_eq_2)

text \<open>
  (C23) The plumber and the voter agree on the command line. Started with the arguments that
  \<open>launch_node\<close> builds for a replicated component, the voter's \<open>parseArgs\<close> gets the component's program,
  its kind of replication, its time limit and priority, and for each pipe the type, the descriptors and
  the mark of a timed pipe, in the order of the configuration.
\<close>

theorem voter_reads_plumber_arguments:
  assumes "n_rep_strat n \<in> {SMR, DMR, TMR}" "n_voter_name n = Some vn" "n_voter_timer n = Some vt"
    "n_pipe_count n \<le> PIPE_LIMIT" "v_pipe_count v = 0" "length (v_ext v) = PIPE_LIMIT"
  shows "\<exists>argv v'. launch_argv n = Inr argv \<and> Voter.parseArgs argv v = Some v' \<and>
    v_name v' = n_value n \<and> v_rep_type v' = n_rep_strat n \<and> v_priority v' = atoi (n_priority n) \<and>
    v_timeout v' = (if atoi vt = 0 then PERIOD_USEC else atoi vt) \<and> v_pipe_count v' = n_pipe_count n \<and>
    (\<forall>i < n_pipe_count n.
      rep_info (v_ext v' ! i) = MESSAGE_T (tp_type (n_pipes n ! i)) \<and> fd_in (v_ext v' ! i) = tp_in (n_pipes n ! i) \<and>
      fd_out (v_ext v' ! i) = (if tp_in (n_pipes n ! i) = 0 then tp_out (n_pipes n ! i) else 0) \<and>
      timed (v_ext v' ! i) = (n_timed n ! i \<noteq> 0))"
proof -
  let ?c = "n_pipe_count n"
  let ?ps = "map (\<lambda>i. (n_pipes n ! i, n_timed n ! i)) [0..<?c]"
  let ?texts = "map (\<lambda>i. serializePipe (n_pipes n ! i) @ '':'' @ show_int (n_timed n ! i)) [0..<?c]"
  let ?argv = "vn # n_value n # REP_TYPE_T (n_rep_strat n) # vt # n_priority n # ?texts"
  have rt: "reptypeToEnum (REP_TYPE_T (n_rep_strat n)) = n_rep_strat n"
    using assms(1) by (auto simp: reptypeToEnum_def)
  let ?v1 = "v\<lparr>v_name := n_value n, v_rep_type := n_rep_strat n, v_rep_count := nat (reptypeToCount (n_rep_strat n)),
    v_timeout := (if atoi vt = 0 then PERIOD_USEC else atoi vt), v_priority := atoi (n_priority n)\<rparr>"
  have "v_pipe_count ?v1 + length ?ps \<le> length (v_ext ?v1)" using assms(4-6) by simp
  from parsePipes_launched [OF this] assms(5,6) obtain ext where ext:
    "parsePipes (map (\<lambda>(p, t). serializePipe p @ '':'' @ show_int t) ?ps) ?v1 = Some (?v1\<lparr>v_ext := ext, v_pipe_count := ?c\<rparr>)"
    "\<forall>i < ?c. ext ! i = launched (n_pipes n ! i) (n_timed n ! i) (v_ext v ! i)"
    by auto
  let ?v2 = "?v1\<lparr>v_ext := ext, v_pipe_count := ?c\<rparr>"
  have texts: "map (\<lambda>(p, t). serializePipe p @ '':'' @ show_int t) ?ps = ?texts" by simp
  have take: "take PIPE_LIMIT ?texts = ?texts" using assms(4) by simp
  have "Voter.parseArgs ?argv v = Some (set_timers ?v2)"
    unfolding parseArgs_arguments rt take by (subst ext(1) [unfolded texts]) simp
  moreover have "launch_argv n = Inr ?argv"
    using assms(1-3) by (auto simp: launch_argv_def serializeRep_def)
  ultimately show ?thesis using ext(2) set_timers_frame [of ?v2] by (auto simp: launched_def)
qed

definition demo_node :: node where
  "demo_node = (new_node ''nav'' ''ArtPot'' TMR ''VoterD'' ''120'' ''5'')\<lparr>n_pipe_count := 1,
     n_pipes := \<lparr>tp_type = MOV_CMD, tp_in = 0, tp_out = 4\<rparr> # replicate 9 blank_pipe, n_timed := 1 # replicate 9 0\<rparr>"

theorem voter_reads_plumber_arguments_witness:
  "\<exists>argv v'. launch_argv demo_node = Inr argv \<and> Voter.parseArgs argv (demo_voter\<lparr>v_pipe_count := 0\<rparr>) = Some v' \<and>
    v_name v' = ''ArtPot'' \<and> v_rep_type v' = TMR \<and> fd_out (v_ext v' ! 0) = 4 \<and> timed (v_ext v' ! 0)"
proof -
  have n: "n_rep_strat demo_node = TMR" "n_voter_name demo_node = Some ''VoterD''" "n_voter_timer demo_node = Some ''120''"
    "n_pipe_count demo_node = 1" "n_value demo_node = ''ArtPot''" "n_pipes demo_node ! 0 = \<lparr>tp_type = MOV_CMD, tp_in = 0, tp_out = 4\<rparr>"
    "n_timed demo_node ! 0 = 1"
    by (simp_all add: demo_node_def new_node_def)
  have "length (v_ext (demo_voter\<lparr>v_pipe_count := 0\<rparr>)) = PIPE_LIMIT" by (simp add: demo_voter_def)
  from voter_reads_plumber_arguments [OF _ n(2,3) _ _ this] n show ?thesis by auto
qed

section \<open>Start of the components\<close>

text \<open>
  The components are started in the order of their declaration, each with its own arguments,
  until a fork fails: the processes started are the first \<open>j\<close> components, and \<open>j\<close> is smaller than their
  number only if the next fork failed.
\<close>

theorem launch_node_starts_in_order:
  assumes "\<forall>n \<in> set nodes. launch_argv n = Inr (args n)"
  shows "\<exists>k' res j. launch_node k nodes = Inr (k', res) \<and> j \<le> length nodes \<and>
    os_execs k' = os_execs k @ zip (take j (os_forks k)) (map args (take j nodes)) \<and> j \<le> length (os_forks k) \<and>
    (j < length nodes \<longrightarrow> j = length (os_forks k) \<or> os_forks k ! j \<le> 0)"
  using assms
proof (induction nodes arbitrary: k)
  case (Cons n ns)
  have n: "launch_argv n = Inr (args n)" using Cons.prems by simp
  consider "os_forks k = []" | p ps where "os_forks k = p # ps" "p \<le> 0" | p ps where "os_forks k = p # ps" "0 < p"
    by (metis list.exhaust not_le)
  then show ?case
  proof cases
    case 1
    then show ?thesis using n by (intro exI [of _ k] exI [of _ "Some (- 1)"] exI [of _ 0]) (simp add: os_fork_exec_def)
  next
    case 2
    then show ?thesis using n
      by (intro exI [of _ "k\<lparr>os_forks := ps\<rparr>"] exI [of _ "Some (- 1)"] exI [of _ 0]) (simp add: os_fork_exec_def)
  next
    case 3
    let ?k = "k\<lparr>os_forks := ps, os_alive := os_alive k @ [p], os_execs := os_execs k @ [(p, args n)]\<rparr>"
    have f: "os_fork_exec k (args n) = (?k, p)" using 3 by (simp add: os_fork_exec_def)
    obtain k' res j where r: "launch_node ?k ns = Inr (k', res)" "j \<le> length ns"
      "os_execs k' = os_execs ?k @ zip (take j ps) (map args (take j ns))" "j \<le> length ps"
      "j < length ns \<longrightarrow> j = length ps \<or> ps ! j \<le> 0"
      using Cons.IH [of ?k] Cons.prems by auto
    show ?thesis
      using r f n 3 by (intro exI [of _ k'] exI [of _ None] exI [of _ "Suc j"]) auto
  qed
qed auto

theorem launch_node_starts_in_order_witness:
  "\<exists>k' res. launch_node ((demo_os [])\<lparr>os_forks := [100]\<rparr>) [new_node ''map'' ''Mapper'' NONE [] [] ''6''] = Inr (k', res) \<and>
    os_execs k' = [(100, [''Mapper'', ''6'', show_int 0])]"
proof -
  let ?n = "new_node ''map'' ''Mapper'' NONE [] [] ''6''" and ?k = "(demo_os [])\<lparr>os_forks := [100]\<rparr>"
  have "\<forall>n \<in> set [?n]. launch_argv n = Inr ((\<lambda>n. [n_value n, n_priority n, show_int 0]) n)"
    by (simp add: launch_argv_def new_node_def)
  from launch_node_starts_in_order [OF this, of ?k] obtain k' res j where r:
    "launch_node ?k [?n] = Inr (k', res)" "j \<le> 1" "j < 1 \<longrightarrow> j = length (os_forks ?k) \<or> os_forks ?k ! j \<le> 0"
    "os_execs k' = os_execs ?k @ zip (take j [100]) (map (\<lambda>n. [n_value n, n_priority n, show_int 0]) (take j [?n]))"
    by auto
  have "j = 1" using r(2,3) by (cases j) auto
  moreover have "os_execs ?k = []" by (simp add: demo_os_def)
  ultimately have "os_execs k' = [(100, [''Mapper'', ''6'', show_int 0])]" using r(4) by (simp add: new_node_def)
  then show ?thesis using r(1) by blast
qed

end
