(* ===== verification/Config_Parser.thy ===== *)
theory Config_Parser imports Config_Lexer Plumber "HOL-Library.Monad_Syntax" begin

text \<open>
  The parser of the configuration language and the plumber's \<open>main\<close> (\<open>plumber/pb.y\<close>). Each nonterminal
  of the grammar is a function that takes its tokens off the stream, or fails where the generated
  parser reports a syntax error. A bison parser runs the action of a statement as soon as the last
  token of the statement is shifted, before it looks at the end of the line, so \<open>yyparse\<close> executes
  first and asks for \<open>EOL\<close> afterwards.
\<close>

section \<open>Statements\<close>

datatype endpoint = Bench_End | Component string | Voted string

datatype statement =
    Declare string string string
  | Declare_Replicated string string replication_t string string
  | Relate endpoint string endpoint

section \<open>Nonterminals\<close>

definition arrow :: "token list \<Rightarrow> (string \<times> token list) option" where
  "arrow ts = (case ts of START_PIPE # NAMED_OB n # END_PIPE # r \<Rightarrow> Some (n, r) | _ \<Rightarrow> None)"

definition rep_name :: "token list \<Rightarrow> (string \<times> token list) option" where
  "rep_name ts = (case ts of START_VOTE # VAR_NAME n # END_VOTE # r \<Rightarrow> Some (n, r) | _ \<Rightarrow> None)"

definition rep_comp :: "token list \<Rightarrow> (string \<times> token list) option" where
  "rep_comp ts = (case ts of START_VOTE # NAMED_OB n # END_VOTE # r \<Rightarrow> Some (n, r) | _ \<Rightarrow> None)"

definition rep_strat :: "token list \<Rightarrow> (replication_t \<times> token list) option" where
  "rep_strat ts =
     (case ts of
        P_SMR # r \<Rightarrow> Some (SMR, r)
      | P_DMR # r \<Rightarrow> Some (DMR, r)
      | P_TMR # r \<Rightarrow> Some (TMR, r)
      | _ \<Rightarrow> None)"

definition endpoint_of :: "token list \<Rightarrow> (endpoint \<times> token list) option" where
  "endpoint_of ts =
     (case ts of
        BENCH # r \<Rightarrow> Some (Bench_End, r)
      | VAR_NAME n # r \<Rightarrow> Some (Component n, r)
      | _ \<Rightarrow> map_option (\<lambda>(n, r). (Voted n, r)) (rep_name ts))"

definition declaration_of :: "token list \<Rightarrow> (statement \<times> token list) option" where
  "declaration_of ts =
     (case ts of
        VAR_NAME n # ASSIGN # NAMED_OB c # NUMBER_VAL p # r \<Rightarrow> Some (Declare n c p, r)
      | VAR_NAME n # ASSIGN # r \<Rightarrow> do {
          (c, r1) \<leftarrow> rep_comp r;
          (rt, r2) \<leftarrow> rep_strat r1;
          (case r2 of
             DELIM # NUMBER_VAL t # NUMBER_VAL p # r3 \<Rightarrow> Some (Declare_Replicated n c rt t p, r3)
           | _ \<Rightarrow> None)
        }
      | _ \<Rightarrow> None)"

text \<open>Every pair of endpoints is a production of the grammar, except the bench with itself.\<close>

definition relationship :: "token list \<Rightarrow> (statement \<times> token list) option" where
  "relationship ts = do {
     (a, r1) \<leftarrow> endpoint_of ts;
     (t, r2) \<leftarrow> arrow r1;
     (b, r3) \<leftarrow> endpoint_of r2;
     (if a = Bench_End \<and> b = Bench_End then None else Some (Relate a t b, r3))
   }"

definition statement_of :: "token list \<Rightarrow> (statement \<times> token list) option" where
  "statement_of ts = (case ts of VAR_NAME _ # ASSIGN # _ \<Rightarrow> declaration_of ts | _ \<Rightarrow> relationship ts)"

section \<open>Actions\<close>

text \<open>
  The action of a statement on the kernel and the node list. The last component of the result is the
  value of a \<open>return\<close> inside the action, which leaves \<open>yyparse\<close>.
\<close>

fun endpoint_node :: "nodelist \<Rightarrow> endpoint \<Rightarrow> nat option" where
  "endpoint_node nodes Bench_End = None"
| "endpoint_node nodes (Component n) = get_node nodes n"
| "endpoint_node nodes (Voted n) = get_node nodes n"

fun endpoint_timed :: "endpoint \<Rightarrow> bool" where
  "endpoint_timed (Voted n) = True"
| "endpoint_timed _ = False"

fun action :: "typed_pipe \<Rightarrow> typed_pipe \<Rightarrow> statement \<Rightarrow> os \<Rightarrow> nodelist \<Rightarrow> (os \<times> nodelist \<times> int option) outcome" where
  "action data_in cmd_out (Declare n c p) k nodes =
     Inr (k, fst (add_node nodes n c NONE [] [] p), None)"
| "action data_in cmd_out (Declare_Replicated n c rt t p) k nodes =
     Inr (k, fst (add_node nodes n c rt ''VoterD'' t p), None)"
| "action data_in cmd_out (Relate Bench_End t b) k nodes =
     then_do (link_bench nodes (endpoint_node nodes b) (commToEnum t) (tp_in data_in) 0 (endpoint_timed b))
       (\<lambda>nodes'. Inr (k, nodes', None))"
| "action data_in cmd_out (Relate a t Bench_End) k nodes =
     then_do (link_bench nodes (endpoint_node nodes a) (commToEnum t) 0 (tp_out cmd_out) (endpoint_timed a))
       (\<lambda>nodes'. Inr (k, nodes', None))"
| "action data_in cmd_out (Relate a t b) k nodes =
     (if commToEnum t = COMM_ERROR then Inr (k, nodes, Some (- 1))
      else then_do (link_node k nodes (commToEnum t) (endpoint_node nodes a) (endpoint_timed a)
                      (endpoint_node nodes b) (endpoint_timed b))
             (\<lambda>(k', nodes'). Inr (k', nodes', None)))"

section \<open>The parser\<close>

lemma endpoint_of_shorter: "endpoint_of ts = Some (e, r) \<Longrightarrow> length r < length ts"
  by (auto simp: endpoint_of_def rep_name_def split: list.splits token.splits)

lemma arrow_shorter: "arrow ts = Some (t, r) \<Longrightarrow> length r < length ts"
  by (auto simp: arrow_def split: list.splits token.splits)

lemma rep_comp_shorter: "rep_comp ts = Some (t, r) \<Longrightarrow> length r < length ts"
  by (auto simp: rep_comp_def split: list.splits token.splits)

lemma rep_strat_shorter: "rep_strat ts = Some (t, r) \<Longrightarrow> length r < length ts"
  by (auto simp: rep_strat_def split: list.splits token.splits)

lemmas nonterminal_shorter = endpoint_of_shorter arrow_shorter rep_comp_shorter rep_strat_shorter

lemma statement_of_shorter:
  assumes "statement_of ts = Some (st, r)"
  shows "length r < length ts"
proof -
  have "length r < length ts" if "relationship ts = Some (st, r)"
    using that by (auto simp: relationship_def split: Option.bind_splits if_splits dest!: nonterminal_shorter)
  moreover have "length r < length ts" if "declaration_of ts = Some (st, r)"
    using that by (auto simp: declaration_of_def split: list.splits token.splits Option.bind_splits dest!: nonterminal_shorter)
  ultimately show ?thesis using assms by (simp add: statement_of_def split: list.splits token.splits)
qed

lemma then_do_cong [fundef_cong]:
  "r = r' \<Longrightarrow> (\<And>x. r' = Inr x \<Longrightarrow> f x = g x) \<Longrightarrow> then_do r f = then_do r' g"
  by (cases r') simp_all

text \<open>
  \<open>yyparse\<close> on the rest of the token stream: 0 at the end of the file, 1 after a syntax error, and the
  value of a \<open>return\<close> inside an action.
\<close>

function yyparse :: "typed_pipe \<Rightarrow> typed_pipe \<Rightarrow> token list \<Rightarrow> os \<Rightarrow> nodelist \<Rightarrow> (os \<times> nodelist \<times> int) outcome" where
  "yyparse data_in cmd_out [] k nodes = Inr (k, nodes, 0)"
| "yyparse data_in cmd_out (t # ts) k nodes =
     (if t = EOL then yyparse data_in cmd_out ts k nodes
      else (case statement_of (t # ts) of
              None \<Rightarrow> Inr (k, nodes, 1)
            | Some (st, r) \<Rightarrow>
                then_do (action data_in cmd_out st k nodes) (\<lambda>(k', nodes', ret).
                  case ret of
                    Some v \<Rightarrow> Inr (k', nodes', v)
                  | None \<Rightarrow>
                      (case r of
                         EOL # r' \<Rightarrow> yyparse data_in cmd_out r' k' nodes'
                       | _ \<Rightarrow> Inr (k', nodes', 1)))))"
  by pat_completeness auto

termination
  by (relation "measure (\<lambda>(_, _, ts, _, _). length ts)") (auto dest!: statement_of_shorter)

text \<open>
  The plumber. The file is the text of \<open>config_plumber.cfg\<close>, \<open>None\<close> where it cannot be opened. The
  result of \<open>yyparse\<close> and that of \<open>launch_node\<close> are dropped.
\<close>

definition plumber_main :: "string option \<Rightarrow> string list \<Rightarrow> os \<Rightarrow> (os \<times> int) outcome" where
  "plumber_main file argv k =
     (case file of
        None \<Rightarrow> Inr (k, 1)
      | Some text \<Rightarrow>
          (if 5 \<le> length argv then
             then_do (or_fault Undefined (deserializePipe (argv ! 3))) (\<lambda>data_in.
             then_do (or_fault Undefined (deserializePipe (argv ! 4))) (\<lambda>cmd_out.
             then_do (yyparse data_in cmd_out (tokens text) k []) (\<lambda>(k1, nodes, _).
             then_do (launch_node k1 nodes) (\<lambda>(k2, _). Inr (k2, 0)))))
           else Inr (k, 1)))"

section \<open>Configurations as text\<close>

text \<open>
  What a configuration file says, apart from its text: each line holds at most one statement and at
  most one comment.
\<close>

type_synonym config_line = "statement option \<times> string option"

fun render_end :: "endpoint \<Rightarrow> string" where
  "render_end Bench_End = ''Bench''"
| "render_end (Component n) = n"
| "render_end (Voted n) = ''('' @ n @ '')''"

fun render_statement :: "statement \<Rightarrow> string" where
  "render_statement (Declare n c p) = n @ '' := '' @ c @ '' '' @ p"
| "render_statement (Declare_Replicated n c rt t p) =
     n @ '' := ('' @ c @ '')'' @ REP_TYPE_T rt @ '', '' @ t @ '' '' @ p"
| "render_statement (Relate a t b) = render_end a @ '' --'' @ t @ ''-> '' @ render_end b"

fun render_line :: "config_line \<Rightarrow> string" where
  "render_line (Some st, Some w) = render_statement st @ '' //'' @ w @ [CHR 0x0A]"
| "render_line (Some st, None) = render_statement st @ [CHR 0x0A]"
| "render_line (None, Some w) = ''//'' @ w @ [CHR 0x0A]"
| "render_line (None, None) = [CHR 0x0A]"

definition render :: "config_line list \<Rightarrow> string" where
  "render ls = concat (map render_line ls)"

fun valid_end :: "endpoint \<Rightarrow> bool" where
  "valid_end Bench_End = True"
| "valid_end (Component n) = var_name n"
| "valid_end (Voted n) = var_name n"

fun valid_statement :: "statement \<Rightarrow> bool" where
  "valid_statement (Declare n c p) = (var_name n \<and> named_ob c \<and> number_val p)"
| "valid_statement (Declare_Replicated n c rt t p) =
     (var_name n \<and> named_ob c \<and> rt \<in> {SMR, DMR, TMR} \<and> number_val t \<and> number_val p)"
| "valid_statement (Relate a t b) =
     (valid_end a \<and> named_ob t \<and> valid_end b \<and> \<not> (a = Bench_End \<and> b = Bench_End))"

definition valid_line :: "config_line \<Rightarrow> bool" where
  "valid_line l \<longleftrightarrow> pred_option valid_statement (fst l) \<and> pred_option (\<lambda>w. CHR 0x0A \<notin> set w) (snd l)"

definition statements :: "config_line list \<Rightarrow> statement list" where
  "statements ls = List.map_filter fst ls"

text \<open>The effect of the statements, one after the other.\<close>

fun run_statements :: "typed_pipe \<Rightarrow> typed_pipe \<Rightarrow> statement list \<Rightarrow> os \<Rightarrow> nodelist \<Rightarrow> (os \<times> nodelist \<times> int) outcome" where
  "run_statements data_in cmd_out [] k nodes = Inr (k, nodes, 0)"
| "run_statements data_in cmd_out (st # sts) k nodes =
     then_do (action data_in cmd_out st k nodes) (\<lambda>(k', nodes', ret).
       case ret of Some v \<Rightarrow> Inr (k', nodes', v) | None \<Rightarrow> run_statements data_in cmd_out sts k' nodes')"

section \<open>Reading what was written\<close>

fun end_tokens :: "endpoint \<Rightarrow> token list" where
  "end_tokens Bench_End = [BENCH]"
| "end_tokens (Component n) = [VAR_NAME n]"
| "end_tokens (Voted n) = [START_VOTE, VAR_NAME n, END_VOTE]"

fun statement_tokens :: "statement \<Rightarrow> token list" where
  "statement_tokens (Declare n c p) = [VAR_NAME n, ASSIGN, NAMED_OB c, NUMBER_VAL p]"
| "statement_tokens (Declare_Replicated n c rt t p) =
     [VAR_NAME n, ASSIGN, START_VOTE, NAMED_OB c, END_VOTE,
      case rt of SMR \<Rightarrow> P_SMR | DMR \<Rightarrow> P_DMR | _ \<Rightarrow> P_TMR, DELIM, NUMBER_VAL t, NUMBER_VAL p]"
| "statement_tokens (Relate a t b) = end_tokens a @ [START_PIPE, NAMED_OB t, END_PIPE] @ end_tokens b"

fun line_tokens :: "config_line \<Rightarrow> token list" where
  "line_tokens (st, w) =
     (case st of None \<Rightarrow> [] | Some s \<Rightarrow> statement_tokens s) @ (case w of None \<Rightarrow> [EOL] | Some _ \<Rightarrow> [EOL, EOL])"

lemma stops_chars [simp]:
  "\<not> is_name_char CHR '' ''" "\<not> is_name_char CHR 0x0A" "\<not> is_name_char CHR ''-''" "\<not> is_name_char CHR '')''"
  "\<not> is_name_char CHR '',''" "\<not> is_digit CHR '' ''" "\<not> is_digit CHR 0x0A"
  by (simp_all add: char_class_defs)

lemma tokens_end:
  "valid_end e \<Longrightarrow> stops is_name_char s \<Longrightarrow> tokens (render_end e @ s) = end_tokens e @ tokens s"
  using tokens_keyword(1) [of s] by (cases e) (simp_all add: tokens_var_name)

lemma tokens_rep:
  "rt \<in> {SMR, DMR, TMR} \<Longrightarrow> stops is_name_char s \<Longrightarrow>
    tokens (REP_TYPE_T rt @ s) = (case rt of SMR \<Rightarrow> P_SMR | DMR \<Rightarrow> P_DMR | _ \<Rightarrow> P_TMR) # tokens s"
  using tokens_keyword [of s] by (cases rt) simp_all

lemma tokens_statement:
  assumes "valid_statement st" "stops is_name_char s" "stops is_digit s"
  shows "tokens (render_statement st @ s) = statement_tokens st @ tokens s"
  using assms by (cases st) (simp_all add: tokens_var_name tokens_named_ob tokens_number_val tokens_end tokens_rep)

lemma tokens_line: "valid_line l \<Longrightarrow> tokens (render_line l @ s) = line_tokens l @ tokens s"
  by (cases l rule: render_line.cases)
    (simp_all add: valid_line_def tokens_statement tokens_comment)

lemma tokens_render:
  "list_all valid_line ls \<Longrightarrow> tokens (render ls @ s) = concat (map line_tokens ls) @ tokens s"
  by (induction ls) (simp_all add: render_def tokens_line)

lemma statement_of_tokens:
  "valid_statement st \<Longrightarrow> statement_of (statement_tokens st @ ts) = Some (st, ts)"
proof (cases st)
  case (Relate a t b)
  assume "valid_statement st"
  with Relate show ?thesis
    by (cases a; cases b) (simp_all add: statement_of_def relationship_def endpoint_of_def arrow_def rep_name_def)
next
  case (Declare_Replicated n c rt t p)
  assume "valid_statement st"
  with Declare_Replicated show ?thesis
    by (cases rt) (simp_all add: statement_of_def declaration_of_def rep_comp_def rep_strat_def)
qed (simp add: statement_of_def declaration_of_def)

lemma action_return: "action data_in cmd_out st k nodes = Inr (k', nodes', Some v) \<Longrightarrow> v \<noteq> 0"
  by (cases "(data_in, cmd_out, st, k, nodes)" rule: action.cases)
    (auto simp: then_do_def split: sum.splits if_splits)

lemma yyparse_statement_then:
  assumes "valid_statement st"
  shows "yyparse data_in cmd_out (statement_tokens st @ ts) k nodes =
    then_do (action data_in cmd_out st k nodes) (\<lambda>(k', nodes', ret).
      case ret of
        Some v \<Rightarrow> Inr (k', nodes', v)
      | None \<Rightarrow> (case ts of EOL # r \<Rightarrow> yyparse data_in cmd_out r k' nodes' | _ \<Rightarrow> Inr (k', nodes', 1)))"
proof -
  obtain t r where st: "statement_tokens st @ ts = t # r" "t \<noteq> EOL"
    by (cases st; (cases "case st of Relate a _ _ \<Rightarrow> a | _ \<Rightarrow> Bench_End")?) auto
  show ?thesis
    using statement_of_tokens [OF assms, of ts] st by (simp cong: then_do_cong)
qed

lemma yyparse_statement:
  "valid_statement st \<Longrightarrow> yyparse data_in cmd_out (statement_tokens st @ EOL # ts) k nodes =
    then_do (action data_in cmd_out st k nodes) (\<lambda>(k', nodes', ret).
      case ret of Some v \<Rightarrow> Inr (k', nodes', v) | None \<Rightarrow> yyparse data_in cmd_out ts k' nodes')"
  by (simp add: yyparse_statement_then cong: option.case_cong)

lemma yyparse_lines:
  assumes "list_all valid_line ls"
  shows "yyparse data_in cmd_out (concat (map line_tokens ls) @ ts) k nodes =
    then_do (run_statements data_in cmd_out (statements ls) k nodes) (\<lambda>(k', nodes', v).
      if v = 0 then yyparse data_in cmd_out ts k' nodes' else Inr (k', nodes', v))"
  using assms
proof (induction ls arbitrary: k nodes)
  case Nil
  then show ?case by (simp add: statements_def List.map_filter_def)
next
  case (Cons l ls)
  obtain st w where l: "l = (st, w)" by fastforce
  have skip: "yyparse data_in cmd_out ((case w of None \<Rightarrow> [EOL] | Some _ \<Rightarrow> [EOL, EOL]) @ ts') k nodes =
      yyparse data_in cmd_out ts' k nodes" for ts' k nodes by (cases w) simp_all
  show ?case
  proof (cases st)
    case None
    then show ?thesis using Cons l skip by (simp add: statements_def List.map_filter_def)
  next
    case (Some s)
    have eol: "(case w of None \<Rightarrow> [EOL] | Some _ \<Rightarrow> [EOL, EOL]) @ ts' = EOL # (case w of None \<Rightarrow> [] | Some _ \<Rightarrow> [EOL]) @ ts'" for ts'
      by (cases w) simp_all
    have skip': "yyparse data_in cmd_out ((case w of None \<Rightarrow> [] | Some _ \<Rightarrow> [EOL]) @ ts') k nodes =
      yyparse data_in cmd_out ts' k nodes" for ts' k nodes by (cases w) simp_all
    have "valid_statement s" using Cons.prems l Some by (simp add: valid_line_def)
    from yyparse_statement [OF this] show ?thesis
      using Cons.IH Cons.prems l Some action_return
      by (auto simp: statements_def List.map_filter_def eol skip' then_do_def split: sum.split option.split)
  qed
qed

end
