(* ===== verification/Config_Graph.thy ===== *)
theory Config_Graph imports Config_Parser begin

text \<open>
  What a configuration means: a list of components, each with its ports in the order of the links
  that name it, and what each port is joined to. The parser's actions implement this meaning on the
  node list and the kernel; the refinement says that reading the nodes' descriptors in the kernel
  gives the graph.
\<close>

section \<open>Graphs\<close>

datatype port_end = Input "fd_object option" | Output "fd_object option"

type_synonym port = "comm_message_t \<times> port_end \<times> bool"

record component =
  g_name :: string
  g_program :: string
  g_priority :: string
  g_rep :: replication_t
  g_timer :: "string option"
  g_ports :: "port list"

type_synonym graph = "component list"

definition new_component :: "string \<Rightarrow> string \<Rightarrow> replication_t \<Rightarrow> string option \<Rightarrow> string \<Rightarrow> component" where
  "new_component n c rt t p = \<lparr>g_name = n, g_program = c, g_priority = p, g_rep = rt, g_timer = t, g_ports = []\<rparr>"

definition declare_component :: "graph \<Rightarrow> component \<Rightarrow> graph" where
  "declare_component g c = (if g_name c \<in> g_name ` set g then g else g @ [c])"

definition add_port :: "graph \<Rightarrow> string \<Rightarrow> port \<Rightarrow> graph" where
  "add_port g n p = map (\<lambda>c. if g_name c = n then c\<lparr>g_ports := g_ports c @ [p]\<rparr> else c) g"

definition has_room :: "graph \<Rightarrow> string \<Rightarrow> bool" where
  "has_room g n \<longleftrightarrow> list_ex (\<lambda>c. g_name c = n \<and> length (g_ports c) < PIPE_LIMIT) g"

fun end_name :: "endpoint \<Rightarrow> string" where
  "end_name Bench_End = []"
| "end_name (Component n) = n"
| "end_name (Voted n) = n"

text \<open>
  One statement. The bench's ports are the two descriptors the plumber was given, a link between
  components is a new pipe.
\<close>

fun graph_step :: "fd_object option \<Rightarrow> fd_object option \<Rightarrow> statement \<Rightarrow> graph \<times> nat \<Rightarrow> graph \<times> nat" where
  "graph_step i ou (Declare n c p) (g, np) = (declare_component g (new_component n c NONE None p), np)"
| "graph_step i ou (Declare_Replicated n c rt t p) (g, np) =
     (declare_component g (new_component n c rt (if rt = NONE then None else Some t) p), np)"
| "graph_step i ou (Relate Bench_End t b) (g, np) = (add_port g (end_name b) (commToEnum t, Input i, endpoint_timed b), np)"
| "graph_step i ou (Relate a t Bench_End) (g, np) = (add_port g (end_name a) (commToEnum t, Output ou, endpoint_timed a), np)"
| "graph_step i ou (Relate a t b) (g, np) =
     (add_port (add_port g (end_name a) (commToEnum t, Output (Some (WriteEnd np)), endpoint_timed a))
        (end_name b) (commToEnum t, Input (Some (ReadEnd np)), endpoint_timed b), np + 1)"

definition graph_of :: "fd_object option \<Rightarrow> fd_object option \<Rightarrow> statement list \<Rightarrow> graph \<times> nat \<Rightarrow> graph \<times> nat" where
  "graph_of i ou sts s = fold (graph_step i ou) sts s"

text \<open>Links must name components declared before, with a free port each and a known message type.\<close>

fun step_ok :: "statement \<Rightarrow> graph \<Rightarrow> bool" where
  "step_ok (Declare n c p) g = True"
| "step_ok (Declare_Replicated n c rt t p) g = True"
| "step_ok (Relate Bench_End t b) g = (b \<noteq> Bench_End \<and> has_room g (end_name b))"
| "step_ok (Relate a t Bench_End) g = has_room g (end_name a)"
| "step_ok (Relate a t b) g =
     (commToEnum t \<noteq> COMM_ERROR \<and> has_room g (end_name a) \<and>
      has_room (add_port g (end_name a) (commToEnum t, Output None, False)) (end_name b))"

fun config_ok :: "fd_object option \<Rightarrow> fd_object option \<Rightarrow> statement list \<Rightarrow> graph \<times> nat \<Rightarrow> bool" where
  "config_ok i ou [] s = True"
| "config_ok i ou (st # sts) s = (step_ok st (fst s) \<and> config_ok i ou sts (graph_step i ou st s))"

fun new_pipes :: "statement \<Rightarrow> nat" where
  "new_pipes (Relate a t b) = (if a = Bench_End \<or> b = Bench_End then 0 else 1)"
| "new_pipes _ = 0"

section \<open>The graph of the plumber's state\<close>

definition port_fd :: "typed_pipe \<Rightarrow> fd" where
  "port_fd p = (if tp_in p = 0 then tp_out p else tp_in p)"

definition end_of :: "os \<Rightarrow> typed_pipe \<Rightarrow> port_end" where
  "end_of k p = (if tp_in p = 0 then Output (os_lookup k (tp_out p)) else Input (os_lookup k (tp_in p)))"

definition abs_port :: "os \<Rightarrow> node \<Rightarrow> nat \<Rightarrow> port" where
  "abs_port k n i = (tp_type (n_pipes n ! i), end_of k (n_pipes n ! i), n_timed n ! i \<noteq> 0)"

definition abs_node :: "os \<Rightarrow> node \<Rightarrow> component" where
  "abs_node k n = \<lparr>g_name = n_name n, g_program = n_value n, g_priority = n_priority n, g_rep = n_rep_strat n,
     g_timer = n_voter_timer n, g_ports = map (abs_port k n) [0..<n_pipe_count n]\<rparr>"

definition abs_graph :: "os \<Rightarrow> nodelist \<Rightarrow> graph" where
  "abs_graph k nodes = map (abs_node k) nodes"

text \<open>Well-formed nodes: the arrays have their length, the ports in use have open descriptors.\<close>

definition wf_node :: "os \<Rightarrow> node \<Rightarrow> bool" where
  "wf_node k n \<longleftrightarrow> n_pipe_count n \<le> PIPE_LIMIT \<and> length (n_pipes n) = PIPE_LIMIT \<and> length (n_timed n) = PIPE_LIMIT \<and>
     (\<forall>i < n_pipe_count n. port_fd (n_pipes n ! i) \<in> open_fds k) \<and>
     (n_rep_strat n \<noteq> NONE \<longrightarrow> n_voter_name n = Some ''VoterD'' \<and> n_voter_timer n \<noteq> None)"

definition wf_nodes :: "os \<Rightarrow> nodelist \<Rightarrow> bool" where
  "wf_nodes k nodes \<longleftrightarrow> list_all (wf_node k) nodes \<and> distinct (map n_name nodes)"

section \<open>Nodes by name\<close>

lemma get_node_index:
  "(get_node nodes m = None) = (m \<notin> n_name ` set nodes) \<and>
   (get_node nodes m = Some j \<longrightarrow> j < length nodes \<and> n_name (nodes ! j) = m)"
  by (induction nodes m arbitrary: j rule: get_node.induct) (auto simp: nth_Cons')

lemma get_node_names: "map n_name ns = map n_name ns' \<Longrightarrow> get_node ns m = get_node ns' m"
proof (induction ns arbitrary: ns')
  case (Cons n ns)
  then obtain n' ns2 where "ns' = n' # ns2" "n_name n = n_name n'" "map n_name ns = map n_name ns2" by auto
  then show ?case using Cons.IH [of ns2] by simp
qed simp

lemma abs_graph_names: "g_name ` set (abs_graph k nodes) = n_name ` set nodes"
  by (simp add: abs_graph_def image_image abs_node_def)

lemma add_port_abs:
  assumes "distinct (map n_name nodes)" "j < length nodes"
    "abs_node k n' = (abs_node k (nodes ! j))\<lparr>g_ports := g_ports (abs_node k (nodes ! j)) @ [p]\<rparr>"
  shows "abs_graph k (nodes[j := n']) = add_port (abs_graph k nodes) (n_name (nodes ! j)) p"
proof -
  have "n_name (nodes ! l) = n_name (nodes ! j) \<longleftrightarrow> l = j" if "l < length nodes" for l
    using assms(1,2) that by (metis length_map nth_eq_iff_index_eq nth_map)
  then show ?thesis
    using assms(2,3) by (intro nth_equalityI) (auto simp: abs_graph_def add_port_def nth_list_update abs_node_def)
qed

lemma has_room_node:
  assumes "has_room (abs_graph k nodes) m" "distinct (map n_name nodes)"
  obtains j where "get_node nodes m = Some j" "j < length nodes" "n_name (nodes ! j) = m" "n_pipe_count (nodes ! j) < PIPE_LIMIT"
proof -
  obtain n where n: "n \<in> set nodes" "n_name n = m" "n_pipe_count n < PIPE_LIMIT"
    using assms(1) by (auto simp: has_room_def list_ex_iff abs_graph_def abs_node_def)
  then obtain j where j: "get_node nodes m = Some j" using get_node_index [of nodes m] by (cases "get_node nodes m") auto
  then have *: "j < length nodes" "n_name (nodes ! j) = m" using get_node_index by blast+
  obtain l where l: "l < length nodes" "nodes ! l = n" using n(1) by (metis in_set_conv_nth)
  then have "l = j" using * n(2) assms(2) by (metis length_map nth_eq_iff_index_eq nth_map)
  then show thesis using that j * n(3) l by simp
qed

section \<open>The actions implement the steps\<close>

lemma link_bench_abs:
  assumes "wf_nodes k nodes" "has_room (abs_graph k nodes) m" "port_fd \<lparr>tp_type = ty, tp_in = i, tp_out = ou\<rparr> \<in> open_fds k"
  obtains nodes' where "link_bench nodes (get_node nodes m) ty i ou tm = Inr nodes'" "wf_nodes k nodes'"
    "abs_graph k nodes' =
       add_port (abs_graph k nodes) m (ty, end_of k \<lparr>tp_type = ty, tp_in = i, tp_out = ou\<rparr>, tm)"
proof -
  let ?p = "\<lparr>tp_type = ty, tp_in = i, tp_out = ou\<rparr>"
  have d: "distinct (map n_name nodes)" using assms(1) by (simp add: wf_nodes_def)
  obtain j where j: "get_node nodes m = Some j" "j < length nodes" "n_name (nodes ! j) = m" "n_pipe_count (nodes ! j) < PIPE_LIMIT"
    using has_room_node [OF assms(2) d] .
  let ?n = "nodes ! j" and ?c = "n_pipe_count (nodes ! j)"
  have w: "wf_node k ?n" using assms(1) j(2) by (simp add: wf_nodes_def list_all_length)
  let ?n' = "?n\<lparr>n_pipes := (n_pipes ?n)[?c := ?p], n_timed := (n_timed ?n)[?c := (if tm then 1 else 0)], n_pipe_count := ?c + 1\<rparr>"
  have "link_bench nodes (get_node nodes m) ty i ou tm = Inr (nodes[j := ?n'])"
    using w j by (simp add: link_bench_def wf_node_def Let_def)
  moreover have "wf_nodes k (nodes[j := ?n'])"
  proof -
    have "wf_node k ?n'"
      using w j(4) assms(3) by (auto simp: wf_node_def nth_list_update less_Suc_eq)
    moreover have "(map n_name nodes)[j := n_name ?n] = map n_name nodes"
      using list_update_id [of "map n_name nodes" j] j(2) by simp
    ultimately show ?thesis
      using assms(1) j(2) by (cases tm) (simp_all add: wf_nodes_def list_all_length nth_list_update map_update)
  qed
  moreover have "abs_node k ?n' = (abs_node k ?n)\<lparr>g_ports := g_ports (abs_node k ?n) @ [(ty, end_of k ?p, tm)]\<rparr>"
    using w j(4) by (auto simp: abs_node_def abs_port_def wf_node_def)
  from add_port_abs [OF d j(2) this] have
    "abs_graph k (nodes[j := ?n']) = add_port (abs_graph k nodes) m (ty, end_of k ?p, tm)"
    using j(3) by simp
  ultimately show thesis using that by blast
qed

lemma abs_graph_kernel:
  assumes "wf_nodes k nodes" "\<forall>g \<in> open_fds k. os_lookup k' g = os_lookup k g"
  shows "wf_nodes k' nodes" "abs_graph k' nodes = abs_graph k nodes"
proof -
  have "wf_node k' n \<and> abs_node k' n = abs_node k n" if "wf_node k n" for n
  proof -
    have "port_fd (n_pipes n ! i) \<in> open_fds k' \<and> abs_port k' n i = abs_port k n i" if "i < n_pipe_count n" for i
      using \<open>wf_node k n\<close> that assms(2) by (auto simp: wf_node_def abs_port_def open_fds_def end_of_def port_fd_def)
    then show ?thesis using that by (simp add: wf_node_def abs_node_def)
  qed
  then show "wf_nodes k' nodes" "abs_graph k' nodes = abs_graph k nodes"
    using assms(1) by (auto simp: wf_nodes_def list_all_iff abs_graph_def)
qed

lemma add_node_abs:
  assumes "wf_nodes k nodes"
  shows "wf_nodes k (fst (add_node nodes n c rt ''VoterD'' t p))" (is ?W)
    "abs_graph k (fst (add_node nodes n c rt ''VoterD'' t p)) =
     declare_component (abs_graph k nodes) (new_component n c rt (if rt = NONE then None else Some t) p)" (is ?A)
proof -
  obtain nodes' ok where a: "add_node nodes n c rt ''VoterD'' t p = (nodes', ok)" by fastforce
  have ok: "ok = (get_node nodes n = None)" "ok \<Longrightarrow> nodes' = nodes @ [new_node n c rt ''VoterD'' t p]" "\<not> ok \<Longrightarrow> nodes' = nodes"
    using add_node_then_get_node [OF a] by auto
  have g: "(get_node nodes n = None) = (n \<notin> n_name ` set nodes)" using get_node_index by blast
  have w: "wf_node k (new_node n c rt ''VoterD'' t p)" by (simp add: wf_node_def new_node_def)
  have n: "abs_node k (new_node n c rt ''VoterD'' t p) = new_component n c rt (if rt = NONE then None else Some t) p"
    by (simp add: abs_node_def new_node_def new_component_def)
  have "n_name (new_node n c rt ''VoterD'' t p) = n" by (simp add: new_node_def)
  with a ok g w n assms show ?W ?A
    by (auto simp: wf_nodes_def declare_component_def abs_graph_names new_component_def)
      (auto simp: abs_graph_def)
qed

lemma add_node_plain: "add_node nodes n c NONE vn t p = add_node nodes n c NONE vn' t' p"
  by (induction nodes) (simp_all add: new_node_def)

lemma has_room_add_port: "has_room (add_port g a p) n = has_room (add_port g a q) n"
  by (induction g) (auto simp: has_room_def add_port_def)

lemma link_node_abs:
  assumes "wf_nodes k nodes" "os_lookup k 0 \<noteq> None" "card (open_fds k) + 2 \<le> os_fd_max k"
    "has_room (abs_graph k nodes) a" "has_room (add_port (abs_graph k nodes) a p) b"
  obtains k' nodes' where "link_node k nodes ty (get_node nodes a) ta (get_node nodes b) tb = Inr (k', nodes')"
    "wf_nodes k' nodes'" "\<forall>g \<in> open_fds k. os_lookup k' g = os_lookup k g" "os_fd_max k' = os_fd_max k"
    "card (open_fds k') = card (open_fds k) + 2" "length (os_pipes k') = length (os_pipes k) + 1"
    "os_execs k' = os_execs k \<and> os_forks k' = os_forks k"
    "abs_graph k' nodes' = add_port (add_port (abs_graph k nodes) a (ty, Output (Some (WriteEnd (length (os_pipes k)))), ta))
       b (ty, Input (Some (ReadEnd (length (os_pipes k)))), tb)"
proof -
  let ?np = "length (os_pipes k)"
  obtain k' r w where pp: "os_pipe k = (k', Some (r, w))" "0 < r" "0 < w" "open_fds k' = open_fds k \<union> {r, w}"
    "card (open_fds k') = card (open_fds k) + 2" "os_lookup k' r = Some (ReadEnd ?np)" "os_lookup k' w = Some (WriteEnd ?np)"
    "\<forall>g \<in> open_fds k. os_lookup k' g = os_lookup k g"
    "k' = k\<lparr>os_fd_table := os_fd_table k', os_pipes := os_pipes k @ [[]]\<rparr>"
    using os_pipe_room [OF assms(3,2)] by metis
  have rest: "os_fd_max k' = os_fd_max k" "length (os_pipes k') = ?np + 1" "os_execs k' = os_execs k \<and> os_forks k' = os_forks k"
    by (subst pp(9), simp)+
  note kk = abs_graph_kernel [OF assms(1) pp(8)]
  have roomA: "has_room (abs_graph k' nodes) a" using assms(4) kk(2) by simp
  have "port_fd \<lparr>tp_type = ty, tp_in = 0, tp_out = w\<rparr> \<in> open_fds k'" using pp(4) by (simp add: port_fd_def)
  from link_bench_abs [OF kk(1) roomA this, of ta] obtain ns1 where
    1: "link_bench nodes (get_node nodes a) ty 0 w ta = Inr ns1" "wf_nodes k' ns1"
      "abs_graph k' ns1 = add_port (abs_graph k nodes) a (ty, Output (Some (WriteEnd ?np)), ta)"
    using kk(2) pp(7) by (auto simp: end_of_def)
  have same: "get_node ns1 b = get_node nodes b"
  proof -
    have "map g_name (abs_graph k' ns1) = map g_name (abs_graph k nodes)"
      unfolding 1(3) by (simp add: add_port_def comp_def)
    then have "map n_name ns1 = map n_name nodes" by (simp add: abs_graph_def abs_node_def comp_def)
    then show ?thesis by (rule get_node_names)
  qed
  have roomB: "has_room (abs_graph k' ns1) b"
    using assms(5) has_room_add_port [of "abs_graph k nodes" a p b "(ty, Output (Some (WriteEnd ?np)), ta)"] unfolding 1(3) by blast
  have "port_fd \<lparr>tp_type = ty, tp_in = r, tp_out = 0\<rparr> \<in> open_fds k'" using pp(2,4) by (simp add: port_fd_def)
  from link_bench_abs [OF 1(2) roomB this, of tb] obtain ns2 where
    2: "link_bench ns1 (get_node ns1 b) ty r 0 tb = Inr ns2" "wf_nodes k' ns2"
      "abs_graph k' ns2 = add_port (abs_graph k' ns1) b (ty, Input (Some (ReadEnd ?np)), tb)"
    using pp(2,6) by (auto simp: end_of_def)
  have "link_node k nodes ty (get_node nodes a) ta (get_node nodes b) tb = Inr (k', ns2)"
    using pp(1) 1(1) 2(1) same by (simp add: link_node_def)
  then show thesis using that 2(2,3) 1(3) pp(5,8) rest by metis
qed

text \<open>The descriptors that the plumber was given, and what it needs of the kernel.\<close>

definition plumber_ready :: "typed_pipe \<Rightarrow> typed_pipe \<Rightarrow> os \<Rightarrow> bool" where
  "plumber_ready data_in cmd_out k \<longleftrightarrow>
     os_lookup k 0 \<noteq> None \<and> tp_in data_in \<noteq> 0 \<and> tp_in data_in \<in> open_fds k \<and> tp_out cmd_out \<in> open_fds k"

definition step_result :: "os \<Rightarrow> nat \<Rightarrow> (os \<times> nodelist \<times> int option) outcome \<Rightarrow> graph \<times> nat \<Rightarrow> bool" where
  "step_result k m r s \<longleftrightarrow> (\<exists>k' nodes'. r = Inr (k', nodes', None) \<and> wf_nodes k' nodes' \<and>
     (abs_graph k' nodes', length (os_pipes k')) = s \<and> (\<forall>g \<in> open_fds k. os_lookup k' g = os_lookup k g) \<and>
     os_fd_max k' = os_fd_max k \<and> card (open_fds k') = card (open_fds k) + 2 * m \<and>
     os_execs k' = os_execs k \<and> os_forks k' = os_forks k)"

lemma bench_result:
  assumes "wf_nodes k nodes" "e \<noteq> Bench_End" "has_room (abs_graph k nodes) (end_name e)"
    "port_fd \<lparr>tp_type = ty, tp_in = i, tp_out = ou\<rparr> \<in> open_fds k"
  shows "step_result k 0 (then_do (link_bench nodes (endpoint_node nodes e) ty i ou (endpoint_timed e)) (\<lambda>nodes'. Inr (k, nodes', None)))
    (add_port (abs_graph k nodes) (end_name e)
       (ty, end_of k \<lparr>tp_type = ty, tp_in = i, tp_out = ou\<rparr>, endpoint_timed e), length (os_pipes k))"
proof -
  have e: "endpoint_node nodes e = get_node nodes (end_name e)" using assms(2) by (cases e) simp_all
  show ?thesis
    using link_bench_abs [OF assms(1,3,4), of "endpoint_timed e"] unfolding e step_result_def by fastforce
qed

lemma link_result:
  assumes "wf_nodes k nodes" "os_lookup k 0 \<noteq> None" "card (open_fds k) + 2 \<le> os_fd_max k" "a \<noteq> Bench_End" "b \<noteq> Bench_End"
    "has_room (abs_graph k nodes) (end_name a)" "has_room (add_port (abs_graph k nodes) (end_name a) p) (end_name b)"
  shows "step_result k 1
    (then_do (link_node k nodes ty (endpoint_node nodes a) (endpoint_timed a) (endpoint_node nodes b) (endpoint_timed b))
       (\<lambda>(k', nodes'). Inr (k', nodes', None)))
    (add_port (add_port (abs_graph k nodes) (end_name a) (ty, Output (Some (WriteEnd (length (os_pipes k)))), endpoint_timed a))
       (end_name b) (ty, Input (Some (ReadEnd (length (os_pipes k)))), endpoint_timed b), length (os_pipes k) + 1)"
proof -
  have e: "endpoint_node nodes a = get_node nodes (end_name a)" "endpoint_node nodes b = get_node nodes (end_name b)"
    using assms(4,5) by (cases a; cases b; simp)+
  show ?thesis
    using link_node_abs [OF assms(1-3,6,7), of ty "endpoint_timed a" "endpoint_timed b"] unfolding e step_result_def by fastforce
qed

lemma action_abs:
  assumes "plumber_ready data_in cmd_out k" "wf_nodes k nodes" "card (open_fds k) + 2 * new_pipes st \<le> os_fd_max k"
    "step_ok st (abs_graph k nodes)"
  shows "step_result k (new_pipes st) (action data_in cmd_out st k nodes)
    (graph_step (os_lookup k (tp_in data_in)) (os_lookup k (tp_out cmd_out)) st (abs_graph k nodes, length (os_pipes k)))"
proof (cases st)
  case (Declare n c p)
  then show ?thesis
    using add_node_abs [OF assms(2), of n c NONE "[]" p] by (simp add: step_result_def add_node_plain [of nodes n c "[]" "[]" p "''VoterD''" "[]"])
next
  case (Declare_Replicated n c rt t p)
  then show ?thesis using add_node_abs [OF assms(2), of n c rt t p] by (simp add: step_result_def)
next
  case (Relate a t b)
  have r: "os_lookup k 0 \<noteq> None" "tp_in data_in \<noteq> 0" "tp_in data_in \<in> open_fds k" "tp_out cmd_out \<in> open_fds k"
    using assms(1) by (simp_all add: plumber_ready_def)
  consider "a = Bench_End" | "a \<noteq> Bench_End" "b = Bench_End" | "a \<noteq> Bench_End" "b \<noteq> Bench_End" by blast
  then show ?thesis
  proof cases
    case 1
    with Relate assms(4) have "b \<noteq> Bench_End" "has_room (abs_graph k nodes) (end_name b)" by simp_all
    from bench_result [OF assms(2) this, of "commToEnum t" "tp_in data_in" 0] 1 Relate r
    show ?thesis by (simp add: port_fd_def end_of_def)
  next
    case 2
    with Relate assms(4) have "has_room (abs_graph k nodes) (end_name a)" by (cases a) simp_all
    from bench_result [OF assms(2) 2(1) this, of "commToEnum t" 0 "tp_out cmd_out"] 2 Relate r
    show ?thesis by (cases a) (simp_all add: port_fd_def end_of_def)
  next
    case 3
    with Relate assms(4) have ok: "commToEnum t \<noteq> COMM_ERROR" "has_room (abs_graph k nodes) (end_name a)"
      "has_room (add_port (abs_graph k nodes) (end_name a) (commToEnum t, Output None, False)) (end_name b)"
      by (cases a; cases b; simp)+
    have "card (open_fds k) + 2 \<le> os_fd_max k" "new_pipes st = 1" using assms(3) 3 Relate by simp_all
    with link_result [OF assms(2) r(1) _ 3 ok(2,3), of "commToEnum t"] 3 Relate ok(1)
    show ?thesis by (cases a; cases b) simp_all
  qed
qed

lemma run_statements_abs:
  assumes "plumber_ready data_in cmd_out k" "wf_nodes k nodes" "card (open_fds k) + 2 * sum_list (map new_pipes sts) \<le> os_fd_max k"
    "config_ok i ou sts (abs_graph k nodes, length (os_pipes k))"
    "i = os_lookup k (tp_in data_in)" "ou = os_lookup k (tp_out cmd_out)"
  shows "\<exists>k' nodes'. run_statements data_in cmd_out sts k nodes = Inr (k', nodes', 0) \<and> wf_nodes k' nodes' \<and>
    (abs_graph k' nodes', length (os_pipes k')) = graph_of i ou sts (abs_graph k nodes, length (os_pipes k)) \<and>
    (\<forall>g \<in> open_fds k. os_lookup k' g = os_lookup k g) \<and> os_execs k' = os_execs k \<and> os_forks k' = os_forks k"
  using assms
proof (induction sts arbitrary: k nodes)
  case Nil
  then show ?case by (auto simp: graph_of_def)
next
  case (Cons st sts)
  let ?s = "(abs_graph k nodes, length (os_pipes k))"
  have "step_result k (new_pipes st) (action data_in cmd_out st k nodes) (graph_step i ou st ?s)"
    using action_abs [OF Cons.prems(1,2), of st] Cons.prems(3-6) by simp
  then obtain k1 ns1 where s: "action data_in cmd_out st k nodes = Inr (k1, ns1, None)" "wf_nodes k1 ns1"
    "(abs_graph k1 ns1, length (os_pipes k1)) = graph_step i ou st ?s" "\<forall>g \<in> open_fds k. os_lookup k1 g = os_lookup k g"
    "os_fd_max k1 = os_fd_max k" "card (open_fds k1) = card (open_fds k) + 2 * new_pipes st"
    "os_execs k1 = os_execs k" "os_forks k1 = os_forks k" by (auto simp: step_result_def)
  have "0 \<in> open_fds k" using Cons.prems(1) by (simp add: plumber_ready_def open_fds_def)
  then have r1: "plumber_ready data_in cmd_out k1" "i = os_lookup k1 (tp_in data_in)" "ou = os_lookup k1 (tp_out cmd_out)"
    using Cons.prems(1,5,6) s(4) by (auto simp: plumber_ready_def open_fds_def)
  have "card (open_fds k1) + 2 * sum_list (map new_pipes sts) \<le> os_fd_max k1" using Cons.prems(3) s(5,6) by simp
  from Cons.IH [OF r1(1) s(2) this _ r1(2,3)] Cons.prems(4) s(3)
  obtain k2 ns2 where 2: "run_statements data_in cmd_out sts k1 ns1 = Inr (k2, ns2, 0)" "wf_nodes k2 ns2"
    "(abs_graph k2 ns2, length (os_pipes k2)) = graph_of i ou sts (graph_step i ou st ?s)" "\<forall>g \<in> open_fds k1. os_lookup k2 g = os_lookup k1 g"
    "os_execs k2 = os_execs k1" "os_forks k2 = os_forks k1" by auto
  then have "\<forall>g \<in> open_fds k. os_lookup k2 g = os_lookup k g" using s(4) by (auto simp: open_fds_def)
  with 2 s(1,7,8) show ?case by (simp add: graph_of_def)
qed

section \<open>Ports\<close>

text \<open>Every port of a configuration is an end of an existing pipe.\<close>

definition port_ok :: "nat \<Rightarrow> port \<Rightarrow> bool" where
  "port_ok np p \<longleftrightarrow> (\<exists>q < np. fst (snd p) = Input (Some (ReadEnd q)) \<or> fst (snd p) = Output (Some (WriteEnd q)))"

definition ports_ok :: "graph \<times> nat \<Rightarrow> bool" where
  "ports_ok s \<longleftrightarrow> (\<forall>c \<in> set (fst s). \<forall>p \<in> set (g_ports c). port_ok (snd s) p)"

lemma ports_ok_add_port: "ports_ok (g, np) \<Longrightarrow> port_ok np p \<Longrightarrow> ports_ok (add_port g n p, np)"
  by (auto simp: ports_ok_def add_port_def)

lemma ports_ok_more: "ports_ok (g, np) \<Longrightarrow> ports_ok (g, np + 1)"
  unfolding ports_ok_def port_ok_def by (metis fst_conv snd_conv less_SucI Suc_eq_plus1)

lemma graph_step_ports:
  assumes "ports_ok s" "i = Some (ReadEnd a)" "a < snd s" "ou = Some (WriteEnd b)" "b < snd s"
  shows "ports_ok (graph_step i ou st s) \<and> snd s \<le> snd (graph_step i ou st s)"
proof -
  obtain g np where s: "s = (g, np)" by fastforce
  have ends: "port_ok np (ty, Input i, tm)" "port_ok np (ty, Output ou, tm)"
    "port_ok (np + 1) (ty, Input (Some (ReadEnd np)), tm)" "port_ok (np + 1) (ty, Output (Some (WriteEnd np)), tm)" for ty tm
    using assms(2-5) s by (auto simp: port_ok_def)
  have g: "ports_ok (g, np)" "ports_ok (g, np + 1)" using assms(1) s ports_ok_more by simp_all
  have "ports_ok (declare_component g (new_component n c rt t p), np)" for n c rt t p
    using g(1) by (auto simp: ports_ok_def declare_component_def new_component_def)
  then show ?thesis
    using g ends unfolding s
    by (cases "(i, ou, st, (g, np))" rule: graph_step.cases) (simp_all add: ports_ok_add_port)
qed

lemma graph_of_ports:
  assumes "ports_ok s" "i = Some (ReadEnd a)" "a < snd s" "ou = Some (WriteEnd b)" "b < snd s"
  shows "ports_ok (graph_of i ou sts s)"
  using assms
proof (induction sts arbitrary: s)
  case (Cons st sts)
  from graph_step_ports [OF Cons.prems, of st] Cons.IH [of "graph_step i ou st s"] Cons.prems show ?case
    by (simp add: graph_of_def)
qed (simp add: graph_of_def)

text \<open>No component gets more ports than the arrays hold.\<close>

lemma abs_graph_ports: "wf_nodes k nodes \<Longrightarrow> c \<in> set (abs_graph k nodes) \<Longrightarrow> length (g_ports c) \<le> PIPE_LIMIT"
  by (auto simp: wf_nodes_def list_all_iff abs_graph_def abs_node_def wf_node_def)

end
