(* ===== verification/Plumber_Main.thy ===== *)
theory Plumber_Main imports Config_Graph begin

text \<open>
  The plumber as a program: from the text of the configuration file to the processes it starts.
\<close>

section \<open>Started components\<close>

lemma launch_node_table:
  "launch_node k nodes = Inr (k', r) \<Longrightarrow> os_fd_table k' = os_fd_table k \<and> os_pipes k' = os_pipes k"
proof (induction nodes arbitrary: k k' r)
  case (Cons n ns)
  then obtain argv k1 pid where l: "launch_argv n = Inr argv" "os_fork_exec k argv = (k1, pid)"
    by (cases "launch_argv n") fastforce+
  have "os_fd_table k1 = os_fd_table k" "os_pipes k1 = os_pipes k" using l(2) by (auto simp: os_fork_exec_def split: list.splits if_splits)
  then show ?case using Cons l by (auto simp: then_do_def split: sum.splits if_splits)
qed simp

text \<open>
  What the arguments of a started process say: read by the controller's \<open>deserializePipe\<close> or the
  voter's \<open>parsePipe\<close>, and looked up in the descriptor table the process inherits, they give the
  component of the graph.
\<close>

definition port_text :: "os \<Rightarrow> string \<Rightarrow> port \<Rightarrow> bool" where
  "port_text k text p \<longleftrightarrow>
     (case deserializePipe text of
        None \<Rightarrow> False
      | Some q \<Rightarrow> tp_type q = fst p \<and> end_of k q = fst (snd p))"

definition voted_port_text :: "os \<Rightarrow> string \<Rightarrow> port \<Rightarrow> bool" where
  "voted_port_text k text p \<longleftrightarrow> (\<forall>vp.
     (case parsePipe text vp of
        None \<Rightarrow> False
      | Some q \<Rightarrow> rep_info q = MESSAGE_T (fst p) \<and> timed q = snd (snd p) \<and> (fd_in q = 0 \<or> fd_out q = 0) \<and>
          (if fd_in q = 0 then Output (os_lookup k (fd_out q)) else Input (os_lookup k (fd_in q))) = fst (snd p)))"

definition argv_describes :: "os \<Rightarrow> string list \<Rightarrow> component \<Rightarrow> bool" where
  "argv_describes k argv c \<longleftrightarrow>
     (if g_rep c = NONE then
        \<exists>texts. argv = [g_program c, g_priority c, show_int (int (length (g_ports c)))] @ texts \<and>
          list_all2 (port_text k) texts (g_ports c)
      else
        \<exists>t texts. g_timer c = Some t \<and>
          argv = [''VoterD'', g_program c, REP_TYPE_T (g_rep c), t, g_priority c] @ texts \<and>
          list_all2 (voted_port_text k) texts (g_ports c))"

lemma port_text_serialized: "port_text k (serializePipe (n_pipes n ! i)) (abs_port k n i)"
  using pipe_text_roundtrip [of "n_pipes n ! i"] by (simp add: port_text_def abs_port_def end_of_def)

lemma voted_port_text_launched:
  "voted_port_text k (serializePipe (n_pipes n ! i) @ '':'' @ show_int (n_timed n ! i)) (abs_port k n i)"
  using parsePipe_launched [of "n_pipes n ! i" "n_timed n ! i"]
  by (simp add: voted_port_text_def abs_port_def end_of_def)

lemma launch_argv_describes:
  assumes "wf_node k n"
  obtains argv where "launch_argv n = Inr argv" "argv_describes k argv (abs_node k n)"
proof (cases "n_rep_strat n = NONE")
  case True
  let ?texts = "map (\<lambda>i. serializePipe (n_pipes n ! i)) [0..<n_pipe_count n]"
  have "list_all2 (port_text k) ?texts (map (abs_port k n) [0..<n_pipe_count n])"
    by (simp add: list_all2_conv_all_nth port_text_serialized)
  then show thesis using that True by (simp add: launch_argv_def argv_describes_def abs_node_def)
next
  case False
  let ?texts = "map (\<lambda>i. serializePipe (n_pipes n ! i) @ '':'' @ show_int (n_timed n ! i)) [0..<n_pipe_count n]"
  have "list_all2 (voted_port_text k) ?texts (map (abs_port k n) [0..<n_pipe_count n])"
    using voted_port_text_launched by (simp add: list_all2_conv_all_nth)
  moreover obtain t where "n_voter_name n = Some ''VoterD''" "n_voter_timer n = Some t"
    using assms False by (auto simp: wf_node_def)
  ultimately show thesis using that False
    by (simp add: launch_argv_def argv_describes_def abs_node_def serializeRep_def)
qed

lemma launch_node_describes:
  assumes "list_all (wf_node k) nodes" "length nodes \<le> length (os_forks k)" "\<forall>p \<in> set (os_forks k). 0 < p"
  obtains k' r argvs where "launch_node k nodes = Inr (k', r)" "list_all2 (argv_describes k') argvs (abs_graph k nodes)"
    "os_execs k' = os_execs k @ zip (take (length nodes) (os_forks k)) argvs"
proof -
  have "\<forall>n \<in> set nodes. \<exists>argv. launch_argv n = Inr argv \<and> argv_describes k argv (abs_node k n)"
    using assms(1) launch_argv_describes by (metis list_all_iff)
  then obtain args where args: "\<forall>n \<in> set nodes. launch_argv n = Inr (args n) \<and> argv_describes k (args n) (abs_node k n)"
    by metis
  then have "\<forall>n \<in> set nodes. launch_argv n = Inr (args n)" by blast
  from launch_node_starts_in_order [OF this, of k] obtain k' res j where l: "launch_node k nodes = Inr (k', res)" "j \<le> length nodes"
    "os_execs k' = os_execs k @ zip (take j (os_forks k)) (map args (take j nodes))"
    "j < length nodes \<longrightarrow> j = length (os_forks k) \<or> os_forks k ! j \<le> 0" by blast
  have "j = length nodes"
  proof (rule ccontr)
    assume "j \<noteq> length nodes"
    then have "j < length nodes" using l(2) by simp
    moreover from this have "0 < os_forks k ! j" using assms(2,3) by simp
    ultimately show False using l(4) assms(2) by simp
  qed
  moreover have ll: "os_lookup k' = os_lookup k" using os_lookup_cong [OF launch_node_table [OF l(1), THEN conjunct1]] by blast
  have "port_text k' = port_text k" "voted_port_text k' = voted_port_text k"
    unfolding port_text_def voted_port_text_def end_of_def ll by (rule refl)+
  then have "argv_describes k' = argv_describes k" by (intro ext) (simp add: argv_describes_def)
  ultimately show thesis
    using that [OF l(1), of "map args nodes"] args l(3)
    by (simp add: abs_graph_def list_all2_map1 list_all2_map2 list_all2_same)
qed

lemma plumber_main_launches:
  assumes "list_all valid_line ls" "5 \<le> length argv"
    "deserializePipe (argv ! 3) = Some data_in" "deserializePipe (argv ! 4) = Some cmd_out" "plumber_ready data_in cmd_out k"
    "config_ok (os_lookup k (tp_in data_in)) (os_lookup k (tp_out cmd_out)) (statements ls) ([], length (os_pipes k))"
    "card (open_fds k) + 2 * sum_list (map new_pipes (statements ls)) \<le> os_fd_max k"
    "g = fst (graph_of (os_lookup k (tp_in data_in)) (os_lookup k (tp_out cmd_out)) (statements ls) ([], length (os_pipes k)))"
    "length g \<le> length (os_forks k)" "\<forall>p \<in> set (os_forks k). 0 < p"
  shows "\<exists>k' argvs. plumber_main (Some (render ls)) argv k = Inr (k', 0) \<and>
    os_execs k' = os_execs k @ zip (take (length g) (os_forks k)) argvs \<and> list_all2 (argv_describes k') argvs g \<and>
    (\<forall>f \<in> open_fds k. os_lookup k' f = os_lookup k f) \<and>
    length (os_pipes k') = snd (graph_of (os_lookup k (tp_in data_in)) (os_lookup k (tp_out cmd_out)) (statements ls) ([], length (os_pipes k))) \<and>
    (\<forall>c \<in> set g. length (g_ports c) \<le> PIPE_LIMIT)"
proof -
  have "wf_nodes k []" "abs_graph k [] = []" by (simp_all add: wf_nodes_def abs_graph_def)
  with run_statements_abs [OF assms(5) this(1) assms(7) _ refl refl] assms(6,8) obtain k1 nodes where
    r: "run_statements data_in cmd_out (statements ls) k [] = Inr (k1, nodes, 0)" "wf_nodes k1 nodes" "abs_graph k1 nodes = g"
      "os_execs k1 = os_execs k" "os_forks k1 = os_forks k" "\<forall>f \<in> open_fds k. os_lookup k1 f = os_lookup k f"
      "length (os_pipes k1) = snd (graph_of (os_lookup k (tp_in data_in)) (os_lookup k (tp_out cmd_out)) (statements ls) ([], length (os_pipes k)))"
    by (auto simp: prod_eq_iff)
  have "length nodes = length g" using r(3) by (auto simp: abs_graph_def)
  then obtain k2 res argvs where l: "launch_node k1 nodes = Inr (k2, res)" "list_all2 (argv_describes k2) argvs g"
    "os_execs k2 = os_execs k @ zip (take (length g) (os_forks k)) argvs"
    using launch_node_describes [of k1 nodes] r assms(9,10) by (auto simp: wf_nodes_def)
  have "yyparse data_in cmd_out (tokens (render ls)) k [] = Inr (k1, nodes, 0)"
    using yyparse_lines [OF assms(1), of data_in cmd_out "[]" k "[]"] tokens_render [OF assms(1), of "[]"] r(1) by simp
  then have "plumber_main (Some (render ls)) argv k = Inr (k2, 0)"
    using assms(2-4) l(1) by (simp add: plumber_main_def or_fault_def)
  moreover have "os_lookup k2 f = os_lookup k1 f" for f
    using os_lookup_cong [OF launch_node_table [OF l(1), THEN conjunct1]] .
  ultimately show ?thesis
    using l(2,3) r(3,6,7) launch_node_table [OF l(1)] abs_graph_ports [OF r(2)] by auto
qed

section \<open>A configuration of the repository\<close>

text \<open>\<open>controllers/configs/all.cfg\<close>.\<close>

definition all_cfg :: "config_line list" where
  "all_cfg =
     [(None, Some '' Every component, no protection''),
      (Some (Declare ''log'' ''Logger'' ''20''), Some '' Needs to be higher than A*''),
      (Some (Declare ''l_n'' ''ArtPot'' ''70''), None),
      (Some (Declare ''map'' ''Mapper'' ''60''), None),
      (Some (Declare ''plan'' ''AStar'' ''-5''), None),
      (Some (Declare ''phil'' ''Filter'' ''80''), None),
      (Some (Relate Bench_End ''RANGE_POSE_DATA'' (Voted ''phil'')), None),
      (Some (Relate (Voted ''phil'') ''RANGE_POSE_DATA'' (Voted ''l_n'')), None),
      (Some (Relate (Component ''phil'') ''RANGE_POSE_DATA'' (Voted ''map'')), None),
      (Some (Relate (Component ''phil'') ''RANGE_POSE_DATA'' (Component ''log'')), None),
      (Some (Relate (Voted ''map'') ''MAP_UPDATE'' (Voted ''plan'')), None),
      (Some (Relate (Voted ''plan'') ''COMM_ACK'' (Component ''map'')), Some '' Needed to detect timeout failures''),
      (Some (Relate (Component ''l_n'') ''WAY_REQ'' (Component ''plan'')), None),
      (Some (Relate (Component ''plan'') ''WAY_RES'' (Component ''l_n'')), None),
      (Some (Relate (Voted ''l_n'') ''MOV_CMD'' Bench_End), None)]"

lemma all_cfg_text:
  "render all_cfg = concat (map (\<lambda>l. l @ [CHR 0x0A])
     [''// Every component, no protection'',
      ''log := Logger 20 // Needs to be higher than A*'',
      ''l_n := ArtPot 70'',
      ''map := Mapper 60'',
      ''plan := AStar -5'',
      ''phil := Filter 80'',
      ''Bench --RANGE_POSE_DATA-> (phil)'',
      ''(phil) --RANGE_POSE_DATA-> (l_n)'',
      ''phil --RANGE_POSE_DATA-> (map)'',
      ''phil --RANGE_POSE_DATA-> log'',
      ''(map) --MAP_UPDATE-> (plan)'',
      ''(plan) --COMM_ACK-> map // Needed to detect timeout failures'',
      ''l_n --WAY_REQ-> plan'',
      ''plan --WAY_RES-> l_n'',
      ''(l_n) --MOV_CMD-> Bench''])"
  by (simp add: render_def all_cfg_def)

lemma all_cfg_valid: "list_all valid_line all_cfg"
  by (simp add: all_cfg_def valid_line_def var_name_def named_ob_def number_val_def char_class_defs)

lemma all_cfg_ok: "config_ok (Some (ReadEnd 0)) (Some (WriteEnd 0)) (statements all_cfg) ([], 1)"
  by (simp add: all_cfg_def statements_def List.map_filter_def declare_component_def new_component_def has_room_def
      add_port_def commToEnum_def)

section \<open>The configuration language\<close>

text \<open>
  (C21) What is written is what is read. The text of any configuration, with its comments and empty
  lines, is split into tokens and parsed to exactly its statements: the parser has the effect of
  executing them one after the other.
\<close>

theorem config_text_roundtrip:
  assumes "list_all valid_line ls"
  shows "yyparse data_in cmd_out (tokens (render ls)) k nodes = run_statements data_in cmd_out (statements ls) k nodes"
proof -
  have "run_statements data_in cmd_out (statements ls) k nodes =
      then_do (run_statements data_in cmd_out (statements ls) k nodes) (\<lambda>(k', nodes', v).
        if v = 0 then yyparse data_in cmd_out [] k' nodes' else Inr (k', nodes', v))"
    by (auto simp: then_do_def split: sum.split)
  then show ?thesis
    using yyparse_lines [OF assms, of data_in cmd_out "[]" k nodes] tokens_render [OF assms, of "[]"] by simp
qed

theorem config_text_roundtrip_witness:
  "yyparse blank_pipe blank_pipe (tokens (render all_cfg)) (demo_os []) [] =
     run_statements blank_pipe blank_pipe (statements all_cfg) (demo_os []) []"
  using config_text_roundtrip [OF all_cfg_valid] .

text \<open>
  (C20) From the text of the configuration to the running system. For a configuration whose links name
  declared components with free ports, and with descriptors and processes enough, the plumber ends
  with 0 and has started exactly the components of the graph, in the order of their declaration, and
  each process finds in its arguments its program, its priority, its kind of replication and its
  ports, where the descriptors denote the pipe ends that the links ask for.
\<close>

theorem configuration_launched:
  assumes "list_all valid_line ls" "5 \<le> length argv"
    "deserializePipe (argv ! 3) = Some data_in" "deserializePipe (argv ! 4) = Some cmd_out" "plumber_ready data_in cmd_out k"
    "config_ok (os_lookup k (tp_in data_in)) (os_lookup k (tp_out cmd_out)) (statements ls) ([], length (os_pipes k))"
    "card (open_fds k) + 2 * sum_list (map new_pipes (statements ls)) \<le> os_fd_max k"
    "g = fst (graph_of (os_lookup k (tp_in data_in)) (os_lookup k (tp_out cmd_out)) (statements ls) ([], length (os_pipes k)))"
    "length g \<le> length (os_forks k)" "\<forall>p \<in> set (os_forks k). 0 < p"
  shows "\<exists>k' argvs. plumber_main (Some (render ls)) argv k = Inr (k', 0) \<and>
    os_execs k' = os_execs k @ zip (take (length g) (os_forks k)) argvs \<and> list_all2 (argv_describes k') argvs g"
  using plumber_main_launches [OF assms] by blast

definition plumber_argv :: "string list" where
  "plumber_argv = [''plumber'', ''10'', ''2'', serializePipe \<lparr>tp_type = RANGE_POSE_DATA, tp_in = 3, tp_out = 0\<rparr>,
     serializePipe \<lparr>tp_type = MOV_CMD, tp_in = 0, tp_out = 4\<rparr>]"

theorem configuration_launched_witness:
  "\<exists>k' argvs. plumber_main (Some (render all_cfg)) plumber_argv ((demo_os [])\<lparr>os_forks := [101, 102, 103, 104, 105]\<rparr>) = Inr (k', 0) \<and>
    os_execs k' = zip [101, 102, 103, 104, 105] argvs \<and> length argvs = 5 \<and>
    argv_describes k' (argvs ! 3) \<lparr>g_name = ''plan'', g_program = ''AStar'', g_priority = ''-5'', g_rep = NONE, g_timer = None,
      g_ports = [(MAP_UPDATE, Input (Some (ReadEnd 4)), True), (COMM_ACK, Output (Some (WriteEnd 5)), True),
        (WAY_REQ, Input (Some (ReadEnd 6)), False), (WAY_RES, Output (Some (WriteEnd 7)), False)]\<rparr>"
proof -
  let ?k = "(demo_os [])\<lparr>os_forks := [101, 102, 103, 104, 105]\<rparr>"
  let ?d = "\<lparr>tp_type = RANGE_POSE_DATA, tp_in = 3, tp_out = 0\<rparr>" and ?c = "\<lparr>tp_type = MOV_CMD, tp_in = 0, tp_out = 4\<rparr>"
  have a: "5 \<le> length plumber_argv" "deserializePipe (plumber_argv ! 3) = Some ?d" "deserializePipe (plumber_argv ! 4) = Some ?c"
    by (simp_all add: plumber_argv_def pipe_text_roundtrip)
  have k: "os_lookup ?k 0 = Some SocketEnd" "os_lookup ?k 3 = Some (ReadEnd 0)" "os_lookup ?k 4 = Some (WriteEnd 0)"
    "length (os_pipes ?k) = 1" "os_fd_max ?k = 1024" "os_execs ?k = []"
    by (simp_all add: demo_os_def os_lookup_def)
  have "plumber_ready ?d ?c ?k" using k by (simp add: plumber_ready_def open_fds_def)
  moreover have "card (open_fds ?k) \<le> 5" using card_open_fds_table [of ?k] by (simp add: demo_os_def)
  then have "card (open_fds ?k) + 2 * sum_list (map new_pipes (statements all_cfg)) \<le> os_fd_max ?k"
    by (simp add: all_cfg_def statements_def List.map_filter_def demo_os_def)
  moreover let ?g = "fst (graph_of (Some (ReadEnd 0)) (Some (WriteEnd 0)) (statements all_cfg) ([], 1))"
  have g: "length ?g = 5" "?g ! 3 = \<lparr>g_name = ''plan'', g_program = ''AStar'', g_priority = ''-5'', g_rep = NONE, g_timer = None,
      g_ports = [(MAP_UPDATE, Input (Some (ReadEnd 4)), True), (COMM_ACK, Output (Some (WriteEnd 5)), True),
        (WAY_REQ, Input (Some (ReadEnd 6)), False), (WAY_RES, Output (Some (WriteEnd 7)), False)]\<rparr>"
    by (simp_all add: graph_of_def all_cfg_def statements_def List.map_filter_def declare_component_def new_component_def
        add_port_def commToEnum_def)
  ultimately obtain k' argvs where
    "plumber_main (Some (render all_cfg)) plumber_argv ?k = Inr (k', 0)" "list_all2 (argv_describes k') argvs ?g"
    "os_execs k' = zip [101, 102, 103, 104, 105] argvs"
    using configuration_launched [OF all_cfg_valid a, of ?k ?g] all_cfg_ok k g(1) by auto
  then show ?thesis using g list_all2_lengthD list_all2_nthD2 [of "argv_describes k'" argvs ?g 3] by fastforce
qed

section \<open>Errors\<close>

definition broken :: "token list \<Rightarrow> bool" where
  "broken ts \<longleftrightarrow> ts \<noteq> [] \<and> hd ts \<noteq> EOL \<and> statement_of ts = None"

lemma yyparse_broken: "broken ts \<Longrightarrow> yyparse data_in cmd_out ts k nodes = Inr (k, nodes, 1)"
  by (cases ts) (simp_all add: broken_def)

lemma plumber_main_cong:
  assumes "\<And>d c. map_sum id (\<lambda>(k', nodes, v). (k', nodes)) (yyparse d c (tokens t) k []) =
    map_sum id (\<lambda>(k', nodes, v). (k', nodes)) (yyparse d c (tokens t') k [])"
  shows "plumber_main (Some t) argv k = plumber_main (Some t') argv k"
proof -
  have "then_do r (\<lambda>(k1, nodes, _). f k1 nodes) =
      then_do (map_sum id (\<lambda>(k', nodes, v). (k', nodes)) r) (\<lambda>(k1, nodes). f k1 nodes)"
    for r :: "(os \<times> nodelist \<times> int) outcome" and f :: "os \<Rightarrow> nodelist \<Rightarrow> (os \<times> int) outcome"
    by (cases r) auto
  then have "then_do (yyparse d c (tokens t) k []) (\<lambda>(k1, nodes, _). f k1 nodes) =
      then_do (yyparse d c (tokens t') k []) (\<lambda>(k1, nodes, _). f k1 nodes)"
    for d c and f :: "os \<Rightarrow> nodelist \<Rightarrow> (os \<times> int) outcome"
    using assms by metis
  then show ?thesis by (simp add: plumber_main_def)
qed

text \<open>
  (C22) An error in the configuration does not stop the plumber. From a line that does not parse on the
  rest of the file is ignored: the components and links above it are started as if the file ended
  there, and the exit code is the same. A statement that is followed by other tokens than the end of
  its line, or by the end of the file, is still executed and the rest is ignored.
\<close>

theorem syntax_error_hides_rest:
  assumes "list_all valid_line ls"
  shows "(broken (tokens bad) \<longrightarrow>
      plumber_main (Some (render ls @ bad)) argv k = plumber_main (Some (render ls)) argv k) \<and>
    (valid_statement st \<and> stops is_name_char s \<and> stops is_digit s \<and> (tokens s = [] \<or> hd (tokens s) \<noteq> EOL) \<longrightarrow>
      plumber_main (Some (render ls @ render_statement st @ s)) argv k =
      plumber_main (Some (render ls @ render_statement st @ [CHR 0x0A])) argv k)"
proof (intro conjI impI)
  note lines = yyparse_lines [OF assms]
  have nil: "yyparse d c (concat (map line_tokens ls)) k [] =
      then_do (run_statements d c (statements ls) k []) (\<lambda>(k', nodes', v). Inr (k', nodes', v))" for d c
    using lines [of d c "[]" k "[]"] by (auto simp: then_do_def split: sum.splits)
  show "plumber_main (Some (render ls @ bad)) argv k = plumber_main (Some (render ls)) argv k" if "broken (tokens bad)"
  proof (rule plumber_main_cong, goal_cases)
    case (1 d c)
    then show ?case
      using tokens_render [OF assms, of bad] tokens_render [OF assms, of "[]"] nil
      by (cases "run_statements d c (statements ls) k []") (auto simp: lines yyparse_broken [OF that])
  qed
  show "plumber_main (Some (render ls @ render_statement st @ s)) argv k =
      plumber_main (Some (render ls @ render_statement st @ [CHR 0x0A])) argv k"
    if s: "valid_statement st \<and> stops is_name_char s \<and> stops is_digit s \<and> (tokens s = [] \<or> hd (tokens s) \<noteq> EOL)"
  proof (rule plumber_main_cong, goal_cases)
    case (1 d c)
    have st: "tokens (render_statement st @ s) = statement_tokens st @ tokens s"
      "tokens (render_statement st @ [CHR 0x0A]) = statement_tokens st @ [EOL]"
      using s tokens_statement [of st] by simp_all
    have "map_sum id (\<lambda>(k', nodes, v). (k', nodes)) (yyparse d c (statement_tokens st @ tokens s) k' nodes) =
      map_sum id (\<lambda>(k', nodes, v). (k', nodes)) (yyparse d c (statement_tokens st @ [EOL]) k' nodes)" for k' nodes
      using s yyparse_statement_then [of st d c _ k' nodes]
      by (cases "action d c st k' nodes") (auto split: option.splits list.splits token.splits)
    then show ?case
      using tokens_render [OF assms]
      by (cases "run_statements d c (statements ls) k []") (auto simp: lines st)
  qed
qed

theorem syntax_error_hides_rest_witness:
  "plumber_main (Some (render all_cfg @ ''map --WAY_REQ, plan'' @ [CHR 0x0A] @ render all_cfg)) plumber_argv (demo_os []) =
     plumber_main (Some (render all_cfg)) plumber_argv (demo_os []) \<and>
   plumber_main (Some (render all_cfg @ ''two := Mapper 60'' @ '' 61'')) plumber_argv (demo_os []) =
     plumber_main (Some (render all_cfg @ ''two := Mapper 60'' @ [CHR 0x0A])) plumber_argv (demo_os [])"
proof -
  let ?bad = "''map --WAY_REQ, plan'' @ [CHR 0x0A] @ render all_cfg"
  have v: "var_name ''map''" "named_ob ''WAY_REQ''" "var_name ''two''" "named_ob ''Mapper''" "number_val ''60''" "number_val ''61''"
    by (simp_all add: var_name_def named_ob_def number_val_def char_class_defs)
  have "tokens ?bad = VAR_NAME ''map'' # START_PIPE # NAMED_OB ''WAY_REQ'' # DELIM # tokens ('' plan'' @ [CHR 0x0A] @ render all_cfg)"
    using tokens_var_name [OF v(1), of "'' --WAY_REQ, plan'' @ [CHR 0x0A] @ render all_cfg"]
      tokens_named_ob [OF v(2), of "'', plan'' @ [CHR 0x0A] @ render all_cfg"] by simp
  then have "broken (tokens ?bad)"
    by (simp add: broken_def statement_of_def relationship_def endpoint_of_def arrow_def)
  moreover have "valid_statement (Declare ''two'' ''Mapper'' ''60'')" using v by simp
  moreover have "tokens '' 61'' = [NUMBER_VAL ''61'']" using tokens_number_val [OF v(6), of "[]"] by simp
  ultimately show ?thesis
    using syntax_error_hides_rest [OF all_cfg_valid, of ?bad plumber_argv "demo_os []" "Declare ''two'' ''Mapper'' ''60''" "'' 61''"] by simp
qed

end
