(* ===== verification/Voter_Start.thy ===== *)
theory Voter_Start imports Voter begin

text \<open>
  The start of the voter: \<open>initVoterD\<close> brings a voter whose replicas are blank into a state that
  satisfies the invariant of the main loop, and does so whenever there are enough descriptors and the
  replicas connect.
\<close>

section \<open>The pipes of all replicas\<close>

definition blank_replica :: "replica \<Rightarrow> bool" where
  "blank_replica rep \<longleftrightarrow> rep_shape rep \<and> r_pipe_count rep = 0 \<and> empty_rings PIPE_LIMIT rep"

text \<open>The state in which the pipes of the first \<open>n\<close> replicas have been created, from the kernel \<open>k0\<close>.\<close>

definition laid :: "os \<Rightarrow> vote_pipe list \<Rightarrow> nat \<Rightarrow> nat \<Rightarrow> nat \<Rightarrow> os \<times> replica list \<Rightarrow> bool" where
  "laid k0 ext pc num n s \<longleftrightarrow> (case s of (k, reps) \<Rightarrow>
     num \<le> length reps \<and> os_pipes k = os_pipes k0 @ replicate (n * pc) [] \<and> os_fd_max k = os_fd_max k0 \<and>
     open_fds k0 \<subseteq> open_fds k \<and> (\<forall>f \<in> open_fds k0. os_lookup k f = os_lookup k0 f) \<and>
     card (open_fds k) = card (open_fds k0) + 2 * (n * pc) \<and>
     (\<forall>r < n. rep_shape (reps ! r) \<and> r_pipe_count (reps ! r) = pc \<and> empty_rings PIPE_LIMIT (reps ! r) \<and>
        (\<forall>p < pc. wired k (ext ! p) (reps ! r) p (length (os_pipes k0) + (r * pc + p)))) \<and>
     (\<forall>r < num. n \<le> r \<longrightarrow> blank_replica (reps ! r)))"

lemma rings_kept_empty: "rings_kept a b \<Longrightarrow> empty_rings n a \<Longrightarrow> empty_rings n b"
  by (simp add: rings_kept_def empty_rings_def)

lemma laid_step:
  assumes "laid k0 ext pc num n (k, reps)" "n < num" "pc \<le> PIPE_LIMIT" "0 \<in> open_fds k0"
    "card (open_fds k0) + 2 * (num * pc) \<le> os_fd_max k0"
    "for_upto pc (createPipe ext) (k, reps ! n) = (k', rep)"
  shows "laid k0 ext pc num (Suc n) (k', reps[n := rep])"
proof -
  have L: "num \<le> length reps" "os_pipes k = os_pipes k0 @ replicate (n * pc) []" "os_fd_max k = os_fd_max k0"
    "open_fds k0 \<subseteq> open_fds k" "\<And>f. f \<in> open_fds k0 \<Longrightarrow> os_lookup k f = os_lookup k0 f"
    "card (open_fds k) = card (open_fds k0) + 2 * (n * pc)"
    "\<And>r. r < n \<Longrightarrow> rep_shape (reps ! r) \<and> r_pipe_count (reps ! r) = pc \<and> empty_rings PIPE_LIMIT (reps ! r)"
    "\<And>r p. r < n \<Longrightarrow> p < pc \<Longrightarrow> wired k (ext ! p) (reps ! r) p (length (os_pipes k0) + (r * pc + p))"
    "\<And>r. r < num \<Longrightarrow> n \<le> r \<Longrightarrow> blank_replica (reps ! r)"
    using assms(1) by (auto simp: laid_def)
  have b: "rep_shape (reps ! n)" "r_pipe_count (reps ! n) = 0" "empty_rings PIPE_LIMIT (reps ! n)"
    using L(9) [of n] assms(2) by (simp_all add: blank_replica_def)
  have "Suc n * pc \<le> num * pc" using assms(2) by (intro mult_le_mono1) simp
  then have "card (open_fds k) + 2 * pc \<le> os_fd_max k" using L(3,6) assms(5) by simp
  moreover have "0 \<in> open_fds k" using L(4) assms(4) by blast
  ultimately have "created ext k (reps ! n) pc (k', rep)"
    using createPipe_loop [OF b(1,2) assms(3), of k ext] assms(6) by simp
  then have C: "rep_shape rep" "r_pipe_count rep = pc" "rings_kept (reps ! n) rep"
    "\<And>i. i < pc \<Longrightarrow> wired k' (ext ! i) rep i (length (os_pipes k) + i)"
    "os_pipes k' = os_pipes k @ replicate pc []" "os_fd_max k' = os_fd_max k" "open_fds k \<subseteq> open_fds k'"
    "\<And>f. f \<in> open_fds k \<Longrightarrow> os_lookup k' f = os_lookup k f" "card (open_fds k') = card (open_fds k) + 2 * pc"
    by (auto simp: created_def)
  have old: "wired k' (ext ! p) (reps ! r) p (length (os_pipes k0) + (r * pc + p))" if "r < n" "p < pc" for r p
  proof (rule wired_mono [OF L(8) [OF that]])
    fix f assume "f \<in> pipe_ends (reps ! r) p"
    then have "f \<in> open_fds k" using wired_ends [OF L(8) [OF that]] by (auto simp: open_fds_def)
    then show "os_lookup k' f = os_lookup k f" by (rule C(8))
  qed (use C(5) in simp_all)
  have "os_pipes k' = os_pipes k0 @ replicate (Suc n * pc) []"
    using C(5) L(2) by (simp add: replicate_add [symmetric] add.commute)
  moreover have "n < length reps" using L(1) assms(2) by simp
  moreover have "\<forall>f \<in> open_fds k0. os_lookup k' f = os_lookup k0 f" using C(8) L(4,5) by auto
  ultimately show ?thesis
    using L(1,3,4,6,7,9) C(1-4,6,7,9) old L(2) rings_kept_empty [OF C(3) b(3)]
    by (auto simp: laid_def nth_list_update less_Suc_eq add.assoc)
qed

lemma createPipes_laid:
  assumes "\<forall>r < num. blank_replica (reps ! r)" "num \<le> length reps" "pc \<le> PIPE_LIMIT" "0 \<in> open_fds k"
    "card (open_fds k) + 2 * (num * pc) \<le> os_fd_max k"
  shows "laid k ext pc num num (createPipes k reps 0 num ext pc)"
  unfolding createPipes_def
proof (rule for_upto_indexed_invariant [where I = "laid k ext pc num"], goal_cases)
  case 1
  then show ?case using assms(1,2) by (simp add: laid_def)
next
  case (2 i t)
  obtain k1 reps1 where t: "t = (k1, reps1)" by (cases t)
  obtain k2 rep where "for_upto pc (createPipe ext) (k1, reps1 ! i) = (k2, rep)" by fastforce
  then show ?case using laid_step [OF 2(2) [unfolded t] 2(1) assms(3-5)] by (simp add: t)
qed

text \<open>The pipes lie in one block, so no two of them are the same.\<close>

lemma block_inj: "r * pc + p = r' * pc + p' \<Longrightarrow> p < pc \<Longrightarrow> p' < pc \<Longrightarrow> r = r' \<and> p = p'" for r pc p r' p' :: nat
proof -
  assume a: "r * pc + p = r' * pc + p'" "p < pc" "p' < pc"
  have "(r * pc + p) div pc = r" "(r' * pc + p') div pc = r'" using a(2,3) by simp_all
  then have "r = r'" using a(1) by metis
  then show ?thesis using a(1) by simp
qed

text \<open>The external pipes of a voter are open before it starts.\<close>

definition ext_open :: "os \<Rightarrow> vote_pipe list \<Rightarrow> nat \<Rightarrow> bool" where
  "ext_open k ext pc \<longleftrightarrow> (\<forall>p < pc. \<forall>f \<in> {fd_in (ext ! p), fd_out (ext ! p)} - {0}. \<exists>q < length (os_pipes k).
     os_lookup k f = Some (ReadEnd q) \<or> os_lookup k f = Some (WriteEnd q))"

lemma laid_reps_ok:
  assumes "laid k0 ext pc num num (k, reps)" "pc \<le> PIPE_LIMIT" "0 \<in> open_fds k0"
    "card (open_fds k0) + 2 * (num * pc) \<le> os_fd_max k0" "ext_open k0 ext pc"
  shows "reps_ok k ext pc num reps" "ext_apart k ext pc num reps"
    "\<forall>r < num. \<forall>p < PIPE_LIMIT. buff_index (vot reps r p) = 0"
proof -
  have W: "wired k (ext ! p) (reps ! r) p (length (os_pipes k0) + (r * pc + p))" if "r < num" "p < pc" for r p
    using assms(1) that by (simp add: laid_def)
  then have c: "chan k (reps ! r) p = length (os_pipes k0) + (r * pc + p)" if "r < num" "p < pc" for r p
    using wired_chan that by blast
  have inj: "inj_on (\<lambda>(r, p). chan k (reps ! r) p) ({..<num} \<times> {..<pc})"
  proof (rule inj_onI, clarify)
    fix r p r' p' assume a: "r < num" "p < pc" "r' < num" "p' < pc" "chan k (reps ! r) p = chan k (reps ! r') p'"
    then show "r = r' \<and> p = p'" using block_inj [of r pc p r' p'] by (simp add: c)
  qed
  show "reps_ok k ext pc num reps"
    unfolding reps_ok_def rep_ok_def using assms(1-4) W c inj by (simp add: laid_def) blast
  show "ext_apart k ext pc num reps"
    unfolding ext_apart_def
  proof (intro allI ballI impI)
    fix p f assume "p < pc" "f \<in> {fd_in (ext ! p), fd_out (ext ! p)} - {0}"
    with assms(5) obtain q where q: "q < length (os_pipes k0)" "os_lookup k0 f = Some (ReadEnd q) \<or> os_lookup k0 f = Some (WriteEnd q)"
      unfolding ext_open_def by blast
    then have "f \<in> open_fds k0" by (auto simp: open_fds_def)
    then have "os_lookup k f = os_lookup k0 f" "length (os_pipes k0) \<le> length (os_pipes k)"
      using assms(1) by (simp_all add: laid_def)
    then show "\<exists>q < length (os_pipes k). (os_lookup k f = Some (ReadEnd q) \<or> os_lookup k f = Some (WriteEnd q)) \<and>
        (\<forall>r < num. \<forall>i < pc. q \<noteq> chan k (reps ! r) i)"
      using q c by (intro exI [of _ q]) auto
  qed
  show "\<forall>r < num. \<forall>p < PIPE_LIMIT. buff_index (vot reps r p) = 0"
    using assms(1) by (simp add: laid_def empty_rings_def)
qed

section \<open>The steps of the start\<close>

lemma createFDS_frame:
  assumes "createFDS b l k sd nm = (k', sd', r)" "card (open_fds k) < os_fd_max k"
  shows "pipes_kept k k'" "os_peers k' = os_peers k" "open_fds k \<subseteq> open_fds k'"
    "card (open_fds k') = Suc (card (open_fds k))" "f \<in> open_fds k \<Longrightarrow> os_lookup k' f = os_lookup k f"
proof -
  obtain k1 s where "os_alloc k SocketEnd = (k1, s)" "0 \<le> s" "s \<notin> open_fds k"
    "open_fds k1 = insert s (open_fds k)" "card (open_fds k1) = Suc (card (open_fds k))" "os_lookup k1 s = Some SocketEnd"
    "\<And>g. g \<noteq> s \<Longrightarrow> os_lookup k1 g = os_lookup k g" "k1 = k\<lparr>os_fd_table := os_fd_table k1\<rparr>"
    by (rule os_alloc_room [OF assms(2), of SocketEnd]) (rule that)
  note a = this(1,3-5,7,8)
  have k': "k' = k1" using assms(1) a(1) by (auto simp: createFDS_def Let_def split: if_splits)
  show "pipes_kept k k'" "os_peers k' = os_peers k"
    using arg_cong [OF a(6), of os_pipes] arg_cong [OF a(6), of os_fd_max] arg_cong [OF a(6), of os_hup]
      arg_cong [OF a(6), of os_late] arg_cong [OF a(6), of os_peers]
    unfolding k' by (simp_all add: pipes_kept_def)
  show "open_fds k \<subseteq> open_fds k'" "card (open_fds k') = Suc (card (open_fds k))"
    "f \<in> open_fds k \<Longrightarrow> os_lookup k' f = os_lookup k f"
    using a(2-4) a(5) [of f] unfolding k' by auto
qed

lemma initReplicas_blank:
  assumes "\<forall>r < num. blank_replica (reps ! r)" "num \<le> length reps"
  shows "\<exists>reps'. initReplicas k reps 0 num nm prio = (k, reps') \<and> length reps' = length reps \<and> (\<forall>r < num. blank_replica (reps' ! r))"
proof -
  let ?body = "\<lambda>index (k, reps). let (k1, rep) = initReplica k (reps ! (0 + index)) nm prio in (k1, reps[0 + index := rep])"
  let ?I = "\<lambda>(k', reps'). k' = k \<and> length reps' = length reps \<and> (\<forall>r < num. blank_replica (reps' ! r))"
  have "?I (for_upto num ?body (k, reps))"
  proof (rule for_upto_invariant [where I = ?I])
    fix i t assume i: "i < num" "?I t"
    obtain reps1 where t: "t = (k, reps1)" "length reps1 = length reps" "\<forall>r < num. blank_replica (reps1 ! r)" using i(2) by auto
    have "r_pipe_count (reps1 ! i) = 0" using t(3) i(1) by (simp add: blank_replica_def)
    then have "?body i t = (k, reps1[i := (reps1 ! i)\<lparr>r_name := Some nm, r_pid := - 1, r_priority := prio, r_pipe_count := 0\<rparr>])"
      by (simp add: t(1) initReplica_def Let_def)
    then show "?I (?body i t)" using t(2,3) i(1) assms(2)
      by (auto simp: nth_list_update blank_replica_def rep_shape_def empty_rings_def)
  qed (use assms in simp)
  then show ?thesis unfolding initReplicas_def by (auto split: prod.splits)
qed

definition pid_only :: "nat \<Rightarrow> os \<times> replica list \<Rightarrow> os \<times> replica list \<Rightarrow> bool" where
  "pid_only n s t \<longleftrightarrow> (\<forall>f. os_lookup (fst t) f = os_lookup (fst s) f) \<and> pipes_kept (fst s) (fst t) \<and>
     length (snd t) = length (snd s) \<and> (\<forall>i < n. same_pipes (snd s ! i) (snd t ! i))"

lemma pid_only_refl [simp]: "pid_only n s s"
  by (simp add: pid_only_def)

lemma pid_only_trans: "pid_only n a b \<Longrightarrow> pid_only n b c \<Longrightarrow> pid_only n a c"
  by (simp add: pid_only_def same_pipes_def pipes_kept_def)

lemma pid_only_update:
  assumes "\<forall>f. os_lookup k' f = os_lookup k f" "pipes_kept k k'"
  shows "pid_only n (k, reps) (k', reps[i := (reps ! i)\<lparr>r_pid := p\<rparr>])"
  using assms by (cases "i < length reps") (auto simp: pid_only_def nth_list_update same_pipes_def list_update_beyond)

lemma forkReplicas_frame:
  "pid_only num (k, reps) (forkReplicas k reps num args) \<and> os_peers (fst (forkReplicas k reps num args)) = os_peers k"
proof -
  let ?I = "\<lambda>t. pid_only num (k, reps) t \<and> os_peers (fst t) = os_peers k"
  show ?thesis
    unfolding forkReplicas_def
  proof (rule for_upto_invariant [where I = ?I], simp, goal_cases)
    case (1 i t)
    obtain k1 reps1 where t: "t = (k1, reps1)" by (cases t)
    have "os_peers (fst (forkSingle k1 a)) = os_peers k1" for a
      by (simp add: forkSingle_def os_fork_exec_def split: list.splits)
    moreover have "pid_only num (k1, reps1) (fst (forkSingle k1 a), reps1[i := (reps1 ! i)\<lparr>r_pid := snd (forkSingle k1 a)\<rparr>])" for a
      using forkSingle_frame [of k1 a] by (intro pid_only_update) (metis prod.collapse)+
    ultimately show ?case using 1(2) pid_only_trans unfolding t by (simp add: Let_def case_prod_unfold) blast
  qed
qed

section \<open>The replicas connect\<close>

definition replies :: "peer list \<Rightarrow> nat \<Rightarrow> bool" where
  "replies ps n \<longleftrightarrow> n \<le> length ps \<and> list_all (\<lambda>p. case p of AcceptFails \<Rightarrow> False | Peer t r \<Rightarrow> t \<and> 4 \<le> length r) (take n ps)"

lemma replies_Suc: "replies ps (Suc n) \<longleftrightarrow> (\<exists>r ps'. ps = Peer True r # ps' \<and> 4 \<le> length r \<and> replies ps' n)"
  by (cases ps) (auto simp: replies_def split: peer.splits)

lemma acceptSendFDS_connects:
  assumes "os_peers k = Peer True reply # ps" "4 \<le> length reply" "card (open_fds k) < os_fd_max k"
    "\<forall>fd \<in> set (rights pipes n). fd \<in> open_fds k"
  shows "\<exists>k' pid'. acceptSendFDS k sd pid pipes n = (k', pid', 4) \<and> os_peers k' = ps"
proof -
  let ?k = "k\<lparr>os_peers := ps\<rparr>"
  have "card (open_fds ?k) < os_fd_max ?k" using assms(3) by (simp add: open_fds_def)
  then obtain k1 s where "os_alloc ?k SocketEnd = (k1, s)" "0 \<le> s" "s \<notin> open_fds ?k"
    "open_fds k1 = insert s (open_fds ?k)" "card (open_fds k1) = Suc (card (open_fds ?k))" "os_lookup k1 s = Some SocketEnd"
    "\<And>g. g \<noteq> s \<Longrightarrow> os_lookup k1 g = os_lookup ?k g" "k1 = ?k\<lparr>os_fd_table := os_fd_table k1\<rparr>"
    by (rule os_alloc_room [of ?k SocketEnd]) (rule that)
  note a = this(1,2,4,8)
  have "list_all (\<lambda>fd. os_lookup k1 fd \<noteq> None) (rights pipes n)"
    using assms(4) a(3) by (auto simp: list_all_iff open_fds_def)
  moreover have "os_peers k1 = ps" using arg_cong [OF a(4), of os_peers] by simp
  moreover have "os_accept k = (k1, s, Peer True reply)" using assms(1) a(1) by (simp add: os_accept_def)
  ultimately show ?thesis
    using a(2) assms(2) by (simp add: acceptSendFDS_def sendFDS_def Let_def os_close_def)
qed

lemma rights_open:
  assumes "reps_ok k ext pc num reps" "r < num"
  shows "\<forall>fd \<in> set (rights (r_rep_pipes (reps ! r)) pc). fd \<in> open_fds k"
proof -
  have "(if fd_in (r_rep_pipes (reps ! r) ! p) \<noteq> 0 then fd_in (r_rep_pipes (reps ! r) ! p) else fd_out (r_rep_pipes (reps ! r) ! p))
      \<in> open_fds k" if "p < pc" for p
    using reps_okD(1) [OF assms that] by (auto simp: wired_def open_fds_def Let_def split: if_splits)
  then show ?thesis by (simp only: rights_def set_map ball_simps set_upt) simp
qed

lemma reps_ok_pid_only:
  assumes "reps_ok k ext pc num reps" "pid_only num (k, reps) (k', reps')"
  shows "reps_ok k' ext pc num reps'" "\<forall>i < num. \<forall>p < pc. chan k' (reps' ! i) p = chan k (reps ! i) p" "fds_kept k k'"
proof -
  show f: "fds_kept k k'" using assms(2) by (simp add: pid_only_def fds_kept_def pipes_kept_def)
  have "length reps' = length reps" using assms(2) by (simp add: pid_only_def)
  moreover have "\<forall>i < num. ends_kept (reps ! i) (reps' ! i)"
    using assms(2) ends_kept_same_pipes by (simp add: pid_only_def)
  moreover have "wf_vp (vot reps' i p)" if "i < num" "p < PIPE_LIMIT" for i p
    using reps_okD(2) [OF assms(1) that(1)] assms(2) that by (simp add: pid_only_def same_pipes_def rep_shape_def)
  ultimately show "reps_ok k' ext pc num reps'" "\<forall>i < num. \<forall>p < pc. chan k' (reps' ! i) p = chan k (reps ! i) p"
    using reps_ok_kept [OF assms(1) f, of reps' ext] by blast+
qed

lemma acceptReplicas_connects:
  assumes "reps_ok k ext pc num reps" "set is \<subseteq> {..<num}" "replies (os_peers k) (length is)" "card (open_fds k) < os_fd_max k"
  shows "\<exists>k' reps'. acceptReplicas k reps sd is = Some (k', reps') \<and> pid_only num (k, reps) (k', reps')"
  using assms
proof (induction "is" arbitrary: k reps)
  case (Cons i "is")
  obtain reply ps where p: "os_peers k = Peer True reply # ps" "4 \<le> length reply" "replies ps (length is)"
    using Cons.prems(3) replies_Suc by auto
  have i: "i < num" using Cons.prems(2) by simp
  have "r_pipe_count (reps ! i) = pc" using reps_okD(3) [OF Cons.prems(1) i] .
  then obtain k1 pid where a: "acceptSendFDS k sd (r_pid (reps ! i)) (r_rep_pipes (reps ! i)) (r_pipe_count (reps ! i)) = (k1, pid, 4)"
    "os_peers k1 = ps"
    using acceptSendFDS_connects [OF p(1,2) Cons.prems(4) rights_open [OF Cons.prems(1) i]] by fastforce
  let ?reps = "reps[i := (reps ! i)\<lparr>r_pid := pid\<rparr>]"
  have f: "\<forall>f. os_lookup k1 f = os_lookup k f" "pipes_kept k k1"
    using acceptSendFDS_frame [OF a(1)] by blast+
  have po: "pid_only num (k, reps) (k1, ?reps)" using pid_only_update [OF f] .
  have "card (open_fds k1) < os_fd_max k1" using f Cons.prems(4) by (simp add: open_fds_def pipes_kept_def)
  with Cons.IH [of k1 ?reps] reps_ok_pid_only(1) [OF Cons.prems(1) po] p(3) a(2) Cons.prems(2)
  obtain k' reps' where "acceptReplicas k1 ?reps sd is = Some (k', reps')" "pid_only num (k1, ?reps) (k', reps')" by auto
  then show ?case using a(1) pid_only_trans [OF po] by simp
qed simp

section \<open>Probing\<close>

definition probed :: "nat \<Rightarrow> replica list \<Rightarrow> replica list \<Rightarrow> bool" where
  "probed num reps reps' \<longleftrightarrow> length reps' = length reps \<and> (\<forall>i < num. ends_kept (reps ! i) (reps' ! i)) \<and>
     (\<forall>i < num. \<forall>p < PIPE_LIMIT. wf_vp (vot reps' i p) \<and> buff_index (vot reps' i p) = buff_index (vot reps i p))"

lemma probe_open:
  assumes "wf_vp p" "fd_in p = 0 \<or> (\<exists>q < length (os_pipes k). os_lookup k (fd_in p) = Some (ReadEnd q))"
  shows "wf_vp (probe k p)" "buff_index (probe k p) = buff_index p" "same_ends (probe k p) p"
  using assms by (auto simp: probe_def wf_vp_def same_ends_def os_read_def)

lemma probe_step:
  assumes "reps_ok k ext pc num reps" "probed num reps reps'" "r < num" "p < pc"
  shows "probed num reps (set_vot reps' r p (probe k (vot reps' r p)))"
proof -
  have len: "r < length reps'" "p < PIPE_LIMIT" using assms by (auto simp: probed_def reps_ok_def)
  have sh: "length (r_vot_pipes (reps ! r)) = PIPE_LIMIT" using reps_okD(2) [OF assms(1,3)] by (simp add: rep_shape_def)
  have P: "ends_kept (reps ! i) (reps' ! i)" "\<And>q. q < PIPE_LIMIT \<Longrightarrow> wf_vp (vot reps' i q) \<and> buff_index (vot reps' i q) = buff_index (vot reps i q)"
    if "i < num" for i using assms(2) that by (simp_all add: probed_def)
  have "same_ends (vot reps' r p) (vot reps r p)" using P(1) [OF assms(3)] sh len(2) by (simp add: ends_kept_def)
  then have "fd_in (vot reps' r p) = 0 \<or> (\<exists>q < length (os_pipes k). os_lookup k (fd_in (vot reps' r p)) = Some (ReadEnd q))"
    using reps_okD(1) [OF assms(1,3,4)] by (auto simp: wired_def same_ends_def Let_def split: if_splits)
  note pr = probe_open [OF P(2) [OF assms(3) len(2), THEN conjunct1] this]
  let ?new = "set_vot reps' r p (probe k (vot reps' r p))"
  have new: "?new ! r = (reps' ! r)\<lparr>r_vot_pipes := (r_vot_pipes (reps' ! r))[p := probe k (vot reps' r p)]\<rparr>"
    using len(1) by simp
  have l: "length (r_vot_pipes (reps' ! r)) = PIPE_LIMIT" using P(1) [OF assms(3)] sh by (simp add: ends_kept_def)
  have "ends_kept (reps' ! r) (?new ! r)" unfolding new using ends_kept_set_pipe [OF pr(3)] .
  then have "ends_kept (reps ! i) (?new ! i)" if "i < num" for i
    using P(1) [OF that] ends_kept_trans by (cases "i = r") auto
  moreover have "wf_vp (vot ?new i q) \<and> buff_index (vot ?new i q) = buff_index (vot reps i q)" if "i < num" "q < PIPE_LIMIT" for i q
    using P(2) [OF that] pr(1,2) P(2) [OF assms(3) len(2)] l len(2)
    by (cases "i = r"; cases "q = p") (simp_all add: new)
  ultimately show ?thesis using assms(2) by (simp add: probed_def)
qed

lemma probe_all:
  assumes "reps_ok k ext pc num reps"
  shows "probed num reps (for_upto num (\<lambda>r reps. for_upto (r_pipe_count (reps ! r)) (\<lambda>p reps.
    set_vot reps r p (probe k (vot reps r p))) reps) reps)"
proof (rule for_upto_invariant [where I = "probed num reps"], goal_cases)
  case 1
  show ?case using reps_okD(2) [OF assms] by (simp add: probed_def rep_shape_def)
next
  case (2 i t)
  have "r_pipe_count (t ! i) = pc" using 2 reps_okD(3) [OF assms] by (simp add: probed_def ends_kept_def)
  then show ?case
    using 2 by (intro for_upto_invariant [where I = "probed num reps"]) (simp_all add: probe_step [OF assms])
qed

lemma nth_update_if: "xs[i := x] ! j = (if i = j \<and> j < length xs then x else xs ! j)"
  by (cases "i = j") (auto simp: list_update_beyond)

lemma probe_ext:
  "length (for_upto n (\<lambda>p e. e[p := probe k (e ! p)]) ext) = length ext \<and>
    (\<forall>p < length ext. same_ends (for_upto n (\<lambda>p e. e[p := probe k (e ! p)]) ext ! p) (ext ! p) \<and>
      length (buffer (for_upto n (\<lambda>p e. e[p := probe k (e ! p)]) ext ! p)) = length (buffer (ext ! p)))"
  by (rule for_upto_invariant [where I = "\<lambda>e. length e = length ext \<and> (\<forall>p < length ext. same_ends (e ! p) (ext ! p) \<and>
      length (buffer (e ! p)) = length (buffer (ext ! p)))"])
    (auto simp: nth_update_if probe_def same_ends_def)

section \<open>The start\<close>

lemma createPipes_peers: "os_peers (fst (createPipes k reps 0 num ext pc)) = os_peers k"
proof -
  have loop: "os_peers (fst (for_upto n (createPipe ext) (k, rep))) = os_peers k" for n k rep
  proof -
    obtain t ps where "fst (for_upto n (createPipe ext) (k, rep)) = k\<lparr>os_fd_table := t, os_pipes := ps\<rparr>"
      using createPipe_loop_frame by blast
    then show ?thesis by simp
  qed
  show ?thesis
    unfolding createPipes_def
    by (rule for_upto_invariant [where I = "\<lambda>t. os_peers (fst t) = os_peers k"])
      (auto simp: Let_def case_prod_unfold loop)
qed

lemma startReplicas_ok:
  assumes "\<forall>r < num. blank_replica (reps ! r)" "num \<le> length reps" "pc \<le> PIPE_LIMIT" "0 \<in> open_fds k"
    "card (open_fds k) + 2 * (num * pc) < os_fd_max k" "ext_open k ext pc" "replies (os_peers k) num"
  shows "\<exists>k' reps'. startReplicas k reps num sd nm ext pc prio = Some (k', reps') \<and>
    reps_ok k' ext pc num reps' \<and> ext_apart k' ext pc num reps' \<and>
    (\<forall>r < num. \<forall>p < PIPE_LIMIT. buff_index (vot reps' r p) = 0)"
proof -
  obtain reps1 where i: "initReplicas k reps 0 num nm prio = (k, reps1)" "length reps1 = length reps" "\<forall>r < num. blank_replica (reps1 ! r)"
    using initReplicas_blank [OF assms(1,2)] by blast
  obtain k2 reps2 where c: "createPipes k reps1 0 num ext pc = (k2, reps2)" by fastforce
  have "laid k ext pc num num (k2, reps2)"
    using createPipes_laid [OF i(3) _ assms(3,4), of ext] assms(2,5) i(2) c by simp
  note L = laid_reps_ok [OF this assms(3,4) _ assms(6)] and this
  have l: "card (open_fds k2) < os_fd_max k2"
    using \<open>laid k ext pc num num (k2, reps2)\<close> assms(5) by (simp add: laid_def)
  have ok2: "reps_ok k2 ext pc num reps2" "ext_apart k2 ext pc num reps2" "\<forall>r < num. \<forall>p < PIPE_LIMIT. buff_index (vot reps2 r p) = 0"
    using L assms(5) by simp_all
  obtain k3 reps3 where f: "forkReplicas k2 reps2 num [] = (k3, reps3)" by fastforce
  have f3: "pid_only num (k2, reps2) (k3, reps3)" "os_peers k3 = os_peers k"
    using forkReplicas_frame [of num k2 reps2 "[]"] createPipes_peers [of k reps1 num ext pc] f c by simp_all
  have l3: "card (open_fds k3) < os_fd_max k3" using l f3(1) by (simp add: pid_only_def open_fds_def pipes_kept_def)
  obtain k4 reps4 where a: "acceptReplicas k3 reps3 sd [0..<num] = Some (k4, reps4)" "pid_only num (k3, reps3) (k4, reps4)"
    using acceptReplicas_connects [OF reps_ok_pid_only(1) [OF ok2(1) f3(1)], of "[0..<num]" sd] f3(2) assms(7) l3 by fastforce
  have po: "pid_only num (k2, reps2) (k4, reps4)" using pid_only_trans [OF f3(1) a(2)] .
  note R = reps_ok_pid_only [OF ok2(1) po]
  have "ext_apart k4 ext pc num reps4" using ext_apart_kept [OF ok2(2) R(3,2)] by simp
  moreover have "startReplicas k reps num sd nm ext pc prio = Some (k4, reps4)"
    using a(1) by (simp add: startReplicas_def i(1) c f)
  ultimately show ?thesis using R(1) ok2(3) po by (auto simp: pid_only_def same_pipes_def)
qed

lemma ext_open_kept:
  assumes "ext_open k ext pc" "\<And>f. f \<in> open_fds k \<Longrightarrow> os_lookup k1 f = os_lookup k f" "os_pipes k1 = os_pipes k"
  shows "ext_open k1 ext pc"
  unfolding ext_open_def assms(3)
proof (intro allI ballI impI)
  fix p f assume "p < pc" "f \<in> {fd_in (ext ! p), fd_out (ext ! p)} - {0}"
  with assms(1) obtain q where q: "q < length (os_pipes k)" "os_lookup k f = Some (ReadEnd q) \<or> os_lookup k f = Some (WriteEnd q)"
    unfolding ext_open_def by blast
  then have "os_lookup k1 f = os_lookup k f" by (intro assms(2)) (auto simp: open_fds_def)
  then show "\<exists>q < length (os_pipes k). os_lookup k1 f = Some (ReadEnd q) \<or> os_lookup k1 f = Some (WriteEnd q)"
    using q by auto
qed

text \<open>The probing of the timers leaves a voter that satisfies the invariant.\<close>

lemma probed_inv:
  assumes "reps_ok k (v_ext v) (v_pipe_count v) (v_rep_count v) reps" "ext_apart k (v_ext v) (v_pipe_count v) (v_rep_count v) reps"
    "\<forall>r < v_rep_count v. \<forall>p < PIPE_LIMIT. buff_index (vot reps r p) = 0" "probed (v_rep_count v) reps reps'"
    "rep_count_ok v" "v_pipe_count v \<le> PIPE_LIMIT" "length (v_ext v) = PIPE_LIMIT" "\<forall>p < v_pipe_count v. length (buffer (v_ext v ! p)) = 4096"
    "ext' = for_upto (v_pipe_count v) (\<lambda>p e. e[p := probe k (e ! p)]) (v_ext v)"
  shows "voter_inv k (v\<lparr>v_rep_priority := x, v_sd := sd, v_ext := ext', v_reps := reps'\<rparr>)"
proof -
  note X = probe_ext [of "v_pipe_count v" k "v_ext v", folded assms(9)]
  have ends: "fd_in (ext' ! p) = fd_in (v_ext v ! p)" "fd_out (ext' ! p) = fd_out (v_ext v ! p)" "length (buffer (ext' ! p)) = 4096"
    if "p < v_pipe_count v" for p using X that assms(6-8) by (simp_all add: same_ends_def)
  note N = reps_ok_kept [OF assms(1) fds_kept_refl, of reps' ext']
  have "reps_ok k ext' (v_pipe_count v) (v_rep_count v) reps'" "ext_apart k ext' (v_pipe_count v) (v_rep_count v) reps'"
    using N ext_apart_kept [OF assms(2) fds_kept_refl, of reps' ext'] assms(4) ends by (simp_all add: probed_def)
  moreover have "buff_index (vot reps' r p) = 0" if "r < v_rep_count v" "p < v_pipe_count v" for r p
    using assms(3,4,6) that by (simp add: probed_def)
  moreover have "0 < v_rep_count v" using assms(5) by (auto simp: rep_count_ok_def)
  ultimately show ?thesis
    using assms(5,7) X ends by (simp add: voter_inv_def lockstep_def rep_count_ok_def)
qed

lemma voter_starts:
  assumes "rep_count_ok v" "\<forall>r < v_rep_count v. blank_replica (v_reps v ! r)" "v_rep_count v \<le> length (v_reps v)"
    "v_pipe_count v \<le> PIPE_LIMIT" "length (v_ext v) = PIPE_LIMIT" "\<forall>p < v_pipe_count v. length (buffer (v_ext v ! p)) = 4096"
    "0 \<in> open_fds k" "ext_open k (v_ext v) (v_pipe_count v)"
    "card (open_fds k) + 2 * (v_rep_count v * v_pipe_count v) + 2 \<le> os_fd_max k"
    "replies (os_peers k) (v_rep_count v)" "forceMaps mapsfile \<noteq> None"
  shows "\<exists>k' v'. initVoterD aff ml mapsfile self b l k v = Some (k', v') \<and> voter_inv k' v' \<and>
    (\<forall>k'' v''. voter_reaches F (k', v') (k'', v'') \<longrightarrow> voter_inv k'' v'')"
proof -
  let ?n = "v_rep_count v" and ?pc = "v_pipe_count v" and ?ext = "v_ext v"
  let ?prio = "v_priority v - VOTER_PRIO_OFFSET"
  obtain k1 sd r where fds: "createFDS b l k (v_sd v) (v_name v) = (k1, sd, r)" by (metis prod_cases3)
  have room: "card (open_fds k) < os_fd_max k" using assms(9) by simp
  note C = createFDS_frame [OF fds room]
  have z: "0 \<in> open_fds k1" using C(3) assms(7) by blast
  have fm: "os_fd_max k1 = os_fd_max k" "os_pipes k1 = os_pipes k" using C(1) by (simp_all add: pipes_kept_def)
  have cd: "card (open_fds k1) + 2 * (?n * ?pc) < os_fd_max k1" using C(4) fm assms(9) by simp
  have eo: "ext_open k1 ?ext ?pc" using ext_open_kept [OF assms(8) C(5) fm(2)] .
  have rp: "replies (os_peers k1) ?n" using assms(10) C(2) by simp
  obtain k2 reps2 where S: "startReplicas k1 (v_reps v) ?n sd (v_name v) ?ext ?pc ?prio = Some (k2, reps2)"
    "reps_ok k2 ?ext ?pc ?n reps2" "ext_apart k2 ?ext ?pc ?n reps2" "\<forall>r < ?n. \<forall>p < PIPE_LIMIT. buff_index (vot reps2 r p) = 0"
    using startReplicas_ok [OF assms(2-4) z cd eo rp, of sd "v_name v" ?prio] by blast
  let ?k3 = "fst (sched_set_policy k2 self (v_priority v))"
  have f3: "fds_kept k2 ?k3" using sched_set_policy_frame [of k2 self "v_priority v"] by (auto simp: fds_kept_def)
  let ?ext' = "for_upto ?pc (\<lambda>p e. e[p := probe ?k3 (e ! p)]) ?ext"
  let ?reps' = "for_upto ?n (\<lambda>r reps. for_upto (r_pipe_count (reps ! r)) (\<lambda>p reps.
      set_vot reps r p (probe ?k3 (vot reps r p))) reps) reps2"
  let ?v = "v\<lparr>v_rep_priority := ?prio, v_sd := sd, v_ext := ?ext', v_reps := ?reps'\<rparr>"
  have run: "initVoterD aff ml mapsfile self b l k v = Some (?k3, ?v)"
    using fds S(1) assms(11) by (auto simp: initVoterD_def InitTAS_def Let_def split: prod.splits)
  have same: "\<forall>i < ?n. ends_kept (reps2 ! i) (reps2 ! i)" "\<forall>i < ?n. \<forall>p < PIPE_LIMIT. wf_vp (vot reps2 i p)"
    using reps_okD(2) [OF S(2)] by (simp_all add: rep_shape_def)
  note K = reps_ok_kept [OF S(2) f3 refl same, of ?ext]
  have ok3: "reps_ok ?k3 ?ext ?pc ?n reps2" "ext_apart ?k3 ?ext ?pc ?n reps2"
    using K ext_apart_kept [OF S(3) f3, of reps2 ?ext] by simp_all
  have "\<forall>r < ?n. \<forall>p < PIPE_LIMIT. buff_index (vot reps2 r p) = 0" using S(4) .
  from probed_inv [OF ok3 this probe_all [OF ok3(1)] assms(1,4-6) refl] have inv: "voter_inv ?k3 ?v" .
  moreover have "voter_inv k'' v''" if "voter_reaches F (?k3, ?v) (k'', v'')" for k'' v''
    using reaches_good [OF that refl inv] by (simp add: good_def)
  ultimately show ?thesis using run by blast
qed

text \<open>
  (C2) The voter starts well. Given a configuration with one, two or three replicas, open external
  pipes, enough free descriptors and replicas that connect, \<open>initVoterD\<close> completes, and in the state it
  leaves and in every state that the main loop reaches from there the invariant holds.
\<close>

theorem voter_starts_in_invariant:
  assumes "rep_count_ok v" "\<forall>r < v_rep_count v. blank_replica (v_reps v ! r)" "v_rep_count v \<le> length (v_reps v)"
    "v_pipe_count v \<le> PIPE_LIMIT" "length (v_ext v) = PIPE_LIMIT" "\<forall>p < v_pipe_count v. length (buffer (v_ext v ! p)) = 4096"
    "0 \<in> open_fds k" "ext_open k (v_ext v) (v_pipe_count v)"
    "card (open_fds k) + 2 * (v_rep_count v * v_pipe_count v) + 2 \<le> os_fd_max k"
    "replies (os_peers k) (v_rep_count v)" "forceMaps mapsfile \<noteq> None"
  shows "\<exists>k' v'. initVoterD aff ml mapsfile self b l k v = Some (k', v') \<and> voter_inv k' v' \<and>
    (\<forall>k'' v''. voter_reaches F (k', v') (k'', v'') \<longrightarrow> voter_inv k'' v'')"
  using voter_starts [OF assms] .

text \<open>A voter before its start: three blank replicas, an input and an output.\<close>

definition demo_cold :: voter where
  "demo_cold = demo_voter\<lparr>v_reps := replicate 3 \<lparr>r_pid = 0, r_priority = 0, r_name = None, r_pipe_count = 0,
     r_vot_pipes = replicate 10 (demo_ring [] 0 0), r_in_copy = replicate 10 0,
     r_rep_pipes = replicate 10 (demo_ring [] 0 0)\<rparr>\<rparr>"

abbreviation demo_before :: os where
  "demo_before \<equiv> (demo_os [])\<lparr>os_fd_table := [Some SocketEnd, Some SocketEnd, Some SocketEnd, Some (ReadEnd 0), Some (WriteEnd 1)],
     os_pipes := [[], []], os_peers := replicate 3 (Peer True (int_bytes 77))\<rparr>"

theorem voter_starts_in_invariant_witness:
  "\<exists>k' v'. initVoterD (\<lambda>p s. True) True None 9 True True demo_before demo_cold = Some (k', v') \<and> voter_inv k' v'"
proof -
  have sz: "v_rep_count demo_cold = 3" "v_pipe_count demo_cold = 2" "length (v_reps demo_cold) = 3" "length (v_ext demo_cold) = 10"
    "fd_in (v_ext demo_cold ! 0) = 3" "fd_out (v_ext demo_cold ! 0) = 0" "fd_in (v_ext demo_cold ! Suc 0) = 0"
    "fd_out (v_ext demo_cold ! Suc 0) = 4" "rep_count_ok demo_cold"
    by (simp_all add: demo_cold_def demo_voter_def rep_count_ok_def)
  have "\<forall>r < 3. blank_replica (v_reps demo_cold ! r)"
    by (simp add: demo_cold_def blank_replica_def rep_shape_def empty_rings_def)
  moreover have "\<forall>p < 2. length (buffer (v_ext demo_cold ! p)) = 4096"
    unfolding all_less_2 by (simp add: demo_cold_def demo_voter_def)
  moreover have l: "os_lookup demo_before 0 = Some SocketEnd" "os_lookup demo_before 3 = Some (ReadEnd 0)"
    "os_lookup demo_before 4 = Some (WriteEnd 1)" by (simp_all add: os_lookup_def)
  moreover have "ext_open demo_before (v_ext demo_cold) 2"
    unfolding ext_open_def all_less_2 by (auto simp: sz os_lookup_def less_Suc_eq)
  moreover have "card (open_fds demo_before) \<le> 5" using card_open_fds_table [of demo_before] by simp
  moreover have "replies (os_peers demo_before) 3" by (simp add: replies_def numeral_3_eq_3)
  ultimately show ?thesis
    using voter_starts_in_invariant [of demo_cold demo_before None "\<lambda>p s. True" True 9 True True rat_fp]
    by (fastforce simp: sz open_fds_def forceMaps_def demo_os_def)
qed

end
