(* ===== verification/Voter_Configured.thy ===== *)
theory Voter_Configured imports Plumber_Main Voter_Start begin

text \<open>
  The plumber and the voters together: a component that the configuration replicates is started as a
  voter, which reads its arguments, starts its replicas and is then in its invariant.
\<close>

section \<open>The voter's globals\<close>

text \<open>Before \<open>main\<close> the globals are zero, except for the initialised ones.\<close>

definition zero_pipe :: vote_pipe where
  "zero_pipe = \<lparr>rep_info = [], fd_in = 0, fd_out = 0, timed = False, buff_count = 0, buff_index = 0,
     buffer = replicate 4096 0\<rparr>"

definition zero_replica :: replica where
  "zero_replica = \<lparr>r_pid = 0, r_priority = 0, r_name = None, r_pipe_count = 0,
     r_vot_pipes = replicate PIPE_LIMIT zero_pipe, r_in_copy = replicate PIPE_LIMIT 0,
     r_rep_pipes = replicate PIPE_LIMIT zero_pipe\<rparr>"

definition voter_globals :: voter where
  "voter_globals = \<lparr>v_timeout = 0, v_timer_start = 0, v_timer_stop = 0, v_timer_started = False,
     v_watchdog = 0, v_last_dead = - 1, v_reps = replicate 3 zero_replica, v_priority = 0, v_rep_priority = 0,
     v_sd = \<lparr>sd_address = [], sd_sock_fd = 0\<rparr>, v_rep_type = NONE, v_rep_count = 0, v_name = [],
     v_pipe_count = 0, v_ext = replicate PIPE_LIMIT zero_pipe\<rparr>"

lemma blank_zero_replica: "blank_replica zero_replica"
  by (simp add: blank_replica_def rep_shape_def empty_rings_def zero_replica_def zero_pipe_def wf_simps)

section \<open>Arguments\<close>

text \<open>What \<open>parsePipe\<close> makes of the text of a port in a given element of the array.\<close>

definition voted_as :: "os \<Rightarrow> vote_pipe \<Rightarrow> port \<Rightarrow> bool" where
  "voted_as k q p \<longleftrightarrow> rep_info q = MESSAGE_T (fst p) \<and> timed q = snd (snd p) \<and> (fd_in q = 0 \<or> fd_out q = 0) \<and>
     (if fd_in q = 0 then Output (os_lookup k (fd_out q)) else Input (os_lookup k (fd_in q))) = fst (snd p)"

lemma parsePipe_voted:
  assumes "voted_port_text k t p"
  obtains q where "parsePipe t vp = Some q" "voted_as k q p" "buffer q = buffer vp"
proof -
  obtain q where q: "parsePipe t vp = Some q" "voted_as k q p"
    using assms unfolding voted_port_text_def voted_as_def by (fastforce split: option.splits)
  have "buffer q = buffer vp" using q(1) by (auto simp: parsePipe_def split: option.splits prod.splits)
  with q show thesis using that by blast
qed

lemma parsePipes_voted:
  assumes "list_all2 (voted_port_text k) texts ports" "v_pipe_count v + length texts \<le> length (v_ext v)"
  shows "\<exists>ext. parsePipes texts v = Some (v\<lparr>v_ext := ext, v_pipe_count := v_pipe_count v + length texts\<rparr>) \<and>
    length ext = length (v_ext v) \<and> (\<forall>i < v_pipe_count v. ext ! i = v_ext v ! i) \<and>
    (\<forall>i < length texts. voted_as k (ext ! (v_pipe_count v + i)) (ports ! i)) \<and>
    (\<forall>i < length ext. buffer (ext ! i) = buffer (v_ext v ! i))"
  using assms
proof (induction texts ports arbitrary: v rule: list_all2_induct)
  case Nil
  then show ?case by (auto intro!: exI [of _ "v_ext v"])
next
  case (Cons t ts p ps)
  let ?n = "v_pipe_count v"
  obtain q where q: "parsePipe t (v_ext v ! ?n) = Some q" "voted_as k q p" "buffer q = buffer (v_ext v ! ?n)"
    using parsePipe_voted [OF Cons(1)] .
  let ?v = "v\<lparr>v_ext := (v_ext v)[?n := q], v_pipe_count := ?n + 1\<rparr>"
  have "v_pipe_count ?v + length ts \<le> length (v_ext ?v)" using Cons.prems by simp
  from Cons.IH [OF this] obtain ext where e:
    "parsePipes ts ?v = Some (?v\<lparr>v_ext := ext, v_pipe_count := ?n + 1 + length ts\<rparr>)" "length ext = length (v_ext v)"
    "\<forall>i < ?n + 1. ext ! i = (v_ext v)[?n := q] ! i" "\<forall>i < length ts. voted_as k (ext ! (?n + 1 + i)) (ps ! i)"
    "\<forall>i < length ext. buffer (ext ! i) = buffer ((v_ext v)[?n := q] ! i)" by auto
  have "voted_as k (ext ! (?n + i)) ((p # ps) ! i)" if "i < length (t # ts)" for i
    using e(3,4) q(2) that Cons.prems by (cases i) auto
  moreover have "buffer (ext ! i) = buffer (v_ext v ! i)" if "i < length ext" for i
    using e(2,5) q(3) that by (cases "i = ?n") auto
  ultimately show ?case using e(1,2,3) q(1) by (intro exI [of _ ext]) auto
qed

lemma set_timers_reps: "v_reps (set_timers v) = v_reps v \<and> v_rep_count (set_timers v) = v_rep_count v"
  unfolding set_timers_def by (rule for_upto_invariant) simp_all

lemma voter_reads_arguments:
  assumes "argv_describes k argv cmp" "g_rep cmp \<in> {SMR, DMR, TMR}" "length (g_ports cmp) \<le> PIPE_LIMIT"
  obtains v where "Voter.parseArgs argv voter_globals = Some v" "v_name v = g_program cmp" "rep_count_ok v" "v_rep_type v = g_rep cmp"
    "v_pipe_count v = length (g_ports cmp)" "v_reps v = replicate 3 zero_replica" "length (v_ext v) = PIPE_LIMIT"
    "\<forall>i < length (g_ports cmp). voted_as k (v_ext v ! i) (g_ports cmp ! i)" "\<forall>i < PIPE_LIMIT. length (buffer (v_ext v ! i)) = 4096"
proof -
  obtain t texts where a: "argv = [''VoterD'', g_program cmp, REP_TYPE_T (g_rep cmp), t, g_priority cmp] @ texts"
    "list_all2 (voted_port_text k) texts (g_ports cmp)"
    using assms(1,2) by (auto simp: argv_describes_def)
  have len: "length texts = length (g_ports cmp)" using list_all2_lengthD [OF a(2)] .
  let ?v = "voter_globals\<lparr>v_name := g_program cmp, v_rep_type := g_rep cmp, v_rep_count := nat (reptypeToCount (g_rep cmp)),
    v_timeout := (if atoi t = 0 then PERIOD_USEC else atoi t), v_priority := atoi (g_priority cmp)\<rparr>"
  have z: "v_pipe_count ?v = 0" "length (v_ext ?v) = PIPE_LIMIT" "v_reps ?v = replicate 3 zero_replica"
    "\<forall>i < PIPE_LIMIT. length (buffer (v_ext ?v ! i)) = 4096"
    by (simp_all add: voter_globals_def zero_pipe_def)
  then have "v_pipe_count ?v + length texts \<le> length (v_ext ?v)" using len assms(3) by simp
  from parsePipes_voted [OF a(2) this] z obtain ext where e:
    "parsePipes texts ?v = Some (?v\<lparr>v_ext := ext, v_pipe_count := length texts\<rparr>)" "length ext = PIPE_LIMIT"
    "\<forall>i < length texts. voted_as k (ext ! i) (g_ports cmp ! i)" "\<forall>i < PIPE_LIMIT. length (buffer (ext ! i)) = 4096" by auto
  let ?w = "?v\<lparr>v_ext := ext, v_pipe_count := length texts\<rparr>"
  have rt: "reptypeToEnum (REP_TYPE_T (g_rep cmp)) = g_rep cmp" using assms(2) by (auto simp: reptypeToEnum_def)
  have tk: "take PIPE_LIMIT texts = texts" using len assms(3) by simp
  have "Voter.parseArgs argv voter_globals = Some (set_timers ?w)"
    unfolding a(1) using e(1) tk by (simp add: parseArgs_arguments rt)
  moreover have "rep_count_ok (set_timers ?w)"
    using assms(2) set_timers_frame [of ?w] set_timers_reps [of ?w] by (auto simp: rep_count_ok_def)
  ultimately show thesis
    using that [of "set_timers ?w"] e z len set_timers_frame [of ?w] set_timers_reps [of ?w] by simp
qed

section \<open>Start\<close>

lemma described_voter_starts:
  assumes "argv_describes k argv cmp" "g_rep cmp \<in> {SMR, DMR, TMR}" "length (g_ports cmp) \<le> PIPE_LIMIT"
    "\<forall>p \<in> set (g_ports cmp). port_ok (length (os_pipes k)) p" "0 \<in> open_fds k"
    "card (open_fds k) + 6 * length (g_ports cmp) + 2 \<le> os_fd_max k" "replies (os_peers k) 3" "forceMaps mapsfile \<noteq> None"
  shows "\<exists>v k' v'. Voter.parseArgs argv voter_globals = Some v \<and> v_name v = g_program cmp \<and> v_rep_type v = g_rep cmp \<and>
    initVoterD aff ml mapsfile self b l k v = Some (k', v') \<and> voter_inv k' v' \<and>
    (\<forall>k'' v''. voter_reaches F (k', v') (k'', v'') \<longrightarrow> voter_inv k'' v'')"
proof -
  obtain v where v: "Voter.parseArgs argv voter_globals = Some v" "v_name v = g_program cmp" "rep_count_ok v" "v_rep_type v = g_rep cmp"
    "v_pipe_count v = length (g_ports cmp)" "v_reps v = replicate 3 zero_replica" "length (v_ext v) = PIPE_LIMIT"
    "\<forall>i < length (g_ports cmp). voted_as k (v_ext v ! i) (g_ports cmp ! i)" "\<forall>i < PIPE_LIMIT. length (buffer (v_ext v ! i)) = 4096"
    using voter_reads_arguments [OF assms(1-3)] by blast
  have n: "v_rep_count v \<le> 3" using v(3) by (auto simp: rep_count_ok_def)
  have "ext_open k (v_ext v) (v_pipe_count v)"
    unfolding ext_open_def
  proof (intro allI impI ballI)
    fix p f assume p: "p < v_pipe_count v" and f: "f \<in> {fd_in (v_ext v ! p), fd_out (v_ext v ! p)} - {0}"
    then have "voted_as k (v_ext v ! p) (g_ports cmp ! p)" "port_ok (length (os_pipes k)) (g_ports cmp ! p)"
      using v(5,8) assms(4) by simp_all
    then show "\<exists>q < length (os_pipes k). os_lookup k f = Some (ReadEnd q) \<or> os_lookup k f = Some (WriteEnd q)"
      using f by (auto simp: voted_as_def port_ok_def split: if_splits)
  qed
  moreover have "v_rep_count v * v_pipe_count v \<le> 3 * length (g_ports cmp)" using n v(5) by simp
  then have "card (open_fds k) + 2 * (v_rep_count v * v_pipe_count v) + 2 \<le> os_fd_max k" using assms(6) by linarith
  moreover have "replies (os_peers k) (v_rep_count v)"
    using assms(7) n by (auto simp: replies_def list_all_length)
  moreover have "\<forall>r < v_rep_count v. blank_replica (v_reps v ! r)" using n blank_zero_replica v(6) by simp
  ultimately show ?thesis
    using voter_starts [OF v(3), of k mapsfile aff ml self b l F] v(1,2,4-7,9) n assms(3,5,8) by auto
qed

text \<open>
  (C3) From the configuration to the voters' invariant. Whatever well formed configuration the plumber
  is given, each component that it replicates is started with arguments from which the voter daemon
  takes the component's program and kind of replication, and when its replicas connect the daemon
  completes its start and keeps its invariant for ever. The daemon's kernel has the descriptors that
  it inherits from the plumber.
\<close>

theorem configured_voters_start:
  assumes "list_all valid_line ls" "5 \<le> length argv"
    "deserializePipe (argv ! 3) = Some data_in" "deserializePipe (argv ! 4) = Some cmd_out" "plumber_ready data_in cmd_out k"
    "i = os_lookup k (tp_in data_in)" "ou = os_lookup k (tp_out cmd_out)" "i = Some (ReadEnd p)" "ou = Some (WriteEnd q)"
    "p < length (os_pipes k)" "q < length (os_pipes k)" "config_ok i ou (statements ls) ([], length (os_pipes k))"
    "card (open_fds k) + 2 * sum_list (map new_pipes (statements ls)) \<le> os_fd_max k"
    "g = fst (graph_of i ou (statements ls) ([], length (os_pipes k)))"
    "length g \<le> length (os_forks k)" "\<forall>p \<in> set (os_forks k). 0 < p" "forceMaps mapsfile \<noteq> None"
  shows "\<exists>k' argvs. plumber_main (Some (render ls)) argv k = Inr (k', 0) \<and>
    os_execs k' = os_execs k @ zip (take (length g) (os_forks k)) argvs \<and> length argvs = length g \<and>
    (\<forall>j < length g. g_rep (g ! j) \<in> {SMR, DMR, TMR} \<longrightarrow>
      (\<forall>kv. os_fd_table kv = os_fd_table k' \<and> length (os_pipes kv) = length (os_pipes k') \<and>
         card (open_fds kv) + 62 \<le> os_fd_max kv \<and> replies (os_peers kv) 3 \<longrightarrow>
         (\<exists>v k2 v2. Voter.parseArgs (argvs ! j) voter_globals = Some v \<and> v_name v = g_program (g ! j) \<and>
            v_rep_type v = g_rep (g ! j) \<and> initVoterD aff ml mapsfile self b l kv v = Some (k2, v2) \<and> voter_inv k2 v2 \<and>
            (\<forall>k3 v3. voter_reaches F (k2, v2) (k3, v3) \<longrightarrow> voter_inv k3 v3))))"
proof -
  note io = assms(6,7)
  from plumber_main_launches [OF assms(1-5) assms(12,13,14) [unfolded io] assms(15,16)]
  obtain k' argvs where k': "plumber_main (Some (render ls)) argv k = Inr (k', 0)"
    "os_execs k' = os_execs k @ zip (take (length g) (os_forks k)) argvs" "list_all2 (argv_describes k') argvs g"
    "\<forall>f \<in> open_fds k. os_lookup k' f = os_lookup k f" "length (os_pipes k') = snd (graph_of i ou (statements ls) ([], length (os_pipes k)))"
    "\<forall>c \<in> set g. length (g_ports c) \<le> PIPE_LIMIT" unfolding io by blast
  have "ports_ok ([], length (os_pipes k))" by (simp add: ports_ok_def)
  from graph_of_ports [OF this assms(8) _ assms(9)] assms(10,11,14) k'(5) have ports: "ports_ok (g, length (os_pipes k'))"
    by (metis fst_conv snd_conv surjective_pairing)
  have 0: "os_lookup k' 0 \<noteq> None" using k'(4) assms(5) by (simp add: plumber_ready_def open_fds_def)
  have "\<exists>v k2 v2. Voter.parseArgs (argvs ! j) voter_globals = Some v \<and> v_name v = g_program (g ! j) \<and>
      v_rep_type v = g_rep (g ! j) \<and> initVoterD aff ml mapsfile self b l kv v = Some (k2, v2) \<and> voter_inv k2 v2 \<and>
      (\<forall>k3 v3. voter_reaches F (k2, v2) (k3, v3) \<longrightarrow> voter_inv k3 v3)"
    if j: "j < length g" "g_rep (g ! j) \<in> {SMR, DMR, TMR}" and kv: "os_fd_table kv = os_fd_table k'"
      "length (os_pipes kv) = length (os_pipes k')" "card (open_fds kv) + 62 \<le> os_fd_max kv" "replies (os_peers kv) 3" for j kv
  proof -
    have ll: "os_lookup kv = os_lookup k'" using os_lookup_cong [OF kv(1)] by blast
    have "argv_describes k' (argvs ! j) (g ! j)" using k'(3) j(1) by (simp add: list_all2_nthD2)
    moreover have "port_text kv = port_text k'" "voted_port_text kv = voted_port_text k'"
      unfolding port_text_def voted_port_text_def end_of_def ll by (rule refl)+
    then have "argv_describes kv = argv_describes k'" by (intro ext) (simp add: argv_describes_def)
    ultimately have "argv_describes kv (argvs ! j) (g ! j)" by simp
    moreover have "length (g_ports (g ! j)) \<le> PIPE_LIMIT" using k'(6) j(1) nth_mem by blast
    moreover from this have "card (open_fds kv) + 6 * length (g_ports (g ! j)) + 2 \<le> os_fd_max kv" using kv(3) by linarith
    moreover have "\<forall>p \<in> set (g_ports (g ! j)). port_ok (length (os_pipes kv)) p"
      using ports nth_mem [OF j(1)] kv(2) by (simp add: ports_ok_def)
    moreover have "0 \<in> open_fds kv" using 0 ll by (simp add: open_fds_def)
    ultimately show ?thesis using described_voter_starts [OF _ j(2) _ _ _ _ kv(4) assms(17)] by blast
  qed
  then show ?thesis using k'(1,2) list_all2_lengthD [OF k'(3)] by blast
qed

text \<open>A filter with three replicas between the input and the output.\<close>

definition tmr_cfg :: "config_line list" where
  "tmr_cfg =
     [(Some (Declare_Replicated ''phil'' ''Filter'' TMR ''400'' ''80''), None),
      (Some (Relate Bench_End ''RANGE_POSE_DATA'' (Voted ''phil'')), None),
      (Some (Relate (Voted ''phil'') ''MOV_CMD'' Bench_End), Some '' out'')]"

theorem configured_voters_start_witness:
  "\<exists>k' a kv v k2 v2. plumber_main (Some (render tmr_cfg)) plumber_argv ((demo_os [])\<lparr>os_forks := [101]\<rparr>) = Inr (k', 0) \<and>
    os_execs k' = [(101, a)] \<and> Voter.parseArgs a voter_globals = Some v \<and> v_name v = ''Filter'' \<and> v_rep_type v = TMR \<and>
    initVoterD (\<lambda>p s. True) True None 9 True True kv v = Some (k2, v2) \<and> voter_inv k2 v2"
proof -
  let ?k = "(demo_os [])\<lparr>os_forks := [101]\<rparr>"
  let ?d = "\<lparr>tp_type = RANGE_POSE_DATA, tp_in = 3, tp_out = 0\<rparr>" and ?c = "\<lparr>tp_type = MOV_CMD, tp_in = 0, tp_out = 4\<rparr>"
  have v: "list_all valid_line tmr_cfg"
    by (simp add: tmr_cfg_def valid_line_def var_name_def named_ob_def number_val_def char_class_defs)
  have a: "5 \<le> length plumber_argv" "deserializePipe (plumber_argv ! 3) = Some ?d" "deserializePipe (plumber_argv ! 4) = Some ?c"
    by (simp_all add: plumber_argv_def pipe_text_roundtrip)
  have k: "os_lookup ?k 0 = Some SocketEnd" "os_lookup ?k (tp_in ?d) = Some (ReadEnd 0)" "os_lookup ?k (tp_out ?c) = Some (WriteEnd 0)"
    "os_execs ?k = []" "length (os_pipes ?k) = 1" by (simp_all add: demo_os_def os_lookup_def)
  have r: "plumber_ready ?d ?c ?k" using k by (simp add: plumber_ready_def open_fds_def)
  let ?i = "Some (ReadEnd 0)" and ?ou = "Some (WriteEnd 0)"
  note steps = tmr_cfg_def statements_def List.map_filter_def declare_component_def new_component_def add_port_def commToEnum_def has_room_def
  have ok: "config_ok ?i ?ou (statements tmr_cfg) ([], length (os_pipes ?k))" unfolding k(5) by (simp add: steps)
  let ?g = "fst (graph_of ?i ?ou (statements tmr_cfg) ([], length (os_pipes ?k)))"
  have g: "length ?g = 1" "g_rep (?g ! 0) = TMR" "g_program (?g ! 0) = ''Filter''" unfolding k(5) by (simp_all add: graph_of_def steps)
  have room: "card (open_fds ?k) + 2 * sum_list (map new_pipes (statements tmr_cfg)) \<le> os_fd_max ?k"
    using card_open_fds_table [of ?k] by (simp add: tmr_cfg_def statements_def List.map_filter_def demo_os_def)
  have f: "length ?g \<le> length (os_forks ?k)" "\<forall>p \<in> set (os_forks ?k). 0 < p" using g(1) by simp_all
  have m: "forceMaps None \<noteq> None" by (simp add: forceMaps_def)
  from configured_voters_start [OF v a r k(2,3) [symmetric] refl refl _ _ ok room refl f m, of "\<lambda>p s. True" True 9 True True rat_fp] k(5)
  obtain k' argvs where k': "plumber_main (Some (render tmr_cfg)) plumber_argv ?k = Inr (k', 0)"
    "os_execs k' = os_execs ?k @ zip (take (length ?g) (os_forks ?k)) argvs" "length argvs = length ?g"
    "\<forall>j < length ?g. g_rep (?g ! j) \<in> {SMR, DMR, TMR} \<longrightarrow>
      (\<forall>kv. os_fd_table kv = os_fd_table k' \<and> length (os_pipes kv) = length (os_pipes k') \<and>
         card (open_fds kv) + 62 \<le> os_fd_max kv \<and> replies (os_peers kv) 3 \<longrightarrow>
         (\<exists>v k2 v2. Voter.parseArgs (argvs ! j) voter_globals = Some v \<and> v_name v = g_program (?g ! j) \<and>
            v_rep_type v = g_rep (?g ! j) \<and> initVoterD (\<lambda>p s. True) True None 9 True True kv v = Some (k2, v2) \<and> voter_inv k2 v2 \<and>
            (\<forall>k3 v3. voter_reaches rat_fp (k2, v2) (k3, v3) \<longrightarrow> voter_inv k3 v3)))" by auto
  let ?kv = "k'\<lparr>os_peers := replicate 3 (Peer True (int_bytes 77)), os_fd_max := card (open_fds k') + 62\<rparr>"
  have "open_fds ?kv = open_fds k'" by (simp add: open_fds_def os_lookup_def)
  then have kv: "os_fd_table ?kv = os_fd_table k' \<and> length (os_pipes ?kv) = length (os_pipes k') \<and>
      card (open_fds ?kv) + 62 \<le> os_fd_max ?kv \<and> replies (os_peers ?kv) 3" by (simp add: replies_def numeral_3_eq_3)
  have one: "0 < length ?g" unfolding g(1) by (rule zero_less_one)
  have "g_rep (?g ! 0) \<in> {SMR, DMR, TMR}" unfolding g(2) by blast
  from k'(4) [THEN spec, THEN mp, OF one, THEN mp, OF this, THEN spec, THEN mp, OF kv, unfolded g(2,3)]
  obtain v k2 v2 where "Voter.parseArgs (argvs ! 0) voter_globals = Some v" "v_name v = ''Filter''" "v_rep_type v = TMR"
    "initVoterD (\<lambda>p s. True) True None 9 True True ?kv v = Some (k2, v2)" "voter_inv k2 v2"
    by blast
  moreover have "os_execs k' = [(101, argvs ! 0)]" using k'(2,3) g(1) k(4) by (cases argvs) simp_all
  ultimately show ?thesis using k'(1) by blast
qed

end
