(* ===== verification/Voter_Restart.thy ===== *)
theory Voter_Restart imports Voter begin

text \<open>
  What a restart does to the input that the replicas have not read yet: \<open>stealPipes\<close> takes it from the
  healthy replica, \<open>returnPipes\<close> gives it to the replacement and back to the healthy one.
\<close>

section \<open>Stealing and returning\<close>

definition pending :: "os \<Rightarrow> replica \<Rightarrow> nat \<Rightarrow> byte list" where
  "pending k rep i = os_pipes k ! chan k rep i"

abbreviation stolen :: "byte list \<Rightarrow> byte list \<times> int" where
  "stolen bs \<equiv> (take 4096 bs, int (length (take 4096 bs)))"

text \<open>The first \<open>j\<close> input pipes have been read.\<close>

definition steal_inv :: "os \<Rightarrow> vote_pipe list \<Rightarrow> nat \<Rightarrow> replica \<Rightarrow> nat \<Rightarrow> os \<times> (byte list \<times> int) list \<Rightarrow> bool" where
  "steal_inv k ext pc rep j s \<longleftrightarrow> (case s of (k', bufs) \<Rightarrow>
     fds_kept k k' \<and> os_hup k' = os_hup k \<and> length bufs = PIPE_LIMIT \<and>
     (\<forall>i < pc. if fd_in (ext ! i) \<noteq> 0 \<and> i < j
        then bufs ! i = stolen (pending k rep i) \<and> os_pipes k' ! chan k rep i = drop 4096 (pending k rep i)
        else bufs ! i = ([], 0) \<and> os_pipes k' ! chan k rep i = pending k rep i))"

lemma steal_inv_step:
  assumes ok: "reps_ok k ext pc num reps" and r: "r < num" and j: "j < pc" and inv: "steal_inv k ext pc (reps ! r) j s"
    and ready: "ready = os_select k (filter (\<lambda>fd. fd \<noteq> 0) (map (\<lambda>i. r_in_copy (reps ! r) ! i) [0..<pc]))"
  shows "steal_inv k ext pc (reps ! r) (Suc j) (steal_step (reps ! r) ready j s)"
proof -
  let ?rep = "reps ! r" and ?c = "chan k (reps ! r)"
  obtain k1 bufs where s: "s = (k1, bufs)" by (cases s)
  have I: "fds_kept k k1" "os_hup k1 = os_hup k" "length bufs = PIPE_LIMIT"
    "\<And>i. i < pc \<Longrightarrow> if fd_in (ext ! i) \<noteq> 0 \<and> i < j then bufs ! i = stolen (pending k ?rep i) \<and> os_pipes k1 ! ?c i = drop 4096 (pending k ?rep i)
        else bufs ! i = ([], 0) \<and> os_pipes k1 ! ?c i = pending k ?rep i"
    using inv by (auto simp: steal_inv_def s)
  have jl: "j < PIPE_LIMIT" using ok j by (simp add: reps_ok_def)
  note w = reps_okD(1) [OF ok r j]
  have at: "bufs ! j = ([], 0)" "os_pipes k1 ! ?c j = pending k ?rep j" using I(4) [OF j] by simp_all
  have other: "?c i \<noteq> ?c j" if "i < pc" "i \<noteq> j" for i using chan_inj [OF ok r that(1) r j] that(2) by blast
  show ?thesis
  proof (cases "fd_in (ext ! j) \<noteq> 0 \<and> pending k ?rep j \<noteq> []")
    case True
    let ?k = "k1\<lparr>os_pipes := (os_pipes k1)[?c j := drop 4096 (pending k ?rep j)]\<rparr>"
    have f: "r_in_copy ?rep ! j \<noteq> 0" "os_lookup k (r_in_copy ?rep ! j) = Some (ReadEnd (?c j))" "?c j < length (os_pipes k)"
      using w True by (auto simp: wired_def Let_def)
    have "r_in_copy ?rep ! j \<in> set ready"
      using f True j by (auto simp: ready os_select_def os_readable_def pending_def)
    moreover have "os_read k1 (r_in_copy ?rep ! j) 4096 = (?k, Some (take 4096 (pending k ?rep j)))"
      using f I(1) at(2) True by (simp add: os_read_def fds_kept_def)
    ultimately have st: "steal_step ?rep ready j s = (?k, bufs[j := stolen (pending k ?rep j)])"
      by (simp add: steal_step_def s)
    have lt: "?c j < length (os_pipes k1)" using f(3) I(1) by (simp add: fds_kept_def)
    show ?thesis
      unfolding st steal_inv_def prod.case
    proof (intro conjI allI impI)
      fix i assume i: "i < pc"
      show "if fd_in (ext ! i) \<noteq> 0 \<and> i < Suc j
        then bufs[j := stolen (pending k ?rep j)] ! i = stolen (pending k ?rep i) \<and> os_pipes ?k ! ?c i = drop 4096 (pending k ?rep i)
        else bufs[j := stolen (pending k ?rep j)] ! i = ([], 0) \<and> os_pipes ?k ! ?c i = pending k ?rep i"
      proof (cases "i = j")
        case False
        then show ?thesis using I(4) [OF i] other [OF i False] by (simp add: less_Suc_eq)
      qed (use True jl I(3) lt in simp)
    qed (use I(1-3) in \<open>simp_all add: fds_kept_def\<close>)
  next
    case False
    have "steal_step ?rep ready j s = s"
    proof (cases "r_in_copy ?rep ! j \<in> set ready")
      case True
      then have nz: "fd_in (ext ! j) \<noteq> 0" using w by (auto simp: ready os_select_def wired_def Let_def split: if_splits)
      then have f: "os_lookup k (r_in_copy ?rep ! j) = Some (ReadEnd (?c j))" "?c j < length (os_pipes k)"
        using w by (auto simp: wired_def Let_def)
      have p: "pending k ?rep j = []" using False nz by simp
      then have "?c j \<in> set (os_hup k)"
        using True f by (auto simp: ready os_select_def os_readable_def pending_def)
      then have "os_read k1 (r_in_copy ?rep ! j) 4096 = (k1, Some [])"
        using f I(1,2) at(2) p by (simp add: os_read_def fds_kept_def)
      moreover have "bufs[j := ([], 0)] = bufs" using at(1) by (metis list_update_id)
      ultimately show ?thesis by (simp add: steal_step_def s)
    qed (simp add: steal_step_def s)
    moreover have "pending k ?rep j = []" if "fd_in (ext ! j) \<noteq> 0" using False that by simp
    ultimately show ?thesis
      using I at by (auto simp: steal_inv_def s less_Suc_eq)
  qed
qed

lemma stealPipes_takes:
  assumes "reps_ok k ext pc num reps" "r < num" "stealPipes k (reps ! r) = (k', bufs)"
  shows "steal_inv k ext pc (reps ! r) pc (k', bufs)"
proof -
  have pc: "r_pipe_count (reps ! r) = pc" "pc \<le> PIPE_LIMIT" using reps_okD(3) [OF assms(1,2)] assms(1) by (simp_all add: reps_ok_def)
  let ?ready = "os_select k (filter (\<lambda>fd. fd \<noteq> 0) (map (\<lambda>i. r_in_copy (reps ! r) ! i) [0..<pc]))"
  have "steal_inv k ext pc (reps ! r) pc (for_upto pc (steal_step (reps ! r) ?ready) (k, replicate PIPE_LIMIT ([], 0)))"
  proof (rule for_upto_indexed_invariant [where I = "steal_inv k ext pc (reps ! r)"])
    show "steal_inv k ext pc (reps ! r) 0 (k, replicate PIPE_LIMIT ([], 0))"
      using pc(2) by (simp add: steal_inv_def pending_def)
  qed (rule steal_inv_step [OF assms(1,2) _ _ refl])
  then show ?thesis using assms(3) pc(1) by (simp add: stealPipes_def Let_def)
qed

lemma returnPipes_gives:
  assumes ok: "reps_ok k ext pc num reps" and r: "r < num"
    and bufs: "\<forall>i < pc. snd (bufs ! i) = int (length (fst (bufs ! i)))" "\<forall>i < pc. fd_in (ext ! i) = 0 \<longrightarrow> fst (bufs ! i) = []"
    and i: "i < pc" "fd_in (ext ! i) \<noteq> 0"
  shows "os_pipes (returnPipes k (reps ! r) bufs) ! chan k (reps ! r) i = os_pipes k ! chan k (reps ! r) i @ fst (bufs ! i)"
proof -
  let ?rep = "reps ! r" and ?c = "chan k (reps ! r)"
  let ?body = "\<lambda>i k. if snd (bufs ! i) > 0 then writeBuffer k (fd_out (r_vot_pipes ?rep ! i)) (fst (bufs ! i)) (snd (bufs ! i)) else k"
  let ?I = "\<lambda>j t. fds_kept k t \<and> os_pipes t ! ?c i = os_pipes k ! ?c i @ (if i < j then fst (bufs ! i) else [])"
  have pc: "r_pipe_count ?rep = pc" using reps_okD(3) [OF ok r] .
  have "?I pc (for_upto pc ?body k)"
  proof (rule for_upto_indexed_invariant [where I = ?I])
    fix j t assume j: "j < pc" and t: "?I j t"
    have f: "fds_kept k (?body j t)" using t fds_kept_trans [OF _ fds_kept_write] by (simp add: writeBuffer_def)
    show "?I (Suc j) (?body j t)"
    proof (cases "snd (bufs ! j) > 0")
      case False
      then have "fst (bufs ! j) = []" using bufs(1) j by simp
      then show ?thesis using t f False by (cases "j = i") (auto simp: less_Suc_eq)
    next
      case True
      then have "fd_in (ext ! j) \<noteq> 0" using bufs j by auto
      then have w: "os_lookup t (fd_out (r_vot_pipes ?rep ! j)) = Some (WriteEnd (?c j))" "?c j < length (os_pipes t)"
        using reps_okD(1) [OF ok r j] t by (auto simp: wired_def fds_kept_def Let_def)
      show ?thesis
      proof (cases "j = i")
        case True
        then show ?thesis using w t f bufs(1) j os_write_same [OF w, of "snd (bufs ! j)" "fst (bufs ! j)"] \<open>snd (bufs ! j) > 0\<close>
          by (simp add: writeBuffer_def)
      next
        case False
        then have "?c j \<noteq> ?c i" using chan_inj [OF ok r j r i(1)] by blast
        then have "os_pipes (?body j t) ! ?c i = os_pipes t ! ?c i"
          using w(1) os_write_other [of t "fd_out (r_vot_pipes ?rep ! j)" "?c i"] by (simp add: writeBuffer_def)
        then show ?thesis using t f False by (auto simp: less_Suc_eq)
      qed
    qed
  qed simp
  then show ?thesis using i(1) by (simp add: returnPipes_def pc)
qed

text \<open>A pipe that no voter's end of the replica leads to is left alone.\<close>

lemma returnPipes_elsewhere:
  assumes "reps_ok k ext pc num reps" "r < num" "\<forall>q. os_lookup k 0 \<noteq> Some (WriteEnd q)"
    "\<forall>i < pc. q \<noteq> chan k (reps ! r) i"
  shows "os_pipes (returnPipes k (reps ! r) bufs) ! q = os_pipes k ! q"
proof (rule returnPipes_other, intro allI impI)
  fix i assume "i < r_pipe_count (reps ! r)"
  then have "i < pc" using reps_okD(3) [OF assms(1,2)] by simp
  then show "os_lookup k (fd_out (r_vot_pipes (reps ! r) ! i)) \<noteq> Some (WriteEnd q)"
    using reps_okD(1) [OF assms(1,2)] assms(3,4) by (force simp: wired_def Let_def split: if_splits)
qed

section \<open>Sending leaves the input alone\<close>

lemma copy_and_send_other:
  assumes R: "resync e v0 i (k, v)" and ix: "i < v_pipe_count v0" "r < v_rep_count v0" "e < v_rep_count v0" "r \<noteq> e"
    and q: "os_lookup k (fd_out (v_ext v ! i)) \<noteq> Some (WriteEnd q)" and run: "copy_and_send e r i (k, v) = (k', v')"
  shows "quiet k v k' v'" "v_ext v' = v_ext v" "os_pipes k' ! q = os_pipes k ! q"
proof -
  have w: "voter_wired k v" and c: "v_pipe_count v = v_pipe_count v0" "v_rep_count v = v_rep_count v0"
    using R by (auto simp: resync_def cfg_kept_def)
  note D = voter_wiredD [OF w, unfolded c]
  have i: "i < PIPE_LIMIT" using D(2) ix(1) by simp
  have "quiet k v k' v' \<and> v_ext v' = v_ext v \<and> os_pipes k' ! q = os_pipes k ! q"
  proof (cases "fd_in (vot (v_reps v) r i) = 0")
    case True
    then show ?thesis using run by (simp add: copy_and_send_def)
  next
    case False
    let ?v = "v\<lparr>v_reps := set_vot (v_reps v) e i (copyPipe (vot (v_reps v) e i) (vot (v_reps v) r i))\<rparr>"
    have run': "sendPipe k ?v i r = (k', v')" using run False by (simp add: copy_and_send_def Let_def)
    have w1: "voter_wired k ?v" "quiet k v k ?v" using copied_ring [OF w] ix(2,3) c i by simp_all
    note D1 = voter_wiredD [OF w1(1)]
    have a: "\<forall>j < v_rep_count ?v. \<forall>q < PIPE_LIMIT. wf_vp (vot (v_reps ?v) j q)"
      "\<forall>j < v_rep_count ?v. length (r_vot_pipes (v_reps ?v ! j)) = PIPE_LIMIT" "r < v_rep_count ?v"
      using D1(4,5) ix(2) c by auto
    then have "\<forall>j < v_rep_count ?v. wf_vp (vot (v_reps ?v) j i)" using i by blast
    note S = sendPipe_spec [OF this D1(1) a(3) run']
    have "os_pipes k' ! q = os_pipes k ! q" using S(3) q os_write_other by simp
    then show ?thesis
      using quiet_trans [OF w1(2) sendPipe_quiet(1) [OF a(1,2) D1(1) a(3) i run']] S(6) by simp
  qed
  then show "quiet k v k' v'" "v_ext v' = v_ext v" "os_pipes k' ! q = os_pipes k ! q" by blast+
qed

lemma copy_loop_other:
  assumes R: "resync e v0 0 (k0, v0)" and ix: "r < v_rep_count v0" "e < v_rep_count v0" "r \<noteq> e"
    and Q: "\<forall>q \<in> Q. \<forall>i < v_pipe_count v0. os_lookup k0 (fd_out (v_ext v0 ! i)) \<noteq> Some (WriteEnd q)"
    and run: "for_upto (v_pipe_count v0) (copy_and_send e r) (k0, v0) = (k', v')"
  shows "resync e v0 (v_pipe_count v0) (k', v')" "quiet k0 v0 k' v'" "v_ext v' = v_ext v0"
    "\<forall>q \<in> Q. os_pipes k' ! q = os_pipes k0 ! q"
proof -
  let ?I = "\<lambda>i s. resync e v0 i s \<and> (case s of (k, v) \<Rightarrow> quiet k0 v0 k v \<and> v_ext v = v_ext v0 \<and> (\<forall>q \<in> Q. os_pipes k ! q = os_pipes k0 ! q))"
  have "?I (v_pipe_count v0) (k', v')"
    unfolding run [symmetric]
  proof (rule for_upto_indexed_invariant [where I = ?I])
    show "?I 0 (k0, v0)" using R by simp
    fix i s assume i: "i < v_pipe_count v0" and s: "?I i s"
    obtain k v where kv: "s = (k, v)" by (cases s)
    obtain k2 v2 where st: "copy_and_send e r i (k, v) = (k2, v2)" by fastforce
    have I: "resync e v0 i (k, v)" "quiet k0 v0 k v" "v_ext v = v_ext v0" "\<forall>q \<in> Q. os_pipes k ! q = os_pipes k0 ! q"
      using s kv by simp_all
    have nq: "\<forall>q \<in> Q. os_lookup k (fd_out (v_ext v ! i)) \<noteq> Some (WriteEnd q)"
      using Q i I(2,3) by (simp add: quiet_def fds_kept_def)
    have O: "quiet k v k2 v2 \<and> v_ext v2 = v_ext v"
    proof -
      obtain q where "os_lookup k (fd_out (v_ext v ! i)) \<noteq> Some (WriteEnd q)"
        by (cases "os_lookup k (fd_out (v_ext v ! i)) = Some (WriteEnd 0)") force+
      from copy_and_send_other(1,2) [OF I(1) i ix this st] show ?thesis by simp
    qed
    have "\<forall>q \<in> Q. os_pipes k2 ! q = os_pipes k ! q"
      using copy_and_send_other(3) [OF I(1) i ix _ st] nq by blast
    then show "?I (Suc i) (copy_and_send e r i s)"
      using copy_and_send_step [OF I(1) i ix] O I(2-4) quiet_trans [OF I(2)] unfolding kv st by simp
  qed
  then show "resync e v0 (v_pipe_count v0) (k', v')" "quiet k0 v0 k' v'" "v_ext v' = v_ext v0"
    "\<forall>q \<in> Q. os_pipes k' ! q = os_pipes k0 ! q" by simp_all
qed

section \<open>A restart\<close>

lemma ext_out_not_chan:
  assumes "voter_inv k v" "i < v_pipe_count v" "\<forall>q. os_lookup k 0 \<noteq> Some (WriteEnd q)"
    "(\<exists>r < v_rep_count v. \<exists>p < v_pipe_count v. q = chan k (v_reps v ! r) p) \<or> length (os_pipes k) \<le> q"
  shows "os_lookup k (fd_out (v_ext v ! i)) \<noteq> Some (WriteEnd q)"
proof (cases "fd_out (v_ext v ! i) = 0")
  case False
  then have "fd_out (v_ext v ! i) \<in> {fd_in (v_ext v ! i), fd_out (v_ext v ! i)} - {0}" by simp
  moreover have "ext_apart k (v_ext v) (v_pipe_count v) (v_rep_count v) (v_reps v)" using assms(1) by (simp add: voter_inv_def)
  ultimately obtain q' where "q' < length (os_pipes k)" "\<forall>r < v_rep_count v. \<forall>i < v_pipe_count v. q' \<noteq> chan k (v_reps v ! r) i"
    "os_lookup k (fd_out (v_ext v ! i)) = Some (ReadEnd q') \<or> os_lookup k (fd_out (v_ext v ! i)) = Some (WriteEnd q')"
    using assms(2) unfolding ext_apart_def by blast
  then show ?thesis using assms(4) by auto
qed (use assms(3) in simp)

lemma restart_prep_input:
  assumes inv: "voter_inv k v" and ix: "e < v_rep_count v" "r < v_rep_count v" "r \<noteq> e"
    and z: "\<forall>q. os_lookup k 0 \<noteq> Some (WriteEnd q)" and run: "restart_prep k v e r = (k', v')"
    and i: "i < v_pipe_count v" "fd_in (v_ext v ! i) \<noteq> 0"
  shows "chan k' (v_reps v' ! r) i = chan k (v_reps v ! r) i"
    "pending k' (v_reps v' ! r) i = drop 4096 (pending k (v_reps v ! r) i) @ take 4096 (pending k (v_reps v ! r) i)"
    "pending k' (v_reps v' ! e) i = take 4096 (pending k (v_reps v ! r) i)"
proof -
  let ?n = "v_rep_count v" and ?pc = "v_pipe_count v" and ?ext = "v_ext v"
  let ?c = "chan k (v_reps v ! r) i" and ?D = "pending k (v_reps v ! r) i"
  have ok: "reps_ok k ?ext ?pc ?n (v_reps v)" using inv by (simp add: voter_inv_def)
  have cl: "?c < length (os_pipes k)" using reps_okD(1) [OF ok ix(2) i(1)] by (simp add: wired_def)
  obtain k1 bufs where s1: "stealPipes k (v_reps v ! r) = (k1, bufs)" by fastforce
  have T: "steal_inv k ?ext ?pc (v_reps v ! r) ?pc (k1, bufs)" using stealPipes_takes [OF ok ix(2) s1] .
  have f1: "fds_kept k k1" and p1: "os_pipes k1 ! ?c = drop 4096 ?D" and b: "bufs ! i = stolen ?D"
    and bs: "\<forall>j < ?pc. snd (bufs ! j) = int (length (fst (bufs ! j)))" "\<forall>j < ?pc. fd_in (?ext ! j) = 0 \<longrightarrow> fst (bufs ! j) = []"
    using T i by (auto simp: steal_inv_def split: if_splits)
  let ?v = "v\<lparr>v_timer_started := False\<rparr>"
  have inv1: "voter_inv k1 ?v" using voter_inv_fds [OF inv f1] by simp
  obtain k2 reps where s2: "restartReplica k1 (v_reps v) ?n (v_sd v) ?ext r e (v_rep_priority v) = (k2, reps)" by fastforce
  let ?v2 = "?v\<lparr>v_reps := reps\<rparr>"
  have R: "resync e ?v 0 (k2, ?v2)" and B: "rebuilt ?ext ?pc ?n e k1 (v_reps v) k2 reps"
    using restart_resync [OF inv1, of e r "v_sd v" "v_rep_priority v" k2 reps] ix s2 by simp_all
  have R2: "resync e ?v2 0 (k2, ?v2)" using R by (simp add: resync_def cfg_kept_def)
  have ce: "chan k2 (reps ! e) i = length (os_pipes k) + i" using B i(1) f1 by (simp add: rebuilt_def fds_kept_def)
  have p2: "os_pipes k2 ! ?c = drop 4096 ?D" "os_pipes k2 ! (length (os_pipes k) + i) = []"
    using B i(1) f1 p1 cl by (simp_all add: rebuilt_def fds_kept_def nth_append)
  have ext: "os_lookup k2 (fd_out (?ext ! j)) \<noteq> Some (WriteEnd q)" if "j < ?pc" "q \<in> {?c, length (os_pipes k) + i}" for j q
    using ext_out_not_chan [OF inv that(1) z, of q] ext_fd_kept [OF inv1, of e j k2 reps "fd_out (?ext ! j)"] B that ix i(1) f1
    by (auto simp: fds_kept_def)
  obtain k3 v3 where s3: "for_upto ?pc (copy_and_send e r) (k2, ?v2) = (k3, v3)" by fastforce
  have "resync e ?v2 ?pc (k3, v3)" and q3: "quiet k2 ?v2 k3 v3" and x3: "v_ext v3 = ?ext"
    and p3: "\<forall>q \<in> {?c, length (os_pipes k) + i}. os_pipes k3 ! q = os_pipes k2 ! q"
    using copy_loop_other [OF R2, of r "{?c, length (os_pipes k) + i}" k3 v3] ext ix s3 by auto
  then have inv3: "voter_inv k3 v3" using resync_done(1) [of e ?v2] by simp
  have c3: "v_rep_count v3 = ?n" "v_pipe_count v3 = ?pc" using q3 by (simp_all add: quiet_def cfg_kept_def)
  have ok3: "reps_ok k3 ?ext ?pc ?n (v_reps v3)" using inv3 c3 x3 by (simp add: voter_inv_def)
  have w2: "reps_ok k2 ?ext ?pc ?n reps" using B by (simp add: rebuilt_def)
  have "chan k3 (v_reps v3 ! j) i = chan k2 (reps ! j) i" if "j < ?n" for j
  proof -
    have "same_ends (vot (v_reps v3) j i) (vot reps j i)"
      using q3 reps_okD(2) [OF w2 that] i(1) voter_invD(2) [OF inv] that by (simp add: quiet_def ends_kept_def rep_shape_def)
    then show ?thesis using q3 by (simp add: chan_def quiet_def fds_kept_def same_ends_def Let_def)
  qed
  moreover have "chan k2 (reps ! r) i = ?c"
  proof -
    have f: "os_lookup k2 (fd_out (vot (v_reps v) r i)) = os_lookup k1 (fd_out (vot (v_reps v) r i))"
    proof -
      have "fd_out (vot (v_reps v) r i) \<in> pipe_ends (v_reps v ! r) i" "fd_out (vot (v_reps v) r i) \<in> open_fds k"
        using reps_okD(1) [OF ok ix(2) i(1)] i(2) by (auto simp: wired_def pipe_ends_def open_fds_def Let_def)
      moreover have "fd_out (vot (v_reps v) r i) \<notin> rep_fds (v_reps v ! e)"
        using rep_fds_owner [OF ok ix(1), of "fd_out (vot (v_reps v) r i)"] pipe_ends_disjoint [OF ok ix(2) i(1) ix(1)] calculation(1) ix(3) by blast
      ultimately show ?thesis using B f1 by (simp add: rebuilt_def open_fds_def fds_kept_def)
    qed
    have "vot reps r i = vot (v_reps v) r i" using B ix by (simp add: rebuilt_def same_pipes_def)
    moreover have "fd_in (vot (v_reps v) r i) = 0" "os_lookup k (fd_out (vot (v_reps v) r i)) = Some (WriteEnd ?c)"
      using reps_okD(1) [OF ok ix(2) i(1)] i(2) by (simp_all add: wired_def Let_def)
    ultimately show ?thesis using f f1 unfolding chan_def [of k2] by (simp add: fds_kept_def)
  qed
  ultimately have cr: "chan k3 (v_reps v3 ! r) i = ?c" "chan k3 (v_reps v3 ! e) i = length (os_pipes k) + i" using ix ce by simp_all
  let ?k4 = "returnPipes k3 (v_reps v3 ! e) bufs"
  have pc: "r_pipe_count (reps ! r) = ?pc" using reps_okD(3) [OF w2 ix(2)] .
  have k': "k' = returnPipes ?k4 (v_reps v3 ! r) bufs" "v' = v3"
    using run s1 s2 s3 pc by (auto simp: restart_prep_def Let_def)
  have f4: "fds_kept k3 ?k4" "fds_kept ?k4 k'" using returnPipes_fds k'(1) by simp_all
  have l0: "os_lookup k3 0 = os_lookup k 0" "os_lookup ?k4 0 = os_lookup k 0"
    using ext_fd_kept [OF inv1, of e i k2 reps 0] ix i(1) B f1 q3 f4 by (simp_all add: quiet_def fds_kept_def)
  have ok4: "reps_ok ?k4 ?ext ?pc ?n (v_reps v3)" and ch4: "chan ?k4 (v_reps v3 ! j) p = chan k3 (v_reps v3 ! j) p" for j p
    using reps_ok_kept(1) [OF ok3 f4(1) refl] reps_okD(2) [OF ok3] f4(1) by (auto simp: rep_shape_def fds_kept_def chan_def)
  have ch': "chan k' (v_reps v3 ! j) p = chan k3 (v_reps v3 ! j) p" for j p
    using f4 by (simp add: fds_kept_def chan_def)
  show "chan k' (v_reps v' ! r) i = ?c" using ch' cr(1) k'(2) by simp
  have ne: "\<forall>j < ?pc. ?c \<noteq> chan k3 (v_reps v3 ! e) j" "\<forall>j < ?pc. length (os_pipes k) + i \<noteq> chan ?k4 (v_reps v3 ! r) j"
    using chan_inj [OF ok3 ix(2) i(1) ix(1)] chan_inj [OF ok3 ix(1) i(1) ix(2)] ix(3)
    unfolding ch4 cr(1) [symmetric] cr(2) [symmetric] by blast+
  have "os_pipes ?k4 ! ?c = drop 4096 ?D"
    using returnPipes_elsewhere [OF ok3 ix(1) _ ne(1)] z l0 p2(1) p3 by simp
  then show "pending k' (v_reps v' ! r) i = drop 4096 ?D @ take 4096 ?D"
    using returnPipes_gives [OF ok4 ix(2) bs i] ch' ch4 cr(1) k' b by (simp add: pending_def)
  have "os_pipes ?k4 ! (length (os_pipes k) + i) = take 4096 ?D"
    using returnPipes_gives [OF ok3 ix(1) bs i] cr(2) p2(2) p3 b by simp
  then show "pending k' (v_reps v' ! e) i = take 4096 ?D"
    using returnPipes_elsewhere [OF ok4 ix(2) _ ne(2)] z l0 ch' cr(2) k' by (simp add: pending_def)
qed

text \<open>
  (C6) A restart keeps the input. What the healthy replica has not read yet of an input pipe, up to a
  full buffer of 4096 bytes, is in its pipe again after the restart of another replica, and the
  replacement finds a copy in its own; so both go on with the same input. Of a longer input the first
  4096 bytes come back behind the rest, and the replacement gets only those.
\<close>

theorem restart_keeps_input:
  assumes "voter_inv k v" "e < v_rep_count v" "r < v_rep_count v" "r \<noteq> e" "\<forall>q. os_lookup k 0 \<noteq> Some (WriteEnd q)"
    "restart_prep k v e r = (k', v')" "i < v_pipe_count v" "fd_in (v_ext v ! i) \<noteq> 0"
  shows "(length (pending k (v_reps v ! r) i) \<le> 4096 \<longrightarrow>
       pending k' (v_reps v' ! r) i = pending k (v_reps v ! r) i \<and> pending k' (v_reps v' ! e) i = pending k (v_reps v ! r) i) \<and>
    pending k' (v_reps v' ! r) i = drop 4096 (pending k (v_reps v ! r) i) @ take 4096 (pending k (v_reps v ! r) i) \<and>
    pending k' (v_reps v' ! e) i = take 4096 (pending k (v_reps v ! r) i)"
  using restart_prep_input(2,3) [OF assms] by simp

text \<open>Replica 0 replaces replica 2 while three bytes wait for it.\<close>

theorem restart_keeps_input_witness:
  "\<exists>k' v'. restart_prep (demo_kernel [[], [], [5, 6, 7], [], [], [], [], []]) demo_voter 2 0 = (k', v') \<and>
    pending k' (v_reps v' ! 0) 0 = [5, 6, 7] \<and> pending k' (v_reps v' ! 2) 0 = [5, 6, 7]"
proof -
  let ?k = "demo_kernel [[], [], [5, 6, 7], [], [], [], [], []]"
  obtain k' v' where run: "restart_prep ?k demo_voter 2 0 = (k', v')" by fastforce
  have "voter_inv ?k demo_voter" by (simp add: demo_voter_inv)
  moreover have "\<forall>q. os_lookup ?k 0 \<noteq> Some (WriteEnd q)" by (simp add: demo_lookup)
  moreover have "chan ?k (v_reps demo_voter ! 0) 0 = 2"
    by (simp add: chan_def demo_voter_def demo_rep_def demo_lookup)
  then have "pending ?k (v_reps demo_voter ! 0) 0 = [5, 6, 7]" by (simp add: pending_def demo_kernel_def)
  ultimately show ?thesis
    using restart_keeps_input [OF _ _ _ _ _ run, of 0] run by (simp add: demo_voter_def)
qed

end
