(* ===== verification/Voter_Blocking.thy ===== *)
theory Voter_Blocking imports Voter_Restart begin

text \<open>
  The voter asks \<open>select\<close> once per update and then reads every descriptor that was ready. When a vote
  replaces a replica in between, the replacement's pipes get the descriptors of the old ones, and the old
  answer of \<open>select\<close> is applied to them.
\<close>

section \<open>Descriptors in a row\<close>

text \<open>
  The layout of a replica whose pipes were created with no free descriptor below \<open>b\<close> and none in use from \<open>b\<close>
  on: two descriptors for each pipe, the read end first.
\<close>

definition laid_out :: "vote_pipe list \<Rightarrow> nat \<Rightarrow> nat \<Rightarrow> replica \<Rightarrow> bool" where
  "laid_out ext b pc rep \<longleftrightarrow> (\<forall>p < pc. let v = r_vot_pipes rep ! p; r = r_rep_pipes rep ! p in
     if fd_in (ext ! p) \<noteq> 0 then fd_in r = int (b + 2 * p) \<and> fd_out v = int (b + 2 * p) + 1
     else fd_in v = int (b + 2 * p) \<and> fd_out r = int (b + 2 * p) + 1)"

definition created_in_row :: "vote_pipe list \<Rightarrow> os \<Rightarrow> replica \<Rightarrow> nat \<Rightarrow> nat \<Rightarrow> nat \<Rightarrow> os \<times> replica \<Rightarrow> bool" where
  "created_in_row ext k0 rep0 b pc j s \<longleftrightarrow> created ext k0 rep0 j s \<and> laid_out ext b j (snd s) \<and>
     (\<forall>g. 0 \<le> g \<and> g < int (b + 2 * j) \<longrightarrow> os_lookup (fst s) g \<noteq> None) \<and>
     (\<forall>g. int (b + 2 * j) \<le> g \<and> g < int (b + 2 * pc) \<longrightarrow> os_lookup (fst s) g = None)"

lemma laid_out_wire:
  assumes "rep_shape rep" "j < PIPE_LIMIT" "laid_out ext b j rep"
  shows "laid_out ext b (Suc j) (wire_pipe rep j (ext ! j) (int (b + 2 * j)) (int (b + 2 * j) + 1))"
proof -
  let ?w = "wire_pipe rep j (ext ! j) (int (b + 2 * j)) (int (b + 2 * j) + 1)"
  have "let v = r_vot_pipes ?w ! j; r = r_rep_pipes ?w ! j in
     if fd_in (ext ! j) \<noteq> 0 then fd_in r = int (b + 2 * j) \<and> fd_out v = int (b + 2 * j) + 1
     else fd_in v = int (b + 2 * j) \<and> fd_out r = int (b + 2 * j) + 1"
    using assms(1,2) by (simp add: wire_pipe_def Let_def wf_simps)
  then show ?thesis using assms(3) wire_pipe_other [of _ j rep "ext ! j"] by (simp add: laid_out_def less_Suc_eq)
qed

lemma createPipe_in_row:
  assumes C: "created_in_row ext k0 rep0 b pc j s" and j: "j < pc" "pc \<le> PIPE_LIMIT"
    and room: "card (open_fds k0) + 2 * pc \<le> os_fd_max k0" "0 \<in> open_fds k0"
  shows "created_in_row ext k0 rep0 b pc (Suc j) (createPipe ext j s)"
proof -
  obtain k rep where s: "s = (k, rep)" by (cases s)
  have I: "created ext k0 rep0 j (k, rep)" "laid_out ext b j rep"
    "\<And>g. 0 \<le> g \<Longrightarrow> g < int (b + 2 * j) \<Longrightarrow> os_lookup k g \<noteq> None"
    "\<And>g. int (b + 2 * j) \<le> g \<Longrightarrow> g < int (b + 2 * pc) \<Longrightarrow> os_lookup k g = None"
    using C by (simp_all add: created_in_row_def s)
  have R: "rep_shape rep" "os_fd_max k = os_fd_max k0" "open_fds k0 \<subseteq> open_fds k" "card (open_fds k) = card (open_fds k0) + 2 * j"
    using I(1) by (simp_all add: created_def)
  have "card (open_fds k) + 2 \<le> os_fd_max k" "os_lookup k 0 \<noteq> None" using R(2-4) room j(1) by (auto simp: open_fds_def)
  then obtain k' r w where p: "os_pipe k = (k', Some (r, w))" by (rule os_pipe_room)
  have free: "os_lookup k (int (b + 2 * j)) = None" "os_lookup k (int (b + 2 * j) + 1) = None" using I(4) j(1) by simp_all
  note P = os_pipe_lowest [OF p I(3) free]
  have st: "createPipe ext j s = (k', wire_pipe rep j (ext ! j) (int (b + 2 * j)) (int (b + 2 * j) + 1))"
    using p P(1,2) by (simp add: createPipe_def s)
  have "created ext k0 rep0 (Suc j) (createPipe ext j s)"
    using createPipe_step [OF I(1)] j room unfolding s by simp
  moreover have "laid_out ext b (Suc j) (snd (createPipe ext j s))"
    using laid_out_wire [OF R(1) _ I(2)] j unfolding st by simp
  moreover have "os_lookup k' g \<noteq> None" if "0 \<le> g" "g < int (b + 2 * Suc j)" for g
    using P(3) [of g] I(3) [OF that(1)] that(2) by auto
  moreover have "os_lookup k' g = None" if "int (b + 2 * Suc j) \<le> g" "g < int (b + 2 * pc)" for g
    using P(3) [of g] I(4) [of g] that by auto
  ultimately show ?thesis unfolding created_in_row_def st by simp
qed

lemma createPipes_in_row:
  assumes "rep_shape rep" "r_pipe_count rep = 0" "pc \<le> PIPE_LIMIT" "card (open_fds k) + 2 * pc \<le> os_fd_max k" "0 \<in> open_fds k"
    "\<And>g. 0 \<le> g \<Longrightarrow> g < int b \<Longrightarrow> os_lookup k g \<noteq> None" "\<And>g. int b \<le> g \<Longrightarrow> g < int (b + 2 * pc) \<Longrightarrow> os_lookup k g = None"
  shows "laid_out ext b pc (snd (for_upto pc (createPipe ext) (k, rep)))"
proof -
  have "created_in_row ext k rep b pc pc (for_upto pc (createPipe ext) (k, rep))"
  proof (rule for_upto_indexed_invariant [where I = "created_in_row ext k rep b pc"])
    show "created_in_row ext k rep b pc 0 (k, rep)"
      using assms(1,2,6,7) by (simp add: created_in_row_def created_def rings_kept_def laid_out_def)
  qed (rule createPipe_in_row, use assms in simp_all)
  then show ?thesis by (simp add: created_in_row_def)
qed

text \<open>The descriptors of a replica that is laid out are the numbers from \<open>b\<close> on.\<close>

lemma laid_out_fds:
  assumes "reps_ok k ext pc num reps" "e < num" "laid_out ext b pc (reps ! e)"
  shows "f \<in> rep_fds (reps ! e) \<longleftrightarrow> int b \<le> f \<and> f < int (b + 2 * pc)"
proof -
  have ends: "pipe_ends (reps ! e) p = {int (b + 2 * p), int (b + 2 * p) + 1}" if "p < pc" for p
    using reps_okD(1) [OF assms(1,2) that] assms(3) that
    by (auto simp: wired_def laid_out_def pipe_ends_def Let_def split: if_splits)
  have pc: "r_pipe_count (reps ! e) = pc" using reps_okD(3) [OF assms(1,2)] .
  show ?thesis
  proof
    assume "f \<in> rep_fds (reps ! e)"
    then obtain p where "p < pc" "f \<in> {int (b + 2 * p), int (b + 2 * p) + 1}" using ends pc by (auto simp: rep_fds_def)
    then show "int b \<le> f \<and> f < int (b + 2 * pc)" by auto
  next
    assume f: "int b \<le> f \<and> f < int (b + 2 * pc)"
    define m where "m = nat (f - int b)"
    have m: "f = int (b + m)" "m < pc * 2" using f by (simp_all add: m_def) linarith
    have d: "m div 2 < pc" using less_mult_imp_div_less [OF m(2)] .
    have "f = int (b + 2 * (m div 2)) \<or> f = int (b + 2 * (m div 2)) + 1" using m(1) by presburger
    then have "f \<in> pipe_ends (reps ! e) (m div 2)" unfolding ends [OF d] by blast
    then show "f \<in> rep_fds (reps ! e)" using d pc by (auto simp: rep_fds_def)
  qed
qed

lemma laid_out_same_pipes: "same_pipes a b \<Longrightarrow> laid_out ext n pc b = laid_out ext n pc a"
  by (simp add: laid_out_def same_pipes_def)

text \<open>The replacement gets the descriptors of the old replica, pipe by pipe.\<close>

lemma restartReplica_in_row:
  assumes ok: "reps_ok k ext pc num reps" and e: "e < num" "r < num" "r \<noteq> e"
    and row: "laid_out ext b pc (reps ! e)" and dense: "\<And>g. 0 \<le> g \<Longrightarrow> g < int b \<Longrightarrow> g \<in> open_fds k"
    and run: "restartReplica k reps num sd ext r e prio = (k', reps')"
  shows "laid_out ext b pc (reps' ! e)"
proof -
  obtain k4 rep4 k5 rep5 where
    l4: "\<And>g. os_lookup k4 g = (if g \<in> rep_fds (reps ! e) then None else os_lookup k g)" "pipes_kept k k4" and
    r4: "rep_shape rep4" "r_pipe_count rep4 = 0" and loop: "for_upto pc (createPipe ext) (k4, rep4) = (k5, rep5)" and
    sp: "same_pipes rep5 (reps' ! e)"
    by (rule restartReplica_stages [OF ok e run]) blast
  note F = laid_out_fds [OF ok e(1) row]
  have op: "open_fds k4 = open_fds k - rep_fds (reps ! e)" using l4(1) by (auto simp: open_fds_def)
  have sub: "rep_fds (reps ! e) \<subseteq> open_fds k" "card (rep_fds (reps ! e)) = 2 * pc" using card_rep_fds [OF ok e(1)] by simp_all
  have "card (open_fds k4) + 2 * pc = card (open_fds k)"
    using sub card_mono [OF finite_open_fds sub(1)] unfolding op by (simp add: card_Diff_subset finite_subset [OF sub(1)])
  then have room: "card (open_fds k4) + 2 * pc \<le> os_fd_max k4" using ok l4(2) by (simp add: reps_ok_def pipes_kept_def)
  have "0 \<in> open_fds k4" using ok rep_fds_owner [OF ok e(1), of 0] unfolding op by (auto simp: reps_ok_def)
  moreover have "os_lookup k4 g \<noteq> None" if "0 \<le> g" "g < int b" for g
    using dense [OF that] F [of g] that l4(1) by (simp add: open_fds_def)
  moreover have "os_lookup k4 g = None" if "int b \<le> g" "g < int (b + 2 * pc)" for g using F [of g] that l4(1) by simp
  moreover have "pc \<le> PIPE_LIMIT" using ok by (simp add: reps_ok_def)
  ultimately have "laid_out ext b pc rep5"
    using createPipes_in_row [OF r4 _ room, of b ext] loop by simp
  then show ?thesis using laid_out_same_pipes [OF sp] by simp
qed

section \<open>The replacement's output\<close>

text \<open>
  After the whole restart the replacement's output pipes are empty: what goes to a replica goes to its input
  pipes.
\<close>

lemma returnPipes_output:
  assumes "reps_ok k ext pc num reps" "r < num" "\<forall>q. os_lookup k 0 \<noteq> Some (WriteEnd q)" "p < pc" "fd_in (ext ! p) = 0"
    "e < num" "q = chan k (reps ! e) p"
  shows "os_pipes (returnPipes k (reps ! r) bufs) ! q = os_pipes k ! q"
proof (rule returnPipes_other, intro allI impI)
  fix i assume "i < r_pipe_count (reps ! r)"
  then have i: "i < pc" using reps_okD(3) [OF assms(1,2)] by simp
  have "chan k (reps ! r) i \<noteq> q" if "fd_in (ext ! i) \<noteq> 0"
    using chan_inj [OF assms(1,2) i assms(6,4)] that assms(5,7) by auto
  then show "os_lookup k (fd_out (r_vot_pipes (reps ! r) ! i)) \<noteq> Some (WriteEnd q)"
    using reps_okD(1) [OF assms(1,2) i] assms(3) by (cases "fd_in (ext ! i) = 0") (auto simp: wired_def Let_def)
qed

lemma restart_prep_output:
  assumes inv: "voter_inv k v" and ix: "e < v_rep_count v" "r < v_rep_count v" "r \<noteq> e"
    and z: "\<forall>q. os_lookup k 0 \<noteq> Some (WriteEnd q)" and run: "restart_prep k v e r = (k', v')"
    and i: "i < v_pipe_count v" "fd_in (v_ext v ! i) = 0"
    and row: "laid_out (v_ext v) b (v_pipe_count v) (v_reps v ! e)" "\<And>g. 0 \<le> g \<Longrightarrow> g < int b \<Longrightarrow> g \<in> open_fds k"
  shows "fd_in (vot (v_reps v') e i) = fd_in (vot (v_reps v) e i)"
    "chan k' (v_reps v' ! e) i = length (os_pipes k) + i" "os_pipes k' ! (length (os_pipes k) + i) = []"
proof -
  let ?n = "v_rep_count v" and ?pc = "v_pipe_count v" and ?ext = "v_ext v" and ?q = "length (os_pipes k) + i"
  obtain k1 bufs where s1: "stealPipes k (v_reps v ! r) = (k1, bufs)" by fastforce
  have f1: "fds_kept k k1" using stealPipes_fds [OF s1] .
  let ?v = "v\<lparr>v_timer_started := False\<rparr>"
  have inv1: "voter_inv k1 ?v" using voter_inv_fds [OF inv f1] by simp
  then have ok1: "reps_ok k1 ?ext ?pc ?n (v_reps v)" by (simp add: voter_inv_def)
  obtain k2 reps where s2: "restartReplica k1 (v_reps v) ?n (v_sd v) ?ext r e (v_rep_priority v) = (k2, reps)" by fastforce
  let ?v2 = "?v\<lparr>v_reps := reps\<rparr>"
  have R: "resync e ?v 0 (k2, ?v2)" and B: "rebuilt ?ext ?pc ?n e k1 (v_reps v) k2 reps"
    using restart_resync [OF inv1, of e r "v_sd v" "v_rep_priority v" k2 reps] ix s2 by simp_all
  have R2: "resync e ?v2 0 (k2, ?v2)" using R by (simp add: resync_def cfg_kept_def)
  have ce: "chan k2 (reps ! e) i = ?q" and p2: "os_pipes k2 ! ?q = []"
    using B i(1) f1 by (simp_all add: rebuilt_def fds_kept_def nth_append)
  have ext: "os_lookup k2 (fd_out (?ext ! j)) \<noteq> Some (WriteEnd ?q)" if "j < ?pc" for j
    using ext_out_not_chan [OF inv that z, of ?q] ext_fd_kept [OF inv1, of e j k2 reps "fd_out (?ext ! j)"] B that ix f1
    by (auto simp: fds_kept_def)
  obtain k3 v3 where s3: "for_upto ?pc (copy_and_send e r) (k2, ?v2) = (k3, v3)" by fastforce
  have "resync e ?v2 ?pc (k3, v3)" and q3: "quiet k2 ?v2 k3 v3" and x3: "v_ext v3 = ?ext" and p3: "os_pipes k3 ! ?q = os_pipes k2 ! ?q"
    using copy_loop_other [OF R2, of r "{?q}" k3 v3] ext ix s3 by auto
  then have inv3: "voter_inv k3 v3" using resync_done(1) [of e ?v2] by simp
  have c3: "v_rep_count v3 = ?n" "v_pipe_count v3 = ?pc" using q3 by (simp_all add: quiet_def cfg_kept_def)
  have ok3: "reps_ok k3 ?ext ?pc ?n (v_reps v3)" using inv3 c3 x3 by (simp add: voter_inv_def)
  have w2: "reps_ok k2 ?ext ?pc ?n reps" using B by (simp add: rebuilt_def)
  have se: "same_ends (vot (v_reps v3) e i) (vot reps e i)"
    using q3 reps_okD(2) [OF w2 ix(1)] i(1) voter_invD(2) [OF inv] ix(1) by (simp add: quiet_def ends_kept_def rep_shape_def)
  then have ends: "fd_in (vot (v_reps v3) e i) = fd_in (vot reps e i)" "fd_out (vot (v_reps v3) e i) = fd_out (vot reps e i)"
    by (simp_all add: same_ends_def)
  have lk: "os_lookup k3 f = os_lookup k2 f" for f using q3 by (simp add: quiet_def fds_kept_def)
  have c3e: "chan k3 (v_reps v3 ! e) i = ?q" using ce unfolding chan_def Let_def ends lk .
  let ?k4 = "returnPipes k3 (v_reps v3 ! e) bufs"
  have pc: "r_pipe_count (reps ! r) = ?pc" using reps_okD(3) [OF w2 ix(2)] .
  have k': "k' = returnPipes ?k4 (v_reps v3 ! r) bufs" "v' = v3"
    using run s1 s2 s3 pc by (auto simp: restart_prep_def Let_def)
  have f4: "fds_kept k3 ?k4" "fds_kept ?k4 k'" using returnPipes_fds k'(1) by simp_all
  have l0: "os_lookup k3 0 = os_lookup k 0" "os_lookup ?k4 0 = os_lookup k 0"
    using ext_fd_kept [OF inv1, of e i k2 reps 0] ix i(1) B f1 q3 f4 by (simp_all add: quiet_def fds_kept_def)
  have ok4: "reps_ok ?k4 ?ext ?pc ?n (v_reps v3)" and ch4: "chan ?k4 (v_reps v3 ! e) i = ?q"
    using reps_ok_kept(1) [OF ok3 f4(1) refl] reps_okD(2) [OF ok3] f4(1) c3e by (auto simp: rep_shape_def fds_kept_def chan_def)
  show "chan k' (v_reps v' ! e) i = ?q" using f4(2) ch4 k'(2) by (simp add: fds_kept_def chan_def)
  have "os_pipes ?k4 ! ?q = []"
    using returnPipes_output [OF ok3 ix(1) _ i ix(1) c3e [symmetric]] z l0(1) p2 p3 by simp
  then show "os_pipes k' ! ?q = []"
    using returnPipes_output [OF ok4 ix(2) _ i ix(1) ch4 [symmetric]] z l0(2) k'(1) by simp
  have "g \<in> open_fds k1" if "0 \<le> g" "g < int b" for g
    using row(2) [OF that] f1 by (simp add: open_fds_def fds_kept_def)
  from restartReplica_in_row [OF ok1 ix row(1) this s2] have "laid_out ?ext b ?pc (reps ! e)" .
  then have "fd_in (vot reps e i) = fd_in (vot (v_reps v) e i)" using row(1) i by (simp add: laid_out_def Let_def)
  then show "fd_in (vot (v_reps v') e i) = fd_in (vot (v_reps v) e i)" using ends(1) k'(2) by simp
qed

text \<open>
  (C33) A vote can block the voter. When a vote of an update replaces replica \<open>e\<close> and \<open>select\<close> had reported
  an output pipe of the old replica as ready that has not been read yet, the replacement's pipe has the
  same descriptor, so the voter goes on to read it. That pipe is new and empty, and the voter itself holds
  its write end open: the \<open>read\<close> waits for the replacement to write, while the replacement gets no input
  from a voter that waits. The descriptors are those of replicas whose pipes were created in a row.
\<close>

theorem stale_selection_blocks:
  assumes "voter_inv k v" "e < v_rep_count v" "r < v_rep_count v" "r \<noteq> e" "\<forall>q. os_lookup k 0 \<noteq> Some (WriteEnd q)"
    "laid_out (v_ext v) b (v_pipe_count v) (v_reps v ! e)" "\<forall>g. 0 \<le> g \<and> g < int b \<longrightarrow> g \<in> open_fds k"
    "p < v_pipe_count v" "fd_in (v_ext v ! p) = 0" "fd_in (vot (v_reps v) e p) \<in> set ready"
    "restart_prep k v e r = (k', v')"
  shows "readReplica ready p e (k', v') = processFromRep k' v' e p \<and> read_waits k' (fd_in (vot (v_reps v') e p))"
proof -
  note O = restart_prep_output [OF assms(1-5,11,8,9,6)]
  have same: "fd_in (vot (v_reps v') e p) = fd_in (vot (v_reps v) e p)" and c: "chan k' (v_reps v' ! e) p = length (os_pipes k) + p"
    and empty: "os_pipes k' ! (length (os_pipes k) + p) = []" using O assms(7) by blast+
  note I = restart_prep_inv [OF assms(1-4,11)]
  have cfg: "v_rep_count v' = v_rep_count v" "v_pipe_count v' = v_pipe_count v" "fd_in (v_ext v' ! p) = 0"
    using I(2) assms(8,9) by (simp_all add: cfg_kept_def)
  have "reps_ok k' (v_ext v') (v_pipe_count v') (v_rep_count v') (v_reps v')" using I(1) by (simp add: voter_inv_def)
  from reps_okD(1) [OF this, of e p] have w: "wired k' (v_ext v' ! p) (v_reps v' ! e) p (length (os_pipes k) + p)"
    using cfg(1,2) assms(2,8) c by simp
  then have l: "os_lookup k' (fd_in (vot (v_reps v') e p)) = Some (ReadEnd (length (os_pipes k) + p))" "0 < fd_in (vot (v_reps v') e p)"
    "length (os_pipes k) + p < length (os_pipes k')" "Some (WriteEnd (length (os_pipes k) + p)) \<in> set (os_fd_table k')"
    using cfg(3) os_lookup_table by (auto simp: wired_def Let_def)
  have "read_waits k' (fd_in (vot (v_reps v') e p))" using l(1,3,4) empty by (auto simp: read_waits_def)
  moreover have "readReplica ready p e (k', v') = processFromRep k' v' e p"
    using same l(2) assms(10) by (simp add: readReplica_def Let_def)
  ultimately show ?thesis by blast
qed

text \<open>Replica 1 is replaced by replica 0 while its output, descriptor 11, is still to be read.\<close>

theorem stale_selection_blocks_witness:
  "\<exists>k' v'. restart_prep (demo_kernel (replicate 8 [])) demo_voter 1 0 = (k', v') \<and>
    readReplica [11] 1 1 (k', v') = processFromRep k' v' 1 1 \<and> read_waits k' (fd_in (vot (v_reps v') 1 1))"
proof -
  let ?k = "demo_kernel (replicate 8 [])"
  obtain k' v' where run: "restart_prep ?k demo_voter 1 0 = (k', v')" by fastforce
  have inv: "voter_inv ?k demo_voter" by (simp add: demo_voter_inv)
  have rep: "v_reps demo_voter ! 1 = demo_rep 1" by (simp add: demo_voter_def)
  have z: "\<forall>q. os_lookup ?k 0 \<noteq> Some (WriteEnd q)" by (simp add: demo_lookup)
  have row: "laid_out (v_ext demo_voter) 9 (v_pipe_count demo_voter) (v_reps demo_voter ! 1)"
    unfolding rep laid_out_def demo_voter_simps(2) all_less_2 by (simp add: demo_rep_def demo_voter_def Let_def)
  have dense: "\<forall>g. 0 \<le> g \<and> g < int 9 \<longrightarrow> g \<in> open_fds ?k"
  proof (intro allI impI)
    fix g :: int assume "0 \<le> g \<and> g < int 9"
    then have "g \<in> {0, 1, 2, 3, 4, 5, 6, 7, 8}" by auto
    then show "g \<in> open_fds ?k" by (elim insertE) (simp_all add: open_fds_def demo_lookup)
  qed
  have fd: "fd_in (vot (v_reps demo_voter) 1 1) \<in> set [11]" unfolding rep by (simp add: demo_rep_def Let_def)
  show ?thesis
    using stale_selection_blocks [OF inv _ _ _ z row dense _ _ fd run] run by simp
qed

end
