(* ===== verification/Grid_Map.thy ===== *)
theory Grid_Map imports Tas_Lib "HOL-Library.Multiset" begin

text \<open>
  The grid and the linked lists of the planners (\<open>controllers/mapping.c\<close>, \<open>controllers/inc/mapping.h\<close>).
  A pointer to a \<open>node_t\<close> is \<open>NULL\<close> or the node: the controllers set the fields of a node before they
  put it into a list and never afterwards, so sharing needs no addresses. A pointer to an \<open>l_list_t\<close>
  is the chain of its cells, each with the fields \<open>head\<close> and \<open>sort_val\<close>; the empty chain is the null
  pointer, and dereferencing it is \<open>None\<close>. Allocation succeeds and \<open>free\<close> has no effect on the values.
\<close>

section \<open>Data\<close>

abbreviation GRID_NUM :: int where "GRID_NUM \<equiv> 80"
abbreviation MAP_SIZE :: int where "MAP_SIZE \<equiv> 16"
abbreviation OFFSET_X :: int where "OFFSET_X \<equiv> 8"
abbreviation OFFSET_Y :: int where "OFFSET_Y \<equiv> 8"

record point_i =
  pi_x :: int
  pi_y :: int

record 'd point_d =
  pd_x :: 'd
  pd_y :: 'd

datatype 'd node_t = NULL | Node (nd_x: int) (nd_y: int) (g_score: 'd) (back_link: "'d node_t")

type_synonym 'd l_list_t = "('d node_t \<times> 'd) list"

section \<open>Grid coordinates\<close>

definition interval :: "'d fp \<Rightarrow> 'd" where
  "interval F = f_div F (f_of_int F MAP_SIZE) (f_of_int F GRID_NUM)"

definition grid_edge :: "int \<Rightarrow> int" where
  "grid_edge c = (if c = GRID_NUM then c - 1 else c)"

definition gridify :: "'d fp \<Rightarrow> 'd point_d \<Rightarrow> point_i" where
  "gridify F p =
     (let x = f_trunc F (f_div F (f_add F (pd_x p) (f_of_int F OFFSET_X)) (interval F));
          y = f_trunc F (f_div F (f_add F (pd_y p) (f_of_int F OFFSET_Y)) (interval F)) in
      \<lparr>pi_x = grid_edge x, pi_y = grid_edge y\<rparr>)"

definition degridify :: "'d fp \<Rightarrow> int \<Rightarrow> int \<Rightarrow> 'd point_d" where
  "degridify F x y =
     (let half = f_div F (interval F) (f_lit F 2) in
      \<lparr>pd_x = f_sub F (f_add F (f_mul F (f_of_int F x) (interval F)) half) (f_of_int F OFFSET_X),
       pd_y = f_sub F (f_add F (f_mul F (f_of_int F y) (interval F)) half) (f_of_int F OFFSET_Y)\<rparr>)"

section \<open>Lists of nodes\<close>

definition newList :: "'d fp \<Rightarrow> 'd l_list_t" where
  "newList F = [(NULL, f_lit F 0)]"

definition newNode :: "int \<Rightarrow> int \<Rightarrow> 'd \<Rightarrow> 'd node_t" where
  "newNode x y g = Node x y g NULL"

definition nodeEqauls :: "'d node_t \<Rightarrow> 'd node_t \<Rightarrow> bool" where
  "nodeEqauls a b =
     (case a of NULL \<Rightarrow> False
      | Node ax ay _ _ \<Rightarrow> (case b of NULL \<Rightarrow> False | Node bx by _ _ \<Rightarrow> ax = bx \<and> ay = by))"

fun removeNode :: "'d l_list_t \<Rightarrow> 'd node_t \<Rightarrow> 'd l_list_t" where
  "removeNode [] node = []"
| "removeNode ((h, s) # t) node =
     (if h = NULL then (h, s) # t
      else if nodeEqauls h node then t
      else (h, s) # removeNode t node)"

text \<open>The nodes of a list, and how often a walk along it can go on.\<close>

definition nodes :: "'d l_list_t \<Rightarrow> 'd node_t list" where
  "nodes l = filter (\<lambda>n. n \<noteq> NULL) (map fst l)"

lemma nodes_simps [simp]:
  "nodes [] = []" "nodes ((h, s) # t) = (if h = NULL then nodes t else h # nodes t)" "nodes (newList F) = []"
  by (simp_all add: nodes_def newList_def)

lemma nodes_not_NULL [simp]: "NULL \<notin> set (nodes l)"
  by (simp add: nodes_def)

function addNode :: "'d fp \<Rightarrow> 'd l_list_t \<Rightarrow> 'd node_t \<Rightarrow> 'd \<Rightarrow> 'd l_list_t option" where
  "addNode F [] node v = None"
| "addNode F ((h, s) # t) node v =
     (if h = NULL then Some ((node, v) # t)
      else if f_lt F v s then Some ((node, v) # (h, s) # t)
      else (case addNode F (if t = [] then newList F else t) node v of
              None \<Rightarrow> None
            | Some t' \<Rightarrow> Some ((h, s) # t')))"
  by pat_completeness auto
termination
  by (relation "measure (\<lambda>(F, l, n, v). length (nodes l))") auto

fun findNode :: "'d l_list_t \<Rightarrow> 'd node_t \<Rightarrow> 'd node_t" where
  "findNode [] node = NULL"
| "findNode ((h, s) # t) node =
     (if h = NULL then NULL else if nodeEqauls node h then h else findNode t node)"

definition push :: "'d fp \<Rightarrow> 'd l_list_t \<Rightarrow> 'd node_t \<Rightarrow> 'd l_list_t" where
  "push F l node = (node, f_lit F 0) # l"

definition pop :: "'d fp \<Rightarrow> 'd l_list_t \<Rightarrow> ('d node_t \<times> 'd l_list_t) option" where
  "pop F l =
     (case l of [] \<Rightarrow> None
      | (h, s) # t \<Rightarrow> Some (h, if t = [] then newList F else t))"

fun peek :: "'d l_list_t \<Rightarrow> int \<Rightarrow> 'd node_t" where
  "peek [] num = NULL"
| "peek ((h, s) # t) num = (if h = NULL then NULL else if num = 0 then h else peek t (num - 1))"

lemma pop_nodes: "pop F l = Some (n, l') \<Longrightarrow> nodes l = (if n = NULL then [] else [n]) @ nodes l'"
  by (auto simp: pop_def split: list.splits if_splits)

function eraseList :: "'d fp \<Rightarrow> 'd l_list_t \<Rightarrow> 'd l_list_t option" where
  "eraseList F l =
     (case pop F l of
        None \<Rightarrow> None
      | Some (c, l') \<Rightarrow> if c = NULL then Some l' else eraseList F l')"
  by pat_completeness auto
termination
  by (relation "measure (\<lambda>(F, l). length (nodes l))") (auto dest: pop_nodes)

declare eraseList.simps [simp del]

text \<open>
  \<open>printMap\<close>: the rows from the highest to the lowest, each with one character per cell.
\<close>

definition map_cell :: "(int \<Rightarrow> int \<Rightarrow> bool) \<Rightarrow> 'd fp \<Rightarrow> 'd l_list_t \<Rightarrow> int \<Rightarrow> int \<Rightarrow> char" where
  "map_cell obs F path j i =
     (if findNode path (newNode j i (f_lit F 0)) \<noteq> NULL then (if obs j i then CHR ''!'' else CHR ''o'')
      else (if obs j i then CHR ''X'' else CHR ''.''))"

definition printMap :: "(int \<Rightarrow> int \<Rightarrow> bool) \<Rightarrow> 'd fp \<Rightarrow> 'd l_list_t \<Rightarrow> string" where
  "printMap obs F path =
     CHR 0x0A # concat (map (\<lambda>i. map (\<lambda>j. map_cell obs F path j i) [0..GRID_NUM - 1] @ [CHR 0x0A])
       (rev [0..GRID_NUM - 1]))"

section \<open>What the list operations do\<close>

text \<open>
  A list as the planners keep it: one empty cell, or cells that all hold a node.
\<close>

definition sound :: "'d l_list_t \<Rightarrow> bool" where
  [wf_simps]: "sound l \<longleftrightarrow> (\<exists>s. l = [(NULL, s)]) \<or> (l \<noteq> [] \<and> (\<forall>c \<in> set l. fst c \<noteq> NULL))"

definition coord :: "'d node_t \<Rightarrow> int \<times> int" where
  "coord n = (nd_x n, nd_y n)"

lemma coord_Node [simp]: "coord (Node x y g b) = (x, y)" "coord (newNode x y g) = (x, y)"
  by (simp_all add: coord_def newNode_def)

lemma newNode_not_NULL [simp]: "newNode x y g \<noteq> NULL"
  by (simp add: newNode_def)

lemma nodeEqauls_iff: "nodeEqauls a b \<longleftrightarrow> a \<noteq> NULL \<and> b \<noteq> NULL \<and> coord a = coord b"
  by (cases a; cases b) (auto simp: nodeEqauls_def coord_def)

lemma sound_newList [simp]: "sound (newList F)"
  by (simp add: sound_def newList_def)

lemma sound_not_Nil: "sound l \<Longrightarrow> l \<noteq> []"
  by (auto simp: sound_def)

lemma sound_Nil_cell: "sound l \<Longrightarrow> nodes l = [] \<Longrightarrow> \<exists>s. l = [(NULL, s)]"
  by (cases l) (auto simp: sound_def split: if_splits)

lemma all_nodes: "\<forall>c \<in> set l. fst c \<noteq> NULL \<Longrightarrow> nodes l = map fst l"
  by (simp add: nodes_def)

text \<open>
  \<open>addNode\<close> never fails on such a list, whatever the comparison of sort values does: it adds the
  node and keeps the others.
\<close>

lemma addNode_sound:
  assumes "sound l" "node \<noteq> NULL"
  shows "\<exists>l'. addNode F l node v = Some l' \<and> sound l' \<and> mset (nodes l') = add_mset node (mset (nodes l))"
  using assms
proof (induction F l node v rule: addNode.induct)
  case (1 F node v)
  then show ?case by (simp add: sound_def)
next
  case (2 F h s t node v)
  show ?case
  proof (cases "h = NULL \<or> f_lt F v s")
    case True
    then show ?thesis using 2(2,3) by (cases "h = NULL") (auto simp: sound_def)
  next
    case False
    let ?t = "if t = [] then newList F else t"
    have live: "\<forall>c \<in> set t. fst c \<noteq> NULL" using 2(2) False by (auto simp: sound_def)
    then have "sound ?t" by (auto simp: sound_def newList_def)
    then obtain t' where t': "addNode F ?t node v = Some t'" "sound t'" "mset (nodes t') = add_mset node (mset (nodes ?t))"
      using 2(1,3) False by auto
    have "node \<in> set (nodes t')" using t'(3) by (metis set_mset_mset union_single_eq_member)
    then have "\<exists>c \<in> set t'. fst c \<noteq> NULL" by (auto simp: nodes_def)
    then have "\<forall>c \<in> set t'. fst c \<noteq> NULL" using t'(2) by (auto simp: sound_def)
    then show ?thesis using False t' by (auto simp: sound_def)
  qed
qed

lemma pop_sound:
  assumes "sound l"
  shows "pop F l = (case nodes l of [] \<Rightarrow> Some (NULL, newList F) | n # ns \<Rightarrow> Some (n, if ns = [] then newList F else tl l))"
  using assms by (cases l) (auto simp: sound_def pop_def all_nodes)

lemma pop_soundE:
  assumes "sound l" "pop F l = Some (n, l')"
  shows "sound l'" "n = NULL \<Longrightarrow> nodes l = []" "n \<noteq> NULL \<Longrightarrow> nodes l = n # nodes l'"
proof -
  show "sound l'" using assms by (cases l) (auto simp: sound_def pop_def newList_def split: if_splits)
  show "n = NULL \<Longrightarrow> nodes l = []" using assms by (cases l) (auto simp: sound_def pop_def split: if_splits)
  show "n \<noteq> NULL \<Longrightarrow> nodes l = n # nodes l'" using pop_nodes [OF assms(2)] by simp
qed

lemma pop_sound_Some: "sound l \<Longrightarrow> \<exists>n l'. pop F l = Some (n, l')"
  by (cases l) (auto simp: sound_def pop_def)

lemma findNode_sound:
  assumes "\<forall>c \<in> set l. fst c \<noteq> NULL" "n \<noteq> NULL"
  shows "findNode l n = NULL \<longleftrightarrow> coord n \<notin> coord ` set (nodes l)"
    and "findNode l n \<noteq> NULL \<Longrightarrow> findNode l n \<in> set (nodes l) \<and> coord (findNode l n) = coord n"
  using assms by (induction l n rule: findNode.induct) (auto simp: nodeEqauls_iff)

lemma findNode_iff:
  assumes "sound l" "n \<noteq> NULL"
  shows "findNode l n = NULL \<longleftrightarrow> coord n \<notin> coord ` set (nodes l)"
  using assms findNode_sound(1) [of l n] by (auto simp: sound_def)

text \<open>
  \<open>removeNode\<close> takes out the first node with the coordinates. The list may become the null pointer,
  which no other operation produces.
\<close>

lemma removeNode_absent:
  assumes "n \<noteq> NULL" "coord n \<notin> coord ` set (nodes l)"
  shows "removeNode l n = l"
  using assms by (induction l n rule: removeNode.induct) (auto simp: nodeEqauls_iff split: if_splits)

lemma removeNode_sound:
  assumes "sound l" "n \<noteq> NULL" "distinct (map coord (nodes l))"
  shows "removeNode l n = [] \<or> sound (removeNode l n)"
    and "nodes (removeNode l n) = filter (\<lambda>m. coord m \<noteq> coord n) (nodes l)"
proof -
  have "set (removeNode l n) \<subseteq> set l" for l :: "'a l_list_t"
    by (induction l n rule: removeNode.induct) auto
  moreover have "removeNode [(NULL, s)] n = [(NULL, s)]" for s :: 'a by simp
  ultimately show "removeNode l n = [] \<or> sound (removeNode l n)"
    using assms(1) by (fastforce simp: sound_def)
  have "nodes (removeNode l n) = filter (\<lambda>m. coord m \<noteq> coord n) (nodes l)"
    if "\<forall>c \<in> set l. fst c \<noteq> NULL" "distinct (map coord (nodes l))" for l :: "'a l_list_t"
    using that
  proof (induction l)
    case (Cons c t)
    obtain h s where c: "c = (h, s)" by fastforce
    show ?case
    proof (cases "coord h = coord n")
      case True
      then have "filter (\<lambda>m. coord m \<noteq> coord n) (nodes t) = nodes t"
        using Cons.prems c by (auto simp: filter_id_conv image_iff)
      then show ?thesis using True Cons.prems c assms(2) by (simp add: nodeEqauls_iff)
    qed (use Cons c assms(2) in \<open>auto simp: nodeEqauls_iff\<close>)
  qed simp
  then show "nodes (removeNode l n) = filter (\<lambda>m. coord m \<noteq> coord n) (nodes l)"
    using assms by (auto simp: sound_def)
qed

section \<open>Rounding\<close>

text \<open>
  What the grid needs of floating-point arithmetic: \<open>fin\<close> singles out the finite numbers and \<open>val\<close>
  gives their value. An operation on finite numbers whose exact result is of moderate size gives a
  finite number near it, small integers are exact, and the conversion to \<open>int\<close> drops the fraction.
  IEEE double precision with rounding to nearest is well inside these bounds.
\<close>

definition near :: "real \<Rightarrow> real \<Rightarrow> bool" where
  "near r e \<longleftrightarrow> \<bar>r - e\<bar> \<le> (\<bar>e\<bar> + 1) / 2 ^ 50"

definition fp_rounds :: "'d fp \<Rightarrow> ('d \<Rightarrow> bool) \<Rightarrow> ('d \<Rightarrow> real) \<Rightarrow> bool" where
  "fp_rounds F fin val \<longleftrightarrow>
     (\<forall>a b. fin a \<and> fin b \<and> \<bar>val a + val b\<bar> \<le> 1000 \<longrightarrow> fin (f_add F a b) \<and> near (val (f_add F a b)) (val a + val b)) \<and>
     (\<forall>a b. fin a \<and> fin b \<and> \<bar>val a - val b\<bar> \<le> 1000 \<longrightarrow> fin (f_sub F a b) \<and> near (val (f_sub F a b)) (val a - val b)) \<and>
     (\<forall>a b. fin a \<and> fin b \<and> \<bar>val a * val b\<bar> \<le> 1000 \<longrightarrow> fin (f_mul F a b) \<and> near (val (f_mul F a b)) (val a * val b)) \<and>
     (\<forall>a b. fin a \<and> fin b \<and> val b \<noteq> 0 \<and> \<bar>val a / val b\<bar> \<le> 1000 \<longrightarrow>
        fin (f_div F a b) \<and> near (val (f_div F a b)) (val a / val b)) \<and>
     (\<forall>i. \<bar>i\<bar> \<le> 1000 \<longrightarrow> fin (f_of_int F i) \<and> val (f_of_int F i) = of_int i) \<and>
     fin (f_lit F 2) \<and> val (f_lit F 2) = 2 \<and>
     (\<forall>a. fin a \<and> \<bar>val a\<bar> \<le> 1000 \<longrightarrow> f_trunc F a = (if val a < 0 then - \<lfloor>- val a\<rfloor> else \<lfloor>val a\<rfloor>))"

lemma fp_roundsD:
  assumes "fp_rounds F fin val"
  shows "fin a \<Longrightarrow> fin b \<Longrightarrow> \<bar>val a + val b\<bar> \<le> 1000 \<Longrightarrow> fin (f_add F a b) \<and> near (val (f_add F a b)) (val a + val b)"
    "fin a \<Longrightarrow> fin b \<Longrightarrow> \<bar>val a - val b\<bar> \<le> 1000 \<Longrightarrow> fin (f_sub F a b) \<and> near (val (f_sub F a b)) (val a - val b)"
    "fin a \<Longrightarrow> fin b \<Longrightarrow> \<bar>val a * val b\<bar> \<le> 1000 \<Longrightarrow> fin (f_mul F a b) \<and> near (val (f_mul F a b)) (val a * val b)"
    "fin a \<Longrightarrow> fin b \<Longrightarrow> val b \<noteq> 0 \<Longrightarrow> \<bar>val a / val b\<bar> \<le> 1000 \<Longrightarrow>
      fin (f_div F a b) \<and> near (val (f_div F a b)) (val a / val b)"
    "\<bar>i\<bar> \<le> 1000 \<Longrightarrow> fin (f_of_int F i) \<and> val (f_of_int F i) = of_int i"
    "fin (f_lit F 2) \<and> val (f_lit F 2) = 2"
    "fin a \<Longrightarrow> \<bar>val a\<bar> \<le> 1000 \<Longrightarrow> f_trunc F a = (if val a < 0 then - \<lfloor>- val a\<rfloor> else \<lfloor>val a\<rfloor>)"
  using assms unfolding fp_rounds_def by simp_all

lemma near_1000: "near r e \<Longrightarrow> \<bar>e\<bar> \<le> 1000 \<Longrightarrow> \<bar>r - e\<bar> \<le> 1 / 1000000"
proof -
  assume "near r e" "\<bar>e\<bar> \<le> 1000"
  then have "\<bar>r - e\<bar> \<le> 1001 / 2 ^ 50"
    unfolding near_def by (smt (verit) divide_right_mono zero_le_power)
  then show ?thesis by simp
qed

lemma near_bound: "\<bar>e\<bar> \<le> 102 \<Longrightarrow> \<bar>r - e\<bar> \<le> 1 / 1000000 \<Longrightarrow> \<bar>r\<bar> \<le> (1000 :: real)"
  by linarith

lemma interval_val:
  assumes "fp_rounds F fin val"
  shows "fin (interval F)" "\<bar>val (interval F) - 1 / 5\<bar> \<le> 1 / 1000000"
proof -
  note D = fp_roundsD [OF assms]
  have c: "fin (f_of_int F 16) \<and> val (f_of_int F 16) = 16" "fin (f_of_int F 80) \<and> val (f_of_int F 80) = 80"
    using D(5) [of 16] D(5) [of 80] by simp_all
  then have "fin (interval F) \<and> near (val (interval F)) (1 / 5)"
    using D(4) [of "f_of_int F 16" "f_of_int F 80"] by (simp add: interval_def)
  then show "fin (interval F)" "\<bar>val (interval F) - 1 / 5\<bar> \<le> 1 / 1000000" using near_1000 [of _ "1 / 5"] by auto
qed

lemma interval_bounds:
  assumes "fp_rounds F fin val"
  shows "1 / 5 - 1 / 1000000 \<le> val (interval F)" "val (interval F) \<le> 1 / 5 + 1 / 1000000"
  using interval_val(2) [OF assms] unfolding abs_le_iff by linarith+

text \<open>One coordinate of \<open>gridify\<close> on a point of the map, before the correction at the edge.\<close>

lemma grid_coordinate:
  assumes R: "fp_rounds F fin val" and v: "fin v" "- 8 \<le> val v" "val v \<le> 8"
  defines "q \<equiv> f_div F (f_add F v (f_of_int F 8)) (interval F)"
  shows "fin q" "\<bar>val q * val (interval F) - (val v + 8)\<bar> \<le> 1 / 100000"
    "f_trunc F q = (if val q < 0 then - \<lfloor>- val q\<rfloor> else \<lfloor>val q\<rfloor>)"
proof -
  note D = fp_roundsD [OF R]
  define I where "I = val (interval F)"
  have I: "1 / 6 \<le> I" "I \<le> 1 / 4" using interval_bounds [OF R] by (simp_all add: I_def)
  have e: "fin (f_of_int F 8)" "val (f_of_int F 8) = 8" using D(5) [of 8] by simp_all
  define s where "s = val (f_add F v (f_of_int F 8))"
  have s: "fin (f_add F v (f_of_int F 8))" "\<bar>s - (val v + 8)\<bar> \<le> 1 / 1000000"
    using D(1) [OF v(1) e(1)] e(2) v near_1000 [of s "val v + 8"] by (auto simp: s_def)
  have "\<bar>s\<bar> \<le> 17" using s(2) v by linarith
  then have "\<bar>s / I\<bar> \<le> 17 / (1 / 6)"
    unfolding abs_divide by (intro frac_le) (use I in auto)
  then have "\<bar>s / I\<bar> \<le> 102" by simp
  moreover from this have q12: "fin q" "\<bar>val q - s / I\<bar> \<le> 1 / 1000000"
    using D(4) [OF s(1) interval_val(1) [OF R]] I near_1000 [of "val q" "s / I"]
    by (auto simp: q_def s_def I_def)
  ultimately have "\<bar>val q\<bar> \<le> 1000" using near_bound by blast
  note q = q12 this
  show "fin q" by (rule q(1))
  have "\<bar>(val q - s / I) * I\<bar> \<le> 1 / 1000000 * 1"
    unfolding abs_mult by (rule mult_mono) (use q(2) I in auto)
  moreover have "(val q - s / I) * I = val q * I - s" using I by (simp add: field_simps)
  ultimately show "\<bar>val q * val (interval F) - (val v + 8)\<bar> \<le> 1 / 100000"
    using s(2) unfolding I_def by linarith
  show "f_trunc F q = (if val q < 0 then - \<lfloor>- val q\<rfloor> else \<lfloor>val q\<rfloor>)" by (rule D(7) [OF q(1,3)])
qed

lemma grid_cell:
  assumes "fp_rounds F fin val" "fin v" "- 8 \<le> val v" "val v \<le> 8"
  defines "c \<equiv> grid_edge (f_trunc F (f_div F (f_add F v (f_of_int F 8)) (interval F)))"
  shows "0 \<le> c" "c < 80"
proof -
  define q where "q = f_div F (f_add F v (f_of_int F 8)) (interval F)"
  note G = grid_coordinate [OF assms(1-4), folded q_def]
  define I where "I = val (interval F)"
  have I: "1 / 5 - 1 / 1000000 \<le> I" using interval_bounds [OF assms(1)] by (simp add: I_def)
  have "val q * I < 81 * I" "- I < val q * I" using G(2) assms(3,4) I unfolding I_def by linarith+
  then have "val q * I < 81 * I" "(- 1) * I < val q * I" by simp_all
  then have "val q < 81" "- 1 < val q" using I by (simp_all only: mult_less_cancel_right)
  then have "0 \<le> f_trunc F q \<and> f_trunc F q \<le> 80"
    unfolding G(3) by (auto simp: floor_le_iff floor_less_iff) linarith
  then show "0 \<le> c" "c < 80" unfolding c_def q_def [symmetric] grid_edge_def by auto
qed

text \<open>One coordinate of \<open>degridify\<close>: the middle of the cell, up to rounding.\<close>

lemma degrid_coordinate:
  assumes R: "fp_rounds F fin val" and x: "0 \<le> x" "x < 80"
  defines "m \<equiv> f_sub F (f_add F (f_mul F (f_of_int F x) (interval F)) (f_div F (interval F) (f_lit F 2))) (f_of_int F 8)"
  shows "fin m" "\<bar>val m - ((of_int x + 1 / 2) * val (interval F) - 8)\<bar> \<le> 1 / 100000"
proof -
  note D = fp_roundsD [OF R]
  define I where "I = val (interval F)"
  have I: "1 / 6 \<le> I" "I \<le> 1 / 4" "fin (interval F)"
    using interval_bounds [OF R] interval_val(1) [OF R] by (simp_all add: I_def)
  have c: "fin (f_of_int F 8)" "val (f_of_int F 8) = 8" "fin (f_of_int F x)" "val (f_of_int F x) = of_int x"
    using D(5) [of 8] D(5) [of x] x by simp_all
  have "of_int x * I \<le> 80 * (1 / 4)" by (rule mult_mono) (use x I in auto)
  moreover have "0 \<le> of_int x * I" using x I by simp
  ultimately have xI: "0 \<le> of_int x * I" "of_int x * I \<le> 20" by simp_all
  define a where "a = f_mul F (f_of_int F x) (interval F)"
  have a: "fin a" "\<bar>val a - of_int x * I\<bar> \<le> 1 / 1000000"
    using D(3) [OF c(3) I(3)] xI near_1000 [of "val a" "of_int x * I"] by (auto simp: a_def c(4) I_def)
  define h where "h = f_div F (interval F) (f_lit F 2)"
  have h: "fin h" "\<bar>val h - I / 2\<bar> \<le> 1 / 1000000"
    using D(4) [OF I(3), of "f_lit F 2"] D(6) I near_1000 [of "val h" "I / 2"] by (auto simp: h_def I_def)
  define b where "b = f_add F a h"
  have "\<bar>val a + val h\<bar> \<le> 100" using a(2) h(2) xI I(1,2) by linarith
  moreover from this have b: "fin b" "\<bar>val b - (val a + val h)\<bar> \<le> 1 / 1000000"
    using D(1) [OF a(1) h(1)] near_1000 [of "val b" "val a + val h"] by (auto simp: b_def)
  ultimately have b3: "\<bar>val b\<bar> \<le> 101" by linarith
  have "\<bar>val b - 8\<bar> \<le> 1000" using b3 by linarith
  then have m: "fin m" "\<bar>val m - (val b - 8)\<bar> \<le> 1 / 1000000"
    using D(2) [OF b(1) c(1)] near_1000 [of "val m" "val b - 8"]
    by (auto simp: m_def b_def a_def h_def c(2))
  show "fin m" by (rule m(1))
  show "\<bar>val m - ((of_int x + 1 / 2) * val (interval F) - 8)\<bar> \<le> 1 / 100000"
    using a(2) h(2) b(2) m(2) unfolding I_def distrib_right by linarith
qed

lemma grid_center:
  assumes R: "fp_rounds F fin val" and x: "0 \<le> x" "x < 80"
  defines "m \<equiv> f_sub F (f_add F (f_mul F (f_of_int F x) (interval F)) (f_div F (interval F) (f_lit F 2))) (f_of_int F 8)"
  shows "grid_edge (f_trunc F (f_div F (f_add F m (f_of_int F 8)) (interval F))) = x"
proof -
  define I where "I = val (interval F)"
  have I: "1 / 5 - 1 / 1000000 \<le> I" "I \<le> 1 / 5 + 1 / 1000000" using interval_bounds [OF R] by (simp_all add: I_def)
  note m = degrid_coordinate [OF R x, folded m_def I_def]
  have "of_int x * I \<le> 79 * I" using x I by (intro mult_right_mono) auto
  moreover have "0 \<le> of_int x * I" using x I by simp
  ultimately have "- 8 \<le> val m" "val m \<le> 8" using m(2) I unfolding distrib_right by linarith+
  define q where "q = f_div F (f_add F m (f_of_int F 8)) (interval F)"
  note G = grid_coordinate [OF R m(1) \<open>- 8 \<le> val m\<close> \<open>val m \<le> 8\<close>, folded q_def I_def]
  have "of_int x * I < val q * I" "val q * I < (of_int x + 1) * I"
    using G(2) m(2) I unfolding distrib_right by linarith+
  then have "of_int x < val q" "val q < of_int x + 1" using I by (auto simp: mult_less_cancel_right)
  then have "f_trunc F q = x" using G(3) x by (simp add: floor_eq_iff)
  then show ?thesis using x unfolding q_def [symmetric] by (simp add: grid_edge_def)
qed

text \<open>
  Every point of the map, borders included, has a cell: for coordinates between -8 and 8 the
  cell that \<open>gridify\<close> computes lies in the grid of 80 by 80, whatever the rounding errors.
\<close>

theorem gridify_in_grid:
  assumes "fp_rounds F fin val" "fin (pd_x p)" "fin (pd_y p)"
    "- 8 \<le> val (pd_x p)" "val (pd_x p) \<le> 8" "- 8 \<le> val (pd_y p)" "val (pd_y p) \<le> 8"
  shows "0 \<le> pi_x (gridify F p) \<and> pi_x (gridify F p) < GRID_NUM \<and>
    0 \<le> pi_y (gridify F p) \<and> pi_y (gridify F p) < GRID_NUM"
  using grid_cell [OF assms(1,2,4,5)] grid_cell [OF assms(1,3,6,7)] by (simp add: gridify_def Let_def)

text \<open>
  (C24) Grid coordinates survive the way through the plane: \<open>gridify\<close> finds the cell again from the
  point that \<open>degridify\<close> computes for it, for every cell and whatever the rounding errors.
\<close>

theorem grid_roundtrip:
  assumes "fp_rounds F fin val" "0 \<le> x" "x < GRID_NUM" "0 \<le> y" "y < GRID_NUM"
  shows "gridify F (degridify F x y) = \<lparr>pi_x = x, pi_y = y\<rparr>"
  using grid_center [OF assms(1-3)] grid_center [OF assms(1,4,5)]
  by (simp add: gridify_def degridify_def Let_def)

lemma fp_rounds_rat: "fp_rounds rat_fp (\<lambda>_. True) of_rat"
proof -
  have n: "near e e" for e by (simp add: near_def)
  have "\<lfloor>real_of_rat a\<rfloor> = \<lfloor>a\<rfloor>" for a
    by (rule floor_unique) (metis of_int_floor_le of_rat_less_eq of_rat_of_int_eq,
      metis floor_correct of_rat_less of_rat_of_int_eq of_int_add of_int_1)
  then have "f_trunc rat_fp a = (if real_of_rat a < 0 then - \<lfloor>- real_of_rat a\<rfloor> else \<lfloor>real_of_rat a\<rfloor>)" for a
    by (simp add: rat_fp_def rat_trunc_def flip: of_rat_minus)
  then show ?thesis
    by (simp add: fp_rounds_def) (simp add: rat_fp_def of_rat_add of_rat_diff of_rat_mult of_rat_divide n)
qed

theorem gridify_in_grid_witness:
  "pi_x (gridify rat_fp \<lparr>pd_x = 8, pd_y = - 8\<rparr>) < 80"
  using gridify_in_grid [OF fp_rounds_rat, of "\<lparr>pd_x = 8, pd_y = - 8\<rparr>"] by (simp add: of_rat_minus)

theorem grid_roundtrip_witness:
  "gridify rat_fp (degridify rat_fp 79 0) = \<lparr>pi_x = 79, pi_y = 0\<rparr>"
  by (rule grid_roundtrip [OF fp_rounds_rat]) simp_all

section \<open>The order of a list\<close>

text \<open>
  The order of finite numbers: strict, transitive, and with incomparability transitive as well.
\<close>

definition strict_weak :: "('a \<Rightarrow> 'a \<Rightarrow> bool) \<Rightarrow> bool" where
  "strict_weak lt \<longleftrightarrow> (\<forall>a. \<not> lt a a) \<and> (\<forall>a b c. lt a b \<longrightarrow> lt b c \<longrightarrow> lt a c) \<and>
     (\<forall>a b c. \<not> lt a b \<longrightarrow> \<not> lt b c \<longrightarrow> \<not> lt a c)"

definition ordered :: "'d fp \<Rightarrow> 'd l_list_t \<Rightarrow> bool" where
  "ordered F l \<longleftrightarrow> sorted_wrt (\<lambda>c d. \<not> f_lt F (snd d) (snd c)) l"

lemma addNode_cells:
  assumes "sound l" "addNode F l node v = Some l'"
  shows "set l' \<subseteq> insert (node, v) {c \<in> set l. fst c \<noteq> NULL}"
  using assms
proof (induction F l node v arbitrary: l' rule: addNode.induct)
  case (2 F h s t node v)
  show ?case
  proof (cases "h = NULL \<or> f_lt F v s")
    case True
    then show ?thesis using 2(2,3) by (auto simp: sound_def split: if_splits)
  next
    case False
    let ?t = "if t = [] then newList F else t"
    obtain t' where t': "addNode F ?t node v = Some t'" "l' = (h, s) # t'"
      using 2(3) False by (auto split: option.splits)
    have "sound ?t" using 2(2) False by (auto simp: sound_def newList_def)
    then have "set t' \<subseteq> insert (node, v) {c \<in> set ?t. fst c \<noteq> NULL}" using 2(1) False t'(1) by simp
    then show ?thesis using t'(2) False by (auto simp: newList_def split: if_splits)
  qed
qed simp

lemma addNode_ordered:
  assumes "strict_weak (f_lt F)" "sound l" "ordered F l" "addNode F l node v = Some l'"
  shows "ordered F l'"
  using assms
proof (induction F l node v arbitrary: l' rule: addNode.induct)
  case (2 F h s t node v)
  have asym: "f_lt F a b \<Longrightarrow> \<not> f_lt F b a" for a b using 2(2) unfolding strict_weak_def by blast
  have ntrans: "\<not> f_lt F a b \<Longrightarrow> \<not> f_lt F b c \<Longrightarrow> \<not> f_lt F a c" for a b c using 2(2) unfolding strict_weak_def by blast
  consider "h = NULL" | "h \<noteq> NULL" "f_lt F v s" | "h \<noteq> NULL" "\<not> f_lt F v s" by blast
  then show ?case
  proof cases
    case 1
    then show ?thesis using 2(3,5) by (auto simp: sound_def ordered_def)
  next
    case 2
    then have l': "l' = (node, v) # (h, s) # t" using \<open>addNode F ((h, s) # t) node v = Some l'\<close> by simp
    have "\<not> f_lt F (snd d) v" if "d \<in> set t" for d
      using that \<open>ordered F ((h, s) # t)\<close> ntrans [OF _ asym [OF 2(2)]] by (auto simp: ordered_def)
    then show ?thesis using \<open>ordered F ((h, s) # t)\<close> asym [OF 2(2)] by (simp add: ordered_def l')
  next
    case 3
    let ?t = "if t = [] then newList F else t"
    obtain t' where t': "addNode F ?t node v = Some t'" "l' = (h, s) # t'"
      using 2(5) 3 by (auto split: option.splits)
    have ok: "sound ?t" "ordered F ?t" using 2(3,4) 3 by (auto simp: sound_def newList_def ordered_def)
    have "ordered F t'" using 2(1) 3 2(2) ok t'(1) by blast
    then show ?thesis using addNode_cells [OF ok(1) t'(1)] 2(4) 3 t'(2)
      by (auto simp: ordered_def newList_def split: if_splits)
  qed
qed simp

text \<open>
  (C25) A list filled by \<open>addNode\<close> is a priority queue: adding a node to an ordered list of the
  planner succeeds, keeps the list ordered and changes its nodes only by the new one, and \<open>pop\<close> takes
  a node that no node of the list precedes.
\<close>

theorem addNode_priority_queue:
  assumes "strict_weak (f_lt F)" "sound l" "ordered F l" "node \<noteq> NULL"
  shows "\<exists>l'. addNode F l node v = Some l' \<and> sound l' \<and> ordered F l' \<and>
    mset (nodes l') = add_mset node (mset (nodes l)) \<and>
    (\<exists>n l2. pop F l' = Some (n, l2) \<and> n \<noteq> NULL \<and> nodes l' = n # nodes l2 \<and>
      (\<forall>c \<in> set l'. \<not> f_lt F (snd c) (snd (hd l'))))"
proof -
  obtain l' where l': "addNode F l node v = Some l'" "sound l'" "mset (nodes l') = add_mset node (mset (nodes l))"
    using addNode_sound [OF assms(2,4)] by blast
  have ord: "ordered F l'" by (rule addNode_ordered [OF assms(1-3) l'(1)])
  obtain n l2 where pop: "pop F l' = Some (n, l2)" using pop_sound_Some [OF l'(2)] by blast
  have "nodes l' \<noteq> []" using l'(3) by force
  then have "n \<noteq> NULL" "nodes l' = n # nodes l2" using pop_soundE [OF l'(2) pop] by auto
  moreover have "\<forall>c \<in> set l'. \<not> f_lt F (snd c) (snd (hd l'))"
  proof -
    obtain c t where "l' = c # t" using sound_not_Nil [OF l'(2)] by (cases l') auto
    moreover have "\<not> f_lt F a a" for a using assms(1) unfolding strict_weak_def by blast
    ultimately show ?thesis using ord by (simp add: ordered_def)
  qed
  ultimately show ?thesis using l' ord pop by blast
qed

theorem addNode_priority_queue_witness:
  "\<exists>l'. addNode rat_fp [(Node 1 2 0 NULL, 5)] (Node 3 4 0 NULL) 2 = Some l' \<and> ordered rat_fp l' \<and>
    (\<forall>c \<in> set l'. \<not> f_lt rat_fp (snd c) (snd (hd l')))"
proof -
  have "strict_weak (f_lt rat_fp)" by (auto simp: strict_weak_def rat_fp_def)
  from addNode_priority_queue [OF this, of "[(Node 1 2 0 NULL, 5)]" "Node 3 4 0 NULL" 2]
  show ?thesis by (auto simp: sound_def ordered_def)
qed

end
