(* ===== verification/A_Star.thy ===== *)
theory A_Star imports Controller Grid_Map begin

text \<open>
  The route planner (\<open>controllers/a_star.c\<close>): it collects obstacles from map updates, searches a path
  from the robot's cell to the goal, and hands out the next two cells of the path as waypoints. The
  search is an A* over the lists of \<open>Grid_Map\<close>; its loop is bounded by fuel for one expansion per cell
  of the grid and one more round, which is shown to be enough. The array \<open>obstacle_map\<close> is a function
  on coordinates, read and written through operations that fail outside the grid. The coordinates are
  mathematical integers: inside the grid the squared distances are far from the limits of \<open>int\<close>.
\<close>

section \<open>State\<close>

type_synonym obs_map = "int \<Rightarrow> int \<Rightarrow> bool"

record 'd a_star = controller +
  as_map :: obs_map
  as_goal :: point_i
  as_pose :: point_i
  updates_index :: int
  ack_index :: int
  way_req_index :: int
  way_res_index :: int
  goal_path :: "'d l_list_t"
  current_goal :: "'d node_t"
  n_current_goal :: "'d node_t"
  fake_hash :: int
  as_recv :: comm_map_update

abbreviation PIPE_COUNT :: nat where "PIPE_COUNT \<equiv> 4"

definition in_grid :: "int \<Rightarrow> int \<Rightarrow> bool" where
  "in_grid x y \<longleftrightarrow> 0 \<le> x \<and> x < GRID_NUM \<and> 0 \<le> y \<and> y < GRID_NUM"

definition obs_at :: "obs_map \<Rightarrow> int \<Rightarrow> int \<Rightarrow> bool outcome" where
  "obs_at m x y = (if in_grid x y then Inr (m x y) else Inl OutOfBounds)"

definition obs_set :: "obs_map \<Rightarrow> int \<Rightarrow> int \<Rightarrow> obs_map outcome" where
  "obs_set m x y = (if in_grid x y then Inr (m(x := (m x)(y := True))) else Inl OutOfBounds)"

definition setPipeIndexes :: "('d, 'a) a_star_scheme \<Rightarrow> ('d, 'a) a_star_scheme" where
  "setPipeIndexes c =
     for_upto PIPE_COUNT (\<lambda>i c.
       case tp_type (c_pipes c ! i) of
         MAP_UPDATE \<Rightarrow> c\<lparr>updates_index := int i\<rparr>
       | COMM_ACK \<Rightarrow> c\<lparr>ack_index := int i\<rparr>
       | WAY_RES \<Rightarrow> c\<lparr>way_res_index := int i\<rparr>
       | WAY_REQ \<Rightarrow> c\<lparr>way_req_index := int i\<rparr>
       | _ \<Rightarrow> c) c"

section \<open>The search\<close>

text \<open>One pair of the two loops of \<open>genNeighbors\<close>.\<close>

definition gen_neighbor :: "'d fp \<Rightarrow> obs_map \<Rightarrow> 'd node_t \<Rightarrow> int \<times> int \<Rightarrow> 'd l_list_t \<Rightarrow> 'd l_list_t outcome" where
  "gen_neighbor F m node d list =
     (let i = fst d; j = snd d; n_x = nd_x node + i; n_y = nd_y node + j;
          add = or_fault NullDereference (addNode F list (newNode n_x n_y (f_lit F 0)) (f_lit F 0)) in
      if j = 0 \<and> i = 0 then Inr list
      else if \<bar>i\<bar> + \<bar>j\<bar> = 2 then
        then_do (obs_at m n_x n_y) (\<lambda>o1.
          if o1 then Inr list
          else then_do (obs_at m n_x (nd_y node)) (\<lambda>o2.
            if \<not> o2 then add
            else then_do (obs_at m (nd_x node) n_y) (\<lambda>o3. if \<not> o3 then add else Inr list)))
      else then_do (obs_at m n_x n_y) (\<lambda>o1. if \<not> o1 then add else Inr list))"

fun gen_loop :: "'d fp \<Rightarrow> obs_map \<Rightarrow> 'd node_t \<Rightarrow> (int \<times> int) list \<Rightarrow> 'd l_list_t \<Rightarrow> 'd l_list_t outcome" where
  "gen_loop F m node [] list = Inr list"
| "gen_loop F m node (d # ds) list = then_do (gen_neighbor F m node d list) (gen_loop F m node ds)"

definition offsets :: "(int \<times> int) list" where
  "offsets = [(- 1, - 1), (- 1, 0), (- 1, 1), (0, - 1), (0, 0), (0, 1), (1, - 1), (1, 0), (1, 1)]"

definition genNeighbors :: "'d fp \<Rightarrow> obs_map \<Rightarrow> 'd node_t \<Rightarrow> 'd l_list_t outcome" where
  "genNeighbors F m node = gen_loop F m node offsets (newList F)"

definition estDistance :: "'d fp \<Rightarrow> int \<Rightarrow> int \<Rightarrow> int \<Rightarrow> int \<Rightarrow> 'd" where
  "estDistance F x_1 y_1 x_2 y_2 =
     f_sqrt F (f_of_int F ((x_1 - x_2) * (x_1 - x_2) + (y_1 - y_2) * (y_1 - y_2)))"

definition estDistanceG :: "'d fp \<Rightarrow> point_i \<Rightarrow> int \<Rightarrow> int \<Rightarrow> 'd" where
  "estDistanceG F goal x y = estDistance F x y (pi_x goal) (pi_y goal)"

text \<open>\<open>eraseAllButList\<close>: the nodes that are freed, those that have no equal in the list to save.\<close>

function eraseAllButList :: "'d fp \<Rightarrow> 'd l_list_t \<Rightarrow> 'd l_list_t \<Rightarrow> 'd node_t list outcome" where
  "eraseAllButList F kill_list save_list =
     (case pop F kill_list of
        None \<Rightarrow> Inl NullDereference
      | Some (clean_n, rest) \<Rightarrow>
          (if clean_n = NULL then Inr []
           else then_do (eraseAllButList F rest save_list) (\<lambda>freed.
             Inr (if findNode save_list clean_n \<noteq> NULL then freed else clean_n # freed))))"
  by pat_completeness auto
termination
  by (relation "measure (\<lambda>(F, l, s). length (nodes l))") (auto dest: pop_nodes)

declare eraseAllButList.simps [simp del]

text \<open>The loop of \<open>command\<close> over the neighbours of the node \<open>current\<close>.\<close>

function relax :: "'d fp \<Rightarrow> point_i \<Rightarrow> 'd node_t \<Rightarrow> 'd l_list_t \<Rightarrow> 'd l_list_t \<Rightarrow> 'd l_list_t \<Rightarrow> 'd l_list_t outcome" where
  "relax F goal current closed_set neighbors open_set =
     (case pop F neighbors of
        None \<Rightarrow> Inl NullDereference
      | Some (curr_neigh, rest) \<Rightarrow>
          (if curr_neigh = NULL then Inr open_set
           else if findNode closed_set curr_neigh \<noteq> NULL then relax F goal current closed_set rest open_set
           else
             (let x = nd_x curr_neigh; y = nd_y curr_neigh;
                  tent_g_score = f_add F (g_score current) (estDistance F x y (nd_x current) (nd_y current));
                  neigh_from_open = findNode open_set curr_neigh in
              if neigh_from_open = NULL \<or> f_lt F tent_g_score (g_score neigh_from_open) then
                (let updated = Node x y tent_g_score current;
                     f_score = f_add F tent_g_score (estDistanceG F goal x y) in
                 then_do (or_fault NullDereference (addNode F (removeNode open_set updated) updated f_score))
                   (relax F goal current closed_set rest))
              else relax F goal current closed_set rest open_set)))"
  by pat_completeness auto
termination
  by (relation "measure (\<lambda>(F, g, c, cs, l, os). length (nodes l))") (auto dest: pop_nodes)

declare relax.simps [simp del]

text \<open>The extraction of the path: the goal first, then its predecessors, each pushed in front.\<close>

primrec extract_path :: "'d fp \<Rightarrow> 'd node_t \<Rightarrow> 'd l_list_t \<Rightarrow> 'd l_list_t" where
  "extract_path F NULL path = path"
| "extract_path F (Node x y g b) path = extract_path F b (push F path (Node x y g b))"

text \<open>
  The main loop of \<open>command\<close>. The result is the path and whether a solution was found; without one
  the path is the old one.
\<close>

fun search :: "nat \<Rightarrow> 'd fp \<Rightarrow> obs_map \<Rightarrow> point_i \<Rightarrow> 'd l_list_t \<Rightarrow> 'd l_list_t \<Rightarrow> 'd l_list_t \<Rightarrow>
    ('d l_list_t \<times> bool) outcome" where
  "search 0 F m goal path closed_set open_set = Inl OutOfFuel"
| "search (Suc fuel) F m goal path closed_set open_set =
     (if open_set = [] then Inr (path, False)
      else
        then_do (or_fault NullDereference (pop F open_set)) (\<lambda>(current, open1).
          if current \<noteq> NULL \<and> nodeEqauls current (newNode (pi_x goal) (pi_y goal) (f_lit F 0)) then
            then_do (or_fault NullDereference (eraseList F path)) (\<lambda>path0.
              let new_path = extract_path F current path0 in
              then_do (or_fault NullDereference (eraseList F open1)) (\<lambda>_.
                then_do (eraseAllButList F closed_set new_path) (\<lambda>_. Inr (new_path, True))))
          else if current = NULL then Inr (path, False)
          else
            then_do (or_fault NullDereference
                (addNode F closed_set current (estDistanceG F goal (nd_x current) (nd_y current)))) (\<lambda>closed1.
              then_do (genNeighbors F m current) (\<lambda>neighbors.
                then_do (relax F goal current closed1 neighbors open1)
                  (search fuel F m goal path closed1)))))"

text \<open>The search of \<open>command\<close> from the robot's cell, with fuel for every cell and one more round.\<close>

definition plan :: "'d fp \<Rightarrow> obs_map \<Rightarrow> point_i \<Rightarrow> point_i \<Rightarrow> 'd l_list_t \<Rightarrow> ('d l_list_t \<times> bool) outcome" where
  "plan F m pose goal path =
     then_do (or_fault NullDereference
         (addNode F (newList F) (newNode (pi_x pose) (pi_y pose) (f_lit F 0)) (estDistanceG F goal (pi_x pose) (pi_y pose))))
       (search 6401 F m goal path (newList F))"

section \<open>Waypoints\<close>

definition sendWaypoints :: "'d fp \<Rightarrow> os \<Rightarrow> ('d, 'a) a_star_scheme \<Rightarrow> (os \<times> ('d, 'a) a_star_scheme) outcome" where
  "sendWaypoints F k c =
     (let c0 = c\<lparr>current_goal := NULL, n_current_goal := NULL\<rparr>;
          bits = (\<lambda>q. f_bits F (f_lit F q)) in
      then_do (or_fault NullDereference (pop F (goal_path c0))) (\<lambda>(cg, path1).
        let c1 = c0\<lparr>current_goal := cg, goal_path := path1\<rparr> in
        if cg = NULL then
          then_do (pipe_at c1 (way_res_index c1)) (\<lambda>p.
            Inr (fst (commSendWaypoints k p (bits 7) (bits 7) (bits 0) (bits 7) (bits 7) (bits 0)), c1))
        else
          (let goal_p = degridify F (nd_x cg) (nd_y cg) in
           then_do (or_fault NullDereference (pop F (goal_path c1))) (\<lambda>(ncg, path2).
             let c2 = c1\<lparr>n_current_goal := ncg, goal_path := path2\<rparr> in
             if ncg = NULL then Inr (k, c2)
             else
               (let n_goal_p = degridify F (nd_x ncg) (nd_y ncg) in
                then_do (pipe_at c2 (way_res_index c2)) (\<lambda>p.
                  Inr (fst (commSendWaypoints k p (f_bits F (pd_x goal_p)) (f_bits F (pd_y goal_p)) (bits 0)
                         (f_bits F (pd_x n_goal_p)) (f_bits F (pd_y n_goal_p)) (bits 0)), c2)))))))"

definition command :: "'d fp \<Rightarrow> os \<Rightarrow> ('d, 'a) a_star_scheme \<Rightarrow> (os \<times> ('d, 'a) a_star_scheme) outcome" where
  "command F k c =
     then_do (plan F (as_map c) (as_pose c) (as_goal c) (goal_path c)) (\<lambda>(path, solution).
       let c1 = c\<lparr>goal_path := path\<rparr> in
       if \<not> solution then Inr (k, c1)
       else
         (let node_a = peek (goal_path c1) 0; node_b = peek (goal_path c1) 1 in
          if nodeEqauls node_a (current_goal c1) \<and> nodeEqauls node_b (n_current_goal c1) then Inr (k, c1)
          else sendWaypoints F k c1))"

section \<open>The loop\<close>

text \<open>The obstacles of an update, marked one after the other.\<close>

fun mark_obstacles :: "(int \<times> int) list \<Rightarrow> obs_map \<Rightarrow> obs_map outcome" where
  "mark_obstacles [] m = Inr m"
| "mark_obstacles ((x, y) # os) m = then_do (obs_set m x y) (mark_obstacles os)"

definition take_update :: "comm_map_update \<Rightarrow> obs_map \<Rightarrow> ('d, 'a) a_star_scheme \<Rightarrow> ('d, 'a) a_star_scheme" where
  "take_update u m c =
     (let c2 = c\<lparr>as_pose := \<lparr>pi_x = mu_pose_x u, pi_y = mu_pose_y u\<rparr>, as_map := m\<rparr> in
      if insertSDC c2 then c2\<lparr>insertSDC := False, fake_hash := fake_hash c2 + 1\<rparr> else c2)"

definition on_update :: "'d fp \<Rightarrow> os \<Rightarrow> ('d, 'a) a_star_scheme \<Rightarrow> (os \<times> ('d, 'a) a_star_scheme) outcome" where
  "on_update F k c =
     then_do (pipe_at c (updates_index c)) (\<lambda>p.
       then_do (or_fault OutOfBounds (commRecvMapUpdate k p (as_recv c))) (\<lambda>(k1, u, read_ret).
         let c1 = c\<lparr>as_recv := u\<rparr>; n = nat (mu_obs_count u) in
         if read_ret > 0 then
           (if length (mu_obs_x u) < n \<or> length (mu_obs_y u) < n then Inl OutOfBounds
            else
              then_do (mark_obstacles (zip (take n (mu_obs_x u)) (take n (mu_obs_y u))) (as_map c1)) (\<lambda>m.
                let c3 = take_update u m c1 in
                then_do (pipe_at c3 (ack_index c3)) (\<lambda>ap.
                  let k2 = fst (commSendAck k1 ap (fake_hash c3)) in
                  if mu_obs_count u > 0 then command F k2 c3 else Inr (k2, c3))))
         else Inr (k1, c1)))"

definition on_request :: "'d fp \<Rightarrow> os \<Rightarrow> ('d, 'a) a_star_scheme \<Rightarrow> (os \<times> ('d, 'a) a_star_scheme) outcome" where
  "on_request F k c =
     then_do (pipe_at c (way_req_index c)) (\<lambda>p.
       case os_read k (tp_in p) 4 of
         (k1, None) \<Rightarrow> Inr (k1, c)
       | (k1, Some bs) \<Rightarrow>
           (if bs = [] then Inr (k1, c)
            else if goal_path c = [] then Inl NullDereference
            else if fst (hd (goal_path c)) = NULL then
              (let bits = (\<lambda>q. f_bits F (f_lit F q)) in
               then_do (pipe_at c (way_res_index c)) (\<lambda>wp.
                 Inr (fst (commSendWaypoints k1 wp (bits 7) (bits 7) (bits 0) (bits 7) (bits 7) (bits 0)), c)))
            else sendWaypoints F k1 c))"

text \<open>
  One round of \<open>enterLoop\<close>. The set that \<open>select\<close> leaves is fixed before the first handler runs.
\<close>

definition enterLoop :: "'d fp \<Rightarrow> os \<Rightarrow> ('d, 'a) a_star_scheme \<Rightarrow> (os \<times> ('d, 'a) a_star_scheme) outcome" where
  "enterLoop F k c =
     (if insertCFE c then Inl Hangs
      else
        then_do (pipe_at c (updates_index c)) (\<lambda>up.
          then_do (pipe_at c (way_req_index c)) (\<lambda>rp.
            let ready = os_select k [tp_in up, tp_in rp] in
            if ready = [] then Inr (k, c)
            else
              then_do (if tp_in up \<in> set ready then on_update F k c else Inr (k, c)) (\<lambda>(k1, c1).
                then_do (pipe_at c1 (way_req_index c1)) (\<lambda>rp1.
                  if tp_in rp1 \<in> set ready then on_request F k1 c1 else Inr (k1, c1))))))"

section \<open>Start\<close>

text \<open>
  \<open>parseArgs\<close>: \<open>argv\<close> has its \<open>argc\<close> strings; reading beyond them is undefined. More pipes than the
  array holds, asked from the server, are a store outside it.
\<close>

definition parseArgs :: "fd_offer \<Rightarrow> pid \<Rightarrow> os \<Rightarrow> string list \<Rightarrow> ('d, 'a) a_star_scheme \<Rightarrow>
    (os \<times> ('d, 'a) a_star_scheme \<times> int) outcome" where
  "parseArgs S pid k argv c =
     (if length argv < 3 then Inl Undefined
      else
        (let c1 = c\<lparr>c_priority := atoi (argv ! 1), c_pipe_count := atoi (argv ! 2)\<rparr> in
         if length argv < 6 then
           (if int (length (c_pipes c1)) < c_pipe_count c1 then Inl OutOfBounds
            else then_do (connect_pipes S pid k c1 (nat (c_pipe_count c1)) (c_name c1)) (\<lambda>(k1, c2, _).
              Inr (k1, setPipeIndexes c2, 0)))
         else
           then_do (read_pipe_args (drop 3 argv) 0 (c_pipes c1)) (\<lambda>ps.
             Inr (k, setPipeIndexes (c1\<lparr>c_pipes := ps\<rparr>), 0))))"

text \<open>
  \<open>main\<close> up to the loop: \<open>globals\<close> are the initial values of the globals and \<open>fl\<close> the outcomes of the
  calls of \<open>sigaction\<close>. The goal is the point (7, 7); the calls of \<open>mallopt\<close> only tune the allocator.
\<close>

definition a_star_globals :: "'d fp \<Rightarrow> 'd a_star" where
  "a_star_globals F =
     \<lparr>c_name = ''AStar'', c_priority = 0, c_pipe_count = int PIPE_COUNT,
      c_pipes = replicate PIPE_COUNT blank_pipe, insertSDC = False, insertCFE = False,
      as_map = (\<lambda>x y. False), as_goal = \<lparr>pi_x = 0, pi_y = 0\<rparr>, as_pose = \<lparr>pi_x = 0, pi_y = 0\<rparr>,
      updates_index = 0, ack_index = 0, way_req_index = 0, way_res_index = 0,
      goal_path = [], current_goal = NULL, n_current_goal = NULL, fake_hash = 42,
      as_recv = \<lparr>mu_pose_x = 0, mu_pose_y = 0, mu_obs_count = 0,
        mu_obs_x = replicate 200 0, mu_obs_y = replicate 200 0\<rparr>\<rparr>"

definition main_init :: "'d fp \<Rightarrow> bool \<times> bool \<times> bool \<Rightarrow> tas_env \<Rightarrow> fd_offer \<Rightarrow> pid \<Rightarrow> os \<Rightarrow> string list \<Rightarrow>
    (os \<times> 'd a_star \<times> int) outcome" where
  "main_init F fl E S pid k argv =
     then_do (parseArgs S pid k argv (a_star_globals F)) (\<lambda>(k1, c1, r).
       if r < 0 then Inr (k1, c1, - 1)
       else then_do (initController (fst fl) (fst (snd fl)) (snd (snd fl)) E pid k1 c1) (\<lambda>(k2, r2).
         if r2 < 0 then Inr (k2, c1, - 1)
         else Inr (k2, c1\<lparr>as_goal := gridify F \<lparr>pd_x = f_lit F 7, pd_y = f_lit F 7\<rparr>, goal_path := newList F,
                          as_map := (\<lambda>x y. False)\<rparr>, 0)))"

section \<open>Moves\<close>

text \<open>
  The moves of the robot on the grid: to a free cell next to its own, and across a corner only if one
  of the two cells beside the corner is free.
\<close>

definition moves :: "obs_map \<Rightarrow> int \<times> int \<Rightarrow> int \<times> int \<Rightarrow> bool" where
  "moves m a b \<longleftrightarrow> a \<noteq> b \<and> \<bar>fst b - fst a\<bar> \<le> 1 \<and> \<bar>snd b - snd a\<bar> \<le> 1 \<and> \<not> m (fst b) (snd b) \<and>
     (fst b \<noteq> fst a \<and> snd b \<noteq> snd a \<longrightarrow> \<not> m (fst b) (snd a) \<or> \<not> m (fst a) (snd b))"

definition interior :: "int \<times> int \<Rightarrow> bool" where
  "interior a \<longleftrightarrow> 0 < fst a \<and> fst a < GRID_NUM - 1 \<and> 0 < snd a \<and> snd a < GRID_NUM - 1"

definition shift :: "int \<times> int \<Rightarrow> int \<times> int \<Rightarrow> int \<times> int" where
  "shift a d = (fst a + fst d, snd a + snd d)"

lemma gen_neighbor_sound:
  assumes "gen_neighbor F m node d list = Inr list'" "sound list" "d \<in> set offsets"
  shows "sound list'"
    "coord ` set (nodes list') = coord ` set (nodes list) \<union> (if moves m (coord node) (shift (coord node) d) then {shift (coord node) d} else {})"
    "length (nodes list') = length (nodes list) + (if moves m (coord node) (shift (coord node) d) then 1 else 0)"
    "d \<noteq> (0, 0) \<longrightarrow> in_grid (nd_x node + fst d) (nd_y node + snd d)"
proof -
  let ?n = "newNode (nd_x node + fst d) (nd_y node + snd d) (f_lit F 0)"
  let ?b = "shift (coord node) d"
  have d: "d = (fst d, snd d)" "fst d \<in> {- 1, 0, 1}" "snd d \<in> {- 1, 0, 1}" using assms(3) by (auto simp: offsets_def)
  have b: "coord ?n = ?b" by (simp add: shift_def coord_def newNode_def)
  obtain l2 where l2: "addNode F list ?n (f_lit F 0) = Some l2" "sound l2" "mset (nodes l2) = add_mset ?n (mset (nodes list))"
    using addNode_sound [OF assms(2) newNode_not_NULL] by blast
  have set2: "set (nodes l2) = insert ?n (set (nodes list))" using arg_cong [OF l2(3), of set_mset] by simp
  have len2: "length (nodes l2) = length (nodes list) + 1" using arg_cong [OF l2(3), of size] by simp
  have "list' = (if moves m (coord node) ?b then l2 else list) \<and> (d \<noteq> (0, 0) \<longrightarrow> in_grid (nd_x node + fst d) (nd_y node + snd d))"
    using assms(1) l2(1) d unfolding gen_neighbor_def Let_def
    by (auto simp: then_do_Inr obs_at_def moves_def shift_def coord_def prod_eq_iff split: if_splits)
  then show "sound list'" "coord ` set (nodes list') = coord ` set (nodes list) \<union> (if moves m (coord node) ?b then {?b} else {})"
    "length (nodes list') = length (nodes list) + (if moves m (coord node) ?b then 1 else 0)"
    "d \<noteq> (0, 0) \<longrightarrow> in_grid (nd_x node + fst d) (nd_y node + snd d)"
    using assms(2) l2(2) set2 len2 b by auto
qed

lemma gen_neighbor_fault:
  assumes "gen_neighbor F m node d list = Inl e" "sound list" "d \<in> set offsets"
  shows "e = OutOfBounds \<and> \<not> interior (coord node)"
proof -
  have d: "fst d \<in> {- 1, 0, 1}" "snd d \<in> {- 1, 0, 1}" using assms(3) by (auto simp: offsets_def)
  obtain l2 where "addNode F list (newNode (nd_x node + fst d) (nd_y node + snd d) (f_lit F 0)) (f_lit F 0) = Some l2"
    using addNode_sound [OF assms(2) newNode_not_NULL] by blast
  then have "gen_neighbor F m node d list = Inl e \<Longrightarrow>
      e = OutOfBounds \<and> (\<not> in_grid (nd_x node + fst d) (nd_y node + snd d) \<or>
        \<not> in_grid (nd_x node + fst d) (nd_y node) \<or> \<not> in_grid (nd_x node) (nd_y node + snd d))"
    unfolding gen_neighbor_def Let_def
    by (simp add: then_do_Inl obs_at_def split: if_splits)
  then show ?thesis
    using assms(1) d by (auto simp: in_grid_def interior_def coord_def)
qed

lemma gen_loop_sound:
  assumes "gen_loop F m node ds list = Inr list'" "sound list" "set ds \<subseteq> set offsets"
  shows "sound list' \<and>
    coord ` set (nodes list') = coord ` set (nodes list) \<union> {b. \<exists>d \<in> set ds. b = shift (coord node) d \<and> moves m (coord node) b} \<and>
    length (nodes list') = length (nodes list) + length (filter (\<lambda>d. moves m (coord node) (shift (coord node) d)) ds) \<and>
    (\<forall>d \<in> set ds. d \<noteq> (0, 0) \<longrightarrow> in_grid (nd_x node + fst d) (nd_y node + snd d))"
  using assms
proof (induction ds arbitrary: list)
  case (Cons d ds)
  obtain l1 where l1: "gen_neighbor F m node d list = Inr l1" "gen_loop F m node ds l1 = Inr list'"
    using Cons.prems(1) by (auto simp: then_do_Inr)
  have d: "d \<in> set offsets" "set ds \<subseteq> set offsets" using Cons.prems(3) by simp_all
  note G = gen_neighbor_sound [OF l1(1) Cons.prems(2) d(1)]
  show ?case
  proof (intro conjI)
    note IH = Cons.IH [OF l1(2) G(1) d(2)]
    show "sound list'" using IH by blast
    show "coord ` set (nodes list') = coord ` set (nodes list) \<union>
        {b. \<exists>d \<in> set (d # ds). b = shift (coord node) d \<and> moves m (coord node) b}"
      using conjunct1 [OF conjunct2 [OF IH]] G(2) by (auto split: if_splits)
    show "length (nodes list') = length (nodes list) + length (filter (\<lambda>d. moves m (coord node) (shift (coord node) d)) (d # ds))"
      using IH G(3) by simp
    show "\<forall>d \<in> set (d # ds). d \<noteq> (0, 0) \<longrightarrow> in_grid (nd_x node + fst d) (nd_y node + snd d)"
      using IH G(4) by simp
  qed
qed simp

lemma gen_loop_fault:
  assumes "gen_loop F m node ds list = Inl e" "sound list" "set ds \<subseteq> set offsets"
  shows "e = OutOfBounds \<and> \<not> interior (coord node)"
  using assms
proof (induction ds arbitrary: list)
  case (Cons d ds)
  have d: "d \<in> set offsets" "set ds \<subseteq> set offsets" using Cons.prems(3) by simp_all
  consider "gen_neighbor F m node d list = Inl e"
    | l1 where "gen_neighbor F m node d list = Inr l1" "gen_loop F m node ds l1 = Inl e"
    using Cons.prems(1) by (auto simp: then_do_Inl)
  then show ?case
  proof cases
    case 1
    then show ?thesis using gen_neighbor_fault Cons.prems(2) d(1) by blast
  next
    case 2
    then show ?thesis using Cons.IH gen_neighbor_sound(1) Cons.prems(2) d by blast
  qed
qed simp

lemma shift_offsets:
  assumes "moves m a b"
  shows "\<exists>d \<in> set offsets. b = shift a d"
proof -
  have "\<bar>fst b - fst a\<bar> \<le> 1" "\<bar>snd b - snd a\<bar> \<le> 1" using assms by (simp_all add: moves_def)
  then have "fst b - fst a \<in> {- 1, 0, 1}" "snd b - snd a \<in> {- 1, 0, 1}" by auto
  then have "(fst b - fst a, snd b - snd a) \<in> set offsets" by (auto simp: offsets_def)
  moreover have "b = shift a (fst b - fst a, snd b - snd a)" by (simp add: shift_def)
  ultimately show ?thesis by blast
qed

lemma genNeighbors_sound:
  assumes "genNeighbors F m node = Inr l"
  shows "sound l" "coord ` set (nodes l) = {b. moves m (coord node) b}" "distinct (map coord (nodes l))"
    "interior (coord node)"
proof -
  let ?ds = "filter (\<lambda>d. moves m (coord node) (shift (coord node) d)) offsets"
  note G = gen_loop_sound [OF assms [unfolded genNeighbors_def] sound_newList subset_refl]
  show "sound l" using G by blast
  have "coord ` set (nodes l) = {b. \<exists>d \<in> set offsets. b = shift (coord node) d \<and> moves m (coord node) b}"
    using G by simp
  then show eq: "coord ` set (nodes l) = {b. moves m (coord node) b}" using shift_offsets [of m "coord node"] by blast
  have "distinct ?ds" by (simp add: offsets_def)
  moreover have "inj_on (shift (coord node)) (set ?ds)" by (auto simp: inj_on_def shift_def prod_eq_iff)
  ultimately have "card (shift (coord node) ` set ?ds) = length ?ds"
    using distinct_card [of ?ds] by (simp only: card_image)
  moreover have "shift (coord node) ` set ?ds = {b. moves m (coord node) b}"
    using shift_offsets [of m "coord node"] unfolding set_filter by (fastforce simp: image_iff)
  ultimately show "distinct (map coord (nodes l))" using G eq by (simp add: card_distinct)
  have "in_grid (nd_x node - 1) (nd_y node - 1)" "in_grid (nd_x node + 1) (nd_y node + 1)"
    using G by (simp_all add: offsets_def)
  then show "interior (coord node)" by (auto simp: in_grid_def interior_def coord_def)
qed

text \<open>
  (C15) \<open>genNeighbors\<close> lists the moves of the robot: for a cell off the border of the grid it returns
  every move exactly once and nothing else. For a cell on the border, or outside, it reads the map out
  of bounds.
\<close>

theorem genNeighbors_lists_moves:
  "if interior (coord node)
   then \<exists>l. genNeighbors F m node = Inr l \<and> sound l \<and> distinct (map coord (nodes l)) \<and>
     coord ` set (nodes l) = {b. moves m (coord node) b}
   else genNeighbors F m node = Inl OutOfBounds"
proof (cases "genNeighbors F m node")
  case (Inl e)
  then show ?thesis using gen_loop_fault [of F m node offsets "newList F" e] by (auto simp: genNeighbors_def)
next
  case (Inr l)
  then show ?thesis using genNeighbors_sound [OF Inr] by auto
qed

section \<open>The invariant of the search\<close>

text \<open>A node whose back links lead, move by move, to the cell where the search started.\<close>

primrec linked :: "obs_map \<Rightarrow> int \<times> int \<Rightarrow> 'd node_t \<Rightarrow> bool" where
  "linked m s NULL \<longleftrightarrow> False"
| "linked m s (Node x y g b) \<longleftrightarrow> (if b = NULL then (x, y) = s else moves m (coord b) (x, y) \<and> linked m s b)"

lemma linked_not_NULL: "linked m s n \<Longrightarrow> n \<noteq> NULL"
  by auto

text \<open>The cells of a list.\<close>

abbreviation cells :: "'d l_list_t \<Rightarrow> (int \<times> int) set" where
  "cells l \<equiv> coord ` set (nodes l)"

definition frontier :: "obs_map \<Rightarrow> int \<times> int \<Rightarrow> 'd l_list_t \<Rightarrow> 'd l_list_t \<Rightarrow> bool" where
  "frontier m s cl op \<longleftrightarrow> sound op \<and> distinct (map coord (nodes op)) \<and> cells cl \<inter> cells op = {} \<and>
     (\<forall>n \<in> set (nodes op). linked m s n)"

lemma frontier_add:
  assumes "frontier m s cl op" "removeNode op n \<noteq> []" "linked m s n" "coord n \<notin> cells cl"
    "addNode F (removeNode op n) n v = Some op'"
  shows "frontier m s cl op' \<and> cells op' = insert (coord n) (cells op)"
proof -
  have n: "n \<noteq> NULL" using linked_not_NULL assms(3) by blast
  have F: "sound op" "distinct (map coord (nodes op))" "cells cl \<inter> cells op = {}" "\<forall>n \<in> set (nodes op). linked m s n"
    using assms(1) unfolding frontier_def by blast+
  note R = removeNode_sound [OF F(1) n F(2)]
  obtain l' where l': "addNode F (removeNode op n) n v = Some l'" "sound l'"
      "mset (nodes l') = add_mset n (mset (nodes (removeNode op n)))"
    using addNode_sound [OF _ n] R(1) assms(2) by blast
  have op': "op' = l'" using l'(1) assms(5) by simp
  have set: "set (nodes op') = insert n {q \<in> set (nodes op). coord q \<noteq> coord n}"
    using arg_cong [OF l'(3), of set_mset] R(2) op' by simp
  have "mset (map coord (nodes op')) = add_mset (coord n) (mset (map coord (nodes (removeNode op n))))"
    using arg_cong [OF l'(3), of "image_mset coord"] op' by simp
  then have "mset (map coord (nodes op')) = mset (coord n # map coord (nodes (removeNode op n)))" by simp
  moreover have "distinct (coord n # map coord (nodes (removeNode op n)))"
    using F(2) R(2) by (auto simp: distinct_map inj_on_def)
  ultimately have "distinct (map coord (nodes op'))" using mset_eq_imp_distinct_iff by blast
  then show ?thesis using l'(2) op' set F(3,4) assms(3,4) unfolding frontier_def by auto
qed

lemma relax_frontier:
  assumes "relax F goal current cl nb op = Inr op'" "sound cl" "sound nb" "frontier m s cl op"
    "linked m s current" "\<forall>b \<in> cells nb. moves m (coord current) b"
  shows "frontier m s cl op' \<and> cells op' = cells op \<union> (cells nb - cells cl)"
  using assms
proof (induction F goal current cl nb op rule: relax.induct)
  case (1 F goal current cl nb op)
  obtain n rest where pop: "pop F nb = Some (n, rest)" using pop_sound_Some [OF 1(6)] by blast
  note P = pop_soundE [OF 1(6) pop]
  note run = 1(4) [unfolded relax.simps [of F goal current cl nb op], simplified pop, simplified]
  show ?case
  proof (cases "n = NULL")
    case True
    then show ?thesis using run P(2) 1(7) by simp
  next
    case n: False
    have nb: "cells nb = insert (coord n) (cells rest)" using P(3) [OF n] by simp
    have mv: "\<forall>b \<in> cells rest. moves m (coord current) b" "moves m (coord current) (coord n)" using 1(9) nb by auto
    have cl: "findNode cl n \<noteq> NULL \<longleftrightarrow> coord n \<in> cells cl" using findNode_iff [OF 1(5) n] by blast
    let ?t = "f_add F (g_score current) (estDistance F (nd_x n) (nd_y n) (nd_x current) (nd_y current))"
    let ?u = "Node (nd_x n) (nd_y n) ?t current"
    show ?thesis
    proof (cases "findNode cl n \<noteq> NULL")
      case True
      then show ?thesis using 1(1) [OF pop refl n True] run n P(1) 1(5,7,8) mv nb cl by auto
    next
      case c: False
      have u: "linked m s ?u" "coord ?u = coord n"
        using 1(8) mv linked_not_NULL by (auto simp: coord_def)
      show ?thesis
      proof (cases "findNode op n = NULL \<or> f_lt F ?t (g_score (findNode op n))")
        case True
        obtain op1 where op1: "addNode F (removeNode op ?u) ?u (f_add F ?t (estDistanceG F goal (nd_x n) (nd_y n))) = Some op1"
          "relax F goal current cl rest op1 = Inr op'"
          using run n c True by (auto simp: Let_def then_do_Inr or_fault_Inr)
        have "removeNode op ?u \<noteq> []" using op1(1) by auto
        from frontier_add [OF 1(7) this u(1) _ op1(1)]
        have "frontier m s cl op1 \<and> cells op1 = insert (coord n) (cells op)" using u(2) c cl by simp
        then show ?thesis using 1(2) [OF pop refl n _ refl refl refl refl True refl refl op1(2)] c P(1) 1(5,8) mv nb cl
          by (simp add: insert_Diff_if)
      next
        case False
        have "coord n \<in> cells op"
          using findNode_iff [of op n] 1(7) n False unfolding frontier_def by blast
        then show ?thesis using 1(3) [OF pop refl n _ refl refl refl refl False] run n c False P(1) 1(5,7,8) mv nb cl
          by (auto simp: Let_def)
      qed
    qed
  qed
qed

definition search_inv :: "obs_map \<Rightarrow> int \<times> int \<Rightarrow> int \<times> int \<Rightarrow> 'd l_list_t \<Rightarrow> 'd l_list_t \<Rightarrow> bool" where
  "search_inv m s g cl op \<longleftrightarrow> sound cl \<and> frontier m s cl op \<and> distinct (map coord (nodes cl)) \<and>
     (\<forall>a \<in> cells cl. interior a \<and> a \<noteq> g \<and> (\<forall>b. moves m a b \<longrightarrow> b \<in> cells cl \<union> cells op)) \<and> s \<in> cells cl \<union> cells op"

lemma search_round:
  assumes inv: "search_inv m s g cl op" and pop: "pop F op = Some (cur, op1)" and cur: "cur \<noteq> NULL" "coord cur \<noteq> g"
    and cl1: "addNode F cl cur v = Some cl1" and nb: "genNeighbors F m cur = Inr nb"
    and op2: "relax F goal cur cl1 nb op1 = Inr op2"
  shows "search_inv m s g cl1 op2" "length (nodes cl1) = Suc (length (nodes cl))"
    "cells op2 \<subseteq> cells op1 \<union> {b. moves m (coord cur) b}"
proof -
  have I: "sound cl" "frontier m s cl op" "distinct (map coord (nodes cl))"
    using inv unfolding search_inv_def by blast+
  have closed: "interior a \<and> a \<noteq> g \<and> (\<forall>b. moves m a b \<longrightarrow> b \<in> cells cl \<union> cells op)" if "a \<in> cells cl" for a
    using inv that unfolding search_inv_def by metis
  from I have F: "sound op" "distinct (map coord (nodes op))" "cells cl \<inter> cells op = {}" "\<forall>n \<in> set (nodes op). linked m s n"
    unfolding frontier_def by blast+
  note P = pop_soundE [OF F(1) pop]
  have op: "nodes op = cur # nodes op1" using P(3) cur by blast
  obtain c' where c': "sound c'" "mset (nodes c') = add_mset cur (mset (nodes cl))" "c' = cl1"
    using addNode_sound [OF I(1) cur(1), of F v] cl1 by auto
  have set1: "set (nodes cl1) = insert cur (set (nodes cl))"
    using arg_cong [OF c'(2), of set_mset] c'(3) by simp
  have "mset (map coord (nodes cl1)) = mset (coord cur # map coord (nodes cl))"
    using arg_cong [OF c'(2), of "image_mset coord"] c'(3) by simp
  moreover have "distinct (coord cur # map coord (nodes cl))" using I(3) F(3) op by auto
  ultimately have dist: "distinct (map coord (nodes cl1))" using mset_eq_imp_distinct_iff by blast
  have fr: "frontier m s cl1 op1" using F op P(1) set1 unfolding frontier_def by auto
  note G = genNeighbors_sound [OF nb]
  have "linked m s cur" using F(4) op by simp
  from relax_frontier [OF op2 _ G(1) fr this] c'(1,3) G(2)
  have R: "frontier m s cl1 op2" "cells op2 = cells op1 \<union> ({b. moves m (coord cur) b} - cells cl1)" by auto
  have all: "cells cl \<union> cells op \<subseteq> cells cl1 \<union> cells op2" unfolding R(2) set1 op by auto
  have "interior a \<and> a \<noteq> g \<and> (\<forall>b. moves m a b \<longrightarrow> b \<in> cells cl1 \<union> cells op2)" if "a \<in> cells cl1" for a
  proof (cases "a = coord cur")
    case True
    have "\<forall>b. moves m (coord cur) b \<longrightarrow> b \<in> cells cl1 \<union> cells op2" unfolding R(2) by blast
    then show ?thesis using G(4) cur(2) True by blast
  next
    case False
    then have "a \<in> cells cl" using that unfolding set1 by blast
    then show ?thesis using closed [of a] all by blast
  qed
  moreover have "s \<in> cells cl1 \<union> cells op2" using inv all unfolding search_inv_def by blast
  ultimately show "search_inv m s g cl1 op2" using c'(1,3) R(1) dist unfolding search_inv_def by blast
  show "cells op2 \<subseteq> cells op1 \<union> {b. moves m (coord cur) b}" unfolding R(2) by blast
  show "length (nodes cl1) = Suc (length (nodes cl))" using arg_cong [OF c'(2), of size] c'(3) by simp
qed

text \<open>The path of a node: the cells from the start to it.\<close>

primrec trail :: "'d node_t \<Rightarrow> (int \<times> int) list" where
  "trail NULL = []"
| "trail (Node x y g b) = trail b @ [(x, y)]"

definition walk :: "obs_map \<Rightarrow> int \<times> int \<Rightarrow> int \<times> int \<Rightarrow> (int \<times> int) list \<Rightarrow> bool" where
  "walk m s g p \<longleftrightarrow> p \<noteq> [] \<and> hd p = s \<and> last p = g \<and> successively (moves m) p"

lemma trail_walk: "linked m s n \<Longrightarrow> walk m s (coord n) (trail n)"
proof (induction n)
  case (Node x y g b)
  then show ?case
    by (cases "b = NULL") (auto simp: walk_def successively_append_iff)
qed simp

lemma extract_path_nodes: "map coord (nodes (extract_path F n p)) = trail n @ map coord (nodes p)"
  by (induction n arbitrary: p) (simp_all add: push_def)

lemma eraseList_sound: "sound l \<Longrightarrow> eraseList F l = Some (newList F)"
proof (induction F l rule: eraseList.induct)
  case (1 F l)
  obtain n l' where pop: "pop F l = Some (n, l')" using pop_sound_Some [OF 1(2)] by blast
  note P = pop_soundE [OF 1(2) pop]
  show ?case
  proof (cases "n = NULL")
    case True
    then have "l' = newList F" using pop P(2) sound_Nil_cell [OF 1(2)] by (auto simp: pop_def)
    then show ?thesis using True pop by (subst eraseList.simps) simp
  next
    case False
    then show ?thesis using 1(1) [OF pop refl] P(1) pop by (subst eraseList.simps) simp
  qed
qed

text \<open>
  The nodes of a path that \<open>push\<close> built end with an empty cell.
\<close>

definition path_list :: "'d l_list_t \<Rightarrow> bool" where
  [wf_simps]: "path_list l \<longleftrightarrow> (\<exists>ns s. l = ns @ [(NULL, s)] \<and> (\<forall>c \<in> set ns. fst c \<noteq> NULL))"

lemma path_list_Cons: "path_list ((h, s) # t) \<longleftrightarrow> (if h = NULL then t = [] else path_list t)"
  unfolding path_list_def
  by (cases t rule: rev_cases) (auto simp: Cons_eq_append_conv append_eq_Cons_conv)

lemma path_list_newList [simp]: "path_list (newList F)"
  by (simp add: newList_def path_list_Cons)

lemma path_list_push [simp]: "n \<noteq> NULL \<Longrightarrow> path_list l \<Longrightarrow> path_list (push F l n)"
  by (simp add: push_def path_list_Cons)

lemma path_list_extract: "path_list p \<Longrightarrow> path_list (extract_path F n p)"
  by (induction n arbitrary: p) simp_all

lemma path_list_pop: "path_list l \<Longrightarrow> \<exists>n l'. pop F l = Some (n, l') \<and> path_list l' \<and> (n = NULL \<longrightarrow> nodes l = [] \<and> l' = newList F)"
  by (cases l) (auto simp: pop_def path_list_Cons split: if_splits, auto simp: path_list_def)

lemma eraseList_path: "path_list l \<Longrightarrow> eraseList F l = Some (newList F)"
proof (induction F l rule: eraseList.induct)
  case (1 F l)
  obtain n l' where pop: "pop F l = Some (n, l')" "path_list l'" "n = NULL \<longrightarrow> l' = newList F"
    using path_list_pop [OF 1(2)] by blast
  then show ?case using 1(1) [OF pop(1) refl] by (subst eraseList.simps) auto
qed

lemma eraseAllButList_sound: "sound l \<Longrightarrow> \<exists>freed. eraseAllButList F l save = Inr freed"
proof (induction F l save rule: eraseAllButList.induct)
  case (1 F l save)
  obtain n l' where pop: "pop F l = Some (n, l')" using pop_sound_Some [OF 1(2)] by blast
  show ?case
  proof (cases "n = NULL")
    case True
    then show ?thesis using pop by (subst eraseAllButList.simps) simp
  next
    case False
    then show ?thesis using 1(1) [OF pop refl False] pop_soundE(1) [OF 1(2) pop] pop
      by (subst eraseAllButList.simps) auto
  qed
qed

lemma relax_fault: "relax F goal current cl nb op = Inl e \<Longrightarrow> e = NullDereference"
proof (induction F goal current cl nb op rule: relax.induct)
  case (1 F goal current cl nb op)
  show ?case
  proof (cases "pop F nb")
    case None
    then show ?thesis using 1(4) by (simp add: relax.simps [of F goal current cl nb op])
  next
    case (Some q)
    then obtain n rest where pop: "pop F nb = Some (n, rest)" by (cases q) simp
    note run = 1(4) [unfolded relax.simps [of F goal current cl nb op], simplified pop, simplified]
    let ?t = "f_add F (g_score current) (estDistance F (nd_x n) (nd_y n) (nd_x current) (nd_y current))"
    consider "n = NULL" | "n \<noteq> NULL" "findNode cl n \<noteq> NULL"
      | "n \<noteq> NULL" "\<not> findNode cl n \<noteq> NULL" "findNode op n = NULL \<or> f_lt F ?t (g_score (findNode op n))"
      | "n \<noteq> NULL" "\<not> findNode cl n \<noteq> NULL" "\<not> (findNode op n = NULL \<or> f_lt F ?t (g_score (findNode op n)))"
      by blast
    then show ?thesis
    proof cases
      case 1
      then show ?thesis using run by simp
    next
      case 2
      then show ?thesis using "1.IH"(1) [OF pop refl 2] run by simp
    next
      case 3
      then show ?thesis using "1.IH"(2) [OF pop refl 3(1,2) refl refl refl refl 3(3) refl refl] run
        by (auto simp: Let_def then_do_Inl or_fault_Inl)
    next
      case 4
      then show ?thesis using "1.IH"(3) [OF pop refl 4(1,2) refl refl refl refl 4(3)] run
        by (simp add: Let_def)
    qed
  qed
qed

section \<open>What the search finds\<close>

text \<open>One round of the search: it ends without a path, with one, with a fault, or goes on.\<close>

lemma search_cases:
  assumes inv: "search_inv m s (pi_x goal, pi_y goal) cl op" and path: "path_list path"
  obtains
    (empty) "nodes op = []" "search (Suc fuel) F m goal path cl op = Inr (path, False)"
  | (found) n where "linked m s n" "coord n = (pi_x goal, pi_y goal)"
      "search (Suc fuel) F m goal path cl op = Inr (extract_path F n (newList F), True)"
  | (bounds) n where "n \<in> set (nodes op)" "\<not> interior (coord n)" "search (Suc fuel) F m goal path cl op = Inl OutOfBounds"
  | (null) "search (Suc fuel) F m goal path cl op = Inl NullDereference"
  | (round) n cl1 op2 where "n \<in> set (nodes op)" "interior (coord n)"
      "search_inv m s (pi_x goal, pi_y goal) cl1 op2" "length (nodes cl1) = Suc (length (nodes cl))"
      "cells op2 \<subseteq> cells op \<union> {b. moves m (coord n) b}"
      "search (Suc fuel) F m goal path cl op = search fuel F m goal path cl1 op2"
proof -
  have I: "sound cl" "frontier m s cl op" using inv unfolding search_inv_def by blast+
  then have op: "sound op" "op \<noteq> []" "\<forall>n \<in> set (nodes op). linked m s n"
    using sound_not_Nil unfolding frontier_def by blast+
  obtain n op1 where pop: "pop F op = Some (n, op1)" using pop_sound_Some [OF op(1)] by blast
  note P = pop_soundE [OF op(1) pop]
  let ?goal = "newNode (pi_x goal) (pi_y goal) (f_lit F 0)"
  let ?v = "estDistanceG F goal (nd_x n) (nd_y n)"
  show thesis
  proof (cases "n = NULL")
    case True
    then show thesis using empty P(2) pop op(2) by (simp add: nodeEqauls_iff)
  next
    case n: False
    have nop: "nodes op = n # nodes op1" "linked m s n" using P(3) [OF n] op(3) by auto
    show thesis
    proof (cases "coord n = (pi_x goal, pi_y goal)")
      case True
      obtain freed where "eraseAllButList F cl (extract_path F n (newList F)) = Inr freed"
        using eraseAllButList_sound [OF I(1)] by blast
      then show thesis
        using found [OF nop(2) True] n True pop op(2) eraseList_path [OF path] eraseList_sound [OF P(1)]
        by (simp add: nodeEqauls_iff Let_def)
    next
      case g: False
      obtain cl1 where cl1: "addNode F cl n ?v = Some cl1" using addNode_sound [OF I(1) n] by blast
      have step: "search (Suc fuel) F m goal path cl op = then_do (genNeighbors F m n) (\<lambda>neighbors.
          then_do (relax F goal n cl1 neighbors op1) (search fuel F m goal path cl1))"
        using n g cl1 pop op(2) by (simp add: nodeEqauls_iff)
      show thesis
      proof (cases "genNeighbors F m n")
        case (Inl e)
        then have "e = OutOfBounds" "\<not> interior (coord n)"
          using gen_loop_fault [of F m n offsets "newList F" e] by (auto simp: genNeighbors_def)
        then show thesis using bounds [of n] step Inl nop(1) by simp
      next
        case nb: (Inr nb)
        show thesis
        proof (cases "relax F goal n cl1 nb op1")
          case (Inl e)
          then show thesis using null step nb relax_fault by fastforce
        next
          case (Inr op2)
          note R = search_round [OF inv pop n g cl1 nb Inr]
          have "cells op2 \<subseteq> cells op \<union> {b. moves m (coord n) b}"
            using R(3) nop(1) by auto
          then show thesis
            using round [of n cl1 op2] R genNeighbors_sound(4) [OF nb] nop(1) step nb Inr by simp
        qed
      qed
    qed
  qed
qed

abbreviation cell_of :: "point_i \<Rightarrow> int \<times> int" where
  "cell_of p \<equiv> (pi_x p, pi_y p)"

lemma search_found:
  assumes "search fuel F m goal path cl op = Inr (p, True)" "search_inv m s (cell_of goal) cl op" "path_list path"
  shows "path_list p \<and> walk m s (cell_of goal) (map coord (nodes p))"
  using assms(1,2)
proof (induction fuel arbitrary: cl op)
  case (Suc fuel)
  show ?case
  proof (rule search_cases [OF Suc.prems(2) assms(3), of fuel F])
    fix n assume n: "linked m s n" "coord n = cell_of goal"
      "search (Suc fuel) F m goal path cl op = Inr (extract_path F n (newList F), True)"
    then have p: "p = extract_path F n (newList F)" using Suc.prems(1) by (simp del: search.simps)
    show ?thesis
      unfolding p extract_path_nodes using trail_walk [OF n(1)] n(2) by (simp add: path_list_extract)
  next
    fix n cl1 op2 assume "search_inv m s (cell_of goal) cl1 op2"
      "search (Suc fuel) F m goal path cl op = search fuel F m goal path cl1 op2"
    then show ?thesis using Suc.IH Suc.prems(1) by (simp del: search.simps)
  qed (use Suc.prems(1) in \<open>simp_all del: search.simps\<close>)
qed simp

lemma search_not_found:
  assumes "search fuel F m goal path cl op = Inr (p, False)" "search_inv m s (cell_of goal) cl op" "path_list path"
  shows "p = path \<and> \<not> (moves m)\<^sup>*\<^sup>* s (cell_of goal)"
  using assms(1,2)
proof (induction fuel arbitrary: cl op)
  case (Suc fuel)
  show ?case
  proof (rule search_cases [OF Suc.prems(2) assms(3), of fuel F])
    assume e: "nodes op = []" "search (Suc fuel) F m goal path cl op = Inr (path, False)"
    have closed: "\<forall>a \<in> cells cl. a \<noteq> cell_of goal \<and> (\<forall>b. moves m a b \<longrightarrow> b \<in> cells cl)" "s \<in> cells cl"
      using Suc.prems(2) e(1) unfolding search_inv_def by auto
    have "b \<in> cells cl" if "(moves m)\<^sup>*\<^sup>* s b" for b
      using that by induction (use closed in blast)+
    then have "\<not> (moves m)\<^sup>*\<^sup>* s (cell_of goal)" using closed(1) by metis
    then show ?thesis using e(2) Suc.prems(1) by (simp del: search.simps)
  next
    fix n cl1 op2 assume "search_inv m s (cell_of goal) cl1 op2"
      "search (Suc fuel) F m goal path cl op = search fuel F m goal path cl1 op2"
    then show ?thesis using Suc.IH Suc.prems(1) by (simp del: search.simps)
  qed (use Suc.prems(1) in \<open>simp_all del: search.simps\<close>)
qed simp

text \<open>Every closed cell is an inner cell of the grid, so there are at most 78 times 78 of them.\<close>

lemma closed_bound:
  assumes "search_inv m s g cl op"
  shows "length (nodes cl) \<le> 6084"
proof -
  have "cells cl \<subseteq> {1..78} \<times> {1..78}"
  proof
    fix a assume "a \<in> cells cl"
    then have "interior a" using assms unfolding search_inv_def by metis
    then show "a \<in> {1..78} \<times> {1..78}" by (simp add: interior_def mem_Times_iff)
  qed
  then have "card (cells cl) \<le> card ({1..78 :: int} \<times> {1..78 :: int})" by (intro card_mono) auto
  moreover have "card (cells cl) = length (nodes cl)"
    using assms unfolding search_inv_def by (metis distinct_card length_map set_map)
  ultimately show ?thesis by simp
qed

lemma search_enough_fuel:
  assumes "search_inv m s (cell_of goal) cl op" "path_list path" "6084 < fuel + length (nodes cl)"
  shows "search fuel F m goal path cl op \<noteq> Inl OutOfFuel"
  using assms(1,3)
proof (induction fuel arbitrary: cl op)
  case 0
  then show ?case using closed_bound [OF 0(1)] by simp
next
  case (Suc fuel)
  show ?case
  proof (rule search_cases [OF Suc.prems(1) assms(2), of fuel F])
    fix n cl1 op2 assume r: "search_inv m s (cell_of goal) cl1 op2" "length (nodes cl1) = Suc (length (nodes cl))"
      "search (Suc fuel) F m goal path cl op = search fuel F m goal path cl1 op2"
    show ?thesis unfolding r(3) by (rule Suc.IH [OF r(1)]) (use r(2) Suc.prems(2) in simp)
  qed (simp_all del: search.simps)
qed

text \<open>A map whose border is blocked keeps the search off the border.\<close>

definition walled :: "obs_map \<Rightarrow> bool" where
  "walled m \<longleftrightarrow> (\<forall>x y. in_grid x y \<and> \<not> interior (x, y) \<longrightarrow> m x y)"

lemma moves_interior: "walled m \<Longrightarrow> interior a \<Longrightarrow> moves m a b \<Longrightarrow> interior b"
proof -
  assume w: "walled m" and a: "interior a" and b: "moves m a b"
  have "in_grid (fst b) (snd b)" using a b by (auto simp: interior_def moves_def in_grid_def)
  then show "interior b" using w b unfolding walled_def moves_def by (metis prod.collapse)
qed

lemma search_walled:
  assumes "search_inv m s (cell_of goal) cl op" "path_list path" "walled m" "\<forall>a \<in> cells op. interior a"
  shows "search fuel F m goal path cl op \<noteq> Inl OutOfBounds"
  using assms(1,4)
proof (induction fuel arbitrary: cl op)
  case (Suc fuel)
  show ?case
  proof (rule search_cases [OF Suc.prems(1) assms(2), of fuel F])
    fix n assume "n \<in> set (nodes op)" "\<not> interior (coord n)"
    then show ?thesis using Suc.prems(2) by auto
  next
    fix n cl1 op2 assume r: "interior (coord n)" "search_inv m s (cell_of goal) cl1 op2"
      "cells op2 \<subseteq> cells op \<union> {b. moves m (coord n) b}"
      "search (Suc fuel) F m goal path cl op = search fuel F m goal path cl1 op2"
    have "\<forall>a \<in> cells op2. interior a" using r(1,3) Suc.prems(2) moves_interior [OF assms(3)] by blast
    then show ?thesis unfolding r(4) by (rule Suc.IH [OF r(2)])
  qed (simp_all del: search.simps)
qed simp

lemma search_inv_start:
  "search_inv m (x, y) g (newList F) [(newNode x y v, w)]"
  by (simp add: search_inv_def frontier_def sound_def newList_def newNode_def)

lemma plan_search:
  "plan F m pose goal path = search 6401 F m goal path (newList F)
     [(newNode (pi_x pose) (pi_y pose) (f_lit F 0), estDistanceG F goal (pi_x pose) (pi_y pose))]"
  by (simp add: plan_def newList_def)

text \<open>
  (C12) The planner decides whether the goal can be reached. When the search ends, it reports a
  solution exactly if some sequence of moves leads from the robot's cell to the goal. With a solution
  the new path is such a sequence: it starts at the robot, ends at the goal, and every step is a move
  to a free cell that cuts no blocked corner. Without one the old path is kept.
\<close>

theorem plan_decides_reachability:
  assumes "path_list path" "plan F m pose goal path = Inr (p, solution)"
  shows "solution = (moves m)\<^sup>*\<^sup>* (cell_of pose) (cell_of goal) \<and>
    (if solution then walk m (cell_of pose) (cell_of goal) (map coord (nodes p)) else p = path)"
proof (cases solution)
  case True
  then have run: "plan F m pose goal path = Inr (p, True)" using assms(2) by simp
  then have w: "walk m (cell_of pose) (cell_of goal) (map coord (nodes p))"
    using search_found [OF run [unfolded plan_search] search_inv_start assms(1)] by blast
  have "(moves m)\<^sup>*\<^sup>* (hd q) (last q)" if "successively (moves m) q" "q \<noteq> []" for q
    using that by (induction q rule: induct_list012) (auto intro: converse_rtranclp_into_rtranclp)
  then show ?thesis using w True unfolding walk_def by metis
next
  case False
  then have run: "plan F m pose goal path = Inr (p, False)" using assms(2) by simp
  show ?thesis
    using search_not_found [OF run [unfolded plan_search] search_inv_start assms(1)] False by simp
qed

text \<open>
  (C13) The search ends: for every map, start, goal and arithmetic it needs no more rounds than the
  grid has cells, so the bound of the model is never the reason for its result.
\<close>

theorem plan_terminates:
  assumes "path_list path"
  shows "plan F m pose goal path \<noteq> Inl OutOfFuel"
  unfolding plan_search by (rule search_enough_fuel [OF search_inv_start assms]) simp

text \<open>
  (C14) On a map with a blocked border the planner stays inside its array: starting off the border it
  never reads the obstacle map out of bounds.
\<close>

theorem plan_stays_in_bounds:
  assumes "path_list path" "walled m" "interior (cell_of pose)"
  shows "plan F m pose goal path \<noteq> Inl OutOfBounds"
  unfolding plan_search by (rule search_walled [OF search_inv_start assms(1,2)]) (use assms(3) in simp)

section \<open>States of the planner\<close>

text \<open>The states that the planner can get into as a process.\<close>

definition a_star_reaches :: "'d fp \<Rightarrow> os \<Rightarrow> 'd a_star \<Rightarrow> bool" where
  "a_star_reaches F =
     program_reaches (\<lambda>k c. \<exists>fl E S pid k0 argv. main_init F fl E S pid k0 argv = Inr (k, c, 0)) (enterLoop F) setPipeIndexes"

lemma a_star_started: "main_init F fl E S pid k0 argv = Inr (k, c, 0) \<Longrightarrow> a_star_reaches F k c"
  unfolding a_star_reaches_def by (rule program_reaches.start) blast

definition a_star_ok :: "'d fp \<Rightarrow> 'd a_star \<Rightarrow> bool" where
  "a_star_ok F c \<longleftrightarrow> path_list (goal_path c) \<and> length (c_pipes c) = PIPE_COUNT \<and>
     as_goal c = gridify F \<lparr>pd_x = f_lit F 7, pd_y = f_lit F 7\<rparr> \<and>
     length (mu_obs_x (as_recv c)) = 200 \<and> length (mu_obs_y (as_recv c)) = 200"

lemma setPipeIndexes_frame [simp]:
  "goal_path (setPipeIndexes c) = goal_path c" "c_pipes (setPipeIndexes c) = c_pipes c"
  "as_goal (setPipeIndexes c) = as_goal c" "as_recv (setPipeIndexes c) = as_recv c"
proof -
  have "goal_path (setPipeIndexes c) = goal_path c \<and> c_pipes (setPipeIndexes c) = c_pipes c \<and>
      as_goal (setPipeIndexes c) = as_goal c \<and> as_recv (setPipeIndexes c) = as_recv c"
    unfolding setPipeIndexes_def
    by (rule for_upto_invariant) (auto split: comm_message_t.splits)
  then show "goal_path (setPipeIndexes c) = goal_path c" "c_pipes (setPipeIndexes c) = c_pipes c"
    "as_goal (setPipeIndexes c) = as_goal c" "as_recv (setPipeIndexes c) = as_recv c" by blast+
qed

lemma parseArgs_frame:
  assumes "parseArgs S pid k argv c = Inr (k1, c1, r)"
  shows "length (c_pipes c1) = length (c_pipes c)" "as_recv c1 = as_recv c"
proof -
  let ?c = "c\<lparr>c_priority := atoi (argv ! 1), c_pipe_count := atoi (argv ! 2)\<rparr>"
  consider k2 c2 r2 where "c_pipe_count ?c \<le> int (length (c_pipes c))"
      "connect_pipes S pid k ?c (nat (c_pipe_count ?c)) (c_name ?c) = Inr (k2, c2, r2)" "c1 = setPipeIndexes c2"
    | ps where "read_pipe_args (drop 3 argv) 0 (c_pipes c) = Inr ps" "c1 = setPipeIndexes (?c\<lparr>c_pipes := ps\<rparr>)"
    using assms by (auto simp: parseArgs_def Let_def then_do_Inr split: if_splits)
  then have "length (c_pipes c1) = length (c_pipes c) \<and> as_recv c1 = as_recv c"
  proof cases
    case 1
    then have "nat (c_pipe_count ?c) \<le> length (c_pipes ?c)" by (simp add: nat_le_iff)
    from connect_pipes_ok [OF 1(2) this] show ?thesis using 1(3) by auto
  next
    case 2
    then show ?thesis using read_pipe_args_length by auto
  qed
  then show "length (c_pipes c1) = length (c_pipes c)" "as_recv c1 = as_recv c" by blast+
qed

lemma main_init_ok:
  assumes "main_init F fl E S pid k argv = Inr (k1, c, 0)"
  shows "a_star_ok F c"
proof -
  obtain k2 c2 r where c2: "parseArgs S pid k argv (a_star_globals F) = Inr (k2, c2, r)"
    "c = c2\<lparr>as_goal := gridify F \<lparr>pd_x = f_lit F 7, pd_y = f_lit F 7\<rparr>, goal_path := newList F, as_map := (\<lambda>x y. False)\<rparr>"
    using assms by (auto simp: main_init_def then_do_Inr split: if_splits)
  show ?thesis
    using parseArgs_frame [OF c2(1)] by (simp add: c2(2) a_star_ok_def a_star_globals_def)
qed

lemma sendWaypoints_ok:
  assumes "sendWaypoints F k c = Inr (k1, c1)" "a_star_ok F c"
  shows "a_star_ok F c1"
proof -
  have "path_list (goal_path c)" using assms(2) by (simp add: a_star_ok_def)
  then obtain n l1 where p1: "pop F (goal_path c) = Some (n, l1)" "path_list l1" using path_list_pop by blast
  then obtain n2 l2 where p2: "pop F l1 = Some (n2, l2)" "path_list l2" using path_list_pop by blast
  show ?thesis
    using assms p1 p2 by (auto simp: sendWaypoints_def Let_def a_star_ok_def then_do_Inr split: if_splits)
qed

lemma plan_path_list:
  assumes "plan F m pose goal path = Inr (p, sol)" "path_list path"
  shows "path_list p"
proof (cases sol)
  case True
  then have "plan F m pose goal path = Inr (p, True)" using assms(1) by simp
  then show ?thesis using search_found [OF _ search_inv_start assms(2)] unfolding plan_search by blast
next
  case False
  then have "plan F m pose goal path = Inr (p, False)" using assms(1) by simp
  then show ?thesis using search_not_found [OF _ search_inv_start assms(2)] assms(2) unfolding plan_search by metis
qed

lemma command_ok: "command F k c = Inr (k1, c1) \<Longrightarrow> a_star_ok F c \<Longrightarrow> a_star_ok F c1"
proof -
  assume run: "command F k c = Inr (k1, c1)" and ok: "a_star_ok F c"
  obtain p sol where p: "plan F (as_map c) (as_pose c) (as_goal c) (goal_path c) = Inr (p, sol)"
    using run by (auto simp: command_def then_do_Inr)
  have "a_star_ok F (c\<lparr>goal_path := p\<rparr>)" using plan_path_list [OF p] ok by (simp add: a_star_ok_def)
  then show ?thesis using run p sendWaypoints_ok by (auto simp: command_def Let_def split: if_splits)
qed

lemma commRecvMapUpdate_arrays:
  assumes "commRecvMapUpdate k p u = Some (k1, u1, r)"
  shows "length (mu_obs_x u1) = length (mu_obs_x u) \<and> length (mu_obs_y u1) = length (mu_obs_y u)"
  using assms
  by (auto simp: commRecvMapUpdate_def Let_def split: if_splits prod.splits option.splits)

lemma on_update_ok:
  assumes "on_update F k c = Inr (k1, c1)" "a_star_ok F c"
  shows "a_star_ok F c1"
proof -
  obtain p k2 u r where u: "commRecvMapUpdate k p (as_recv c) = Some (k2, u, r)" "pipe_at c (updates_index c) = Inr p"
    using assms(1) by (auto simp: on_update_def then_do_Inr or_fault_Inr)
  let ?c = "c\<lparr>as_recv := u\<rparr>"
  have ok: "a_star_ok F ?c" "a_star_ok F (take_update u m ?c)" for m
    using commRecvMapUpdate_arrays [OF u(1)] assms(2) by (simp_all add: a_star_ok_def take_update_def Let_def)
  show ?thesis
  proof (cases "r > 0")
    case False
    then show ?thesis using assms(1) u ok(1) by (auto simp: on_update_def Let_def split: if_splits)
  next
    case True
    then have "\<exists>m k3. command F k3 (take_update u m ?c) = Inr (k1, c1) \<or> c1 = take_update u m ?c"
      using assms(1) u by (auto simp: on_update_def then_do_Inr Let_def split: if_split_asm)
    then show ?thesis using ok(2) command_ok by metis
  qed
qed

lemma on_request_ok:
  assumes "on_request F k c = Inr (k1, c1)" "a_star_ok F c"
  shows "a_star_ok F c1"
proof -
  obtain p where p: "pipe_at c (way_req_index c) = Inr p" using assms(1) by (auto simp: on_request_def then_do_Inr)
  obtain k2 res where rd: "os_read k (tp_in p) 4 = (k2, res)" by fastforce
  have "c1 = c \<or> sendWaypoints F k2 c = Inr (k1, c1)"
    using assms(1) p rd by (auto simp: on_request_def then_do_Inr Let_def split: if_splits option.split_asm)
  then show ?thesis using assms(2) sendWaypoints_ok by metis
qed

lemma enterLoop_ok:
  assumes "enterLoop F k c = Inr (k1, c1)" "a_star_ok F c"
  shows "a_star_ok F c1"
  using assms
  by (auto simp: enterLoop_def then_do_Inr Let_def split: if_splits dest: on_update_ok on_request_ok)

interpretation pl: controller_program "a_star_ok F" "\<lambda>k c. \<exists>fl E S pid k0 argv. main_init F fl E S pid k0 argv = Inr (k, c, 0)"
  "enterLoop F" setPipeIndexes for F :: "'d fp"
proof (unfold_locales, goal_cases)
  case (1 k c)
  then show ?case using main_init_ok by blast
next
  case (2 c k k1 c1)
  then show ?case using enterLoop_ok by blast
qed (simp_all add: a_star_ok_def)

text \<open>
  (C16) Every state the planner can get into is well formed: after any number of rounds, injected
  faults and restarts, on whatever bytes its pipes deliver, the goal is still the cell of the point
  (7, 7), the arrays have their declared lengths, and the path is a chain of nodes that ends with one
  empty cell, so that no operation on it meets a null pointer.
\<close>

theorem a_star_states_well_formed:
  assumes "a_star_reaches F k c"
  shows "a_star_ok F c"
  using assms unfolding a_star_reaches_def by (rule pl.reaches_ok)

section \<open>Concrete searches\<close>

text \<open>An empty map with a blocked border, and the search for the cell diagonally next to the robot.\<close>

definition demo_map :: obs_map where
  "demo_map x y \<longleftrightarrow> x \<le> 0 \<or> y \<le> 0 \<or> 79 \<le> x \<or> 79 \<le> y"

lemma demo_plan:
  "plan rat_fp demo_map \<lparr>pi_x = 40, pi_y = 40\<rparr> \<lparr>pi_x = 41, pi_y = 41\<rparr> (newList rat_fp) =
    Inr ([(Node 40 40 0 NULL, 0), (Node 41 41 (1414 / 1000) (Node 40 40 0 NULL), 0), (NULL, 0)], True)"
  by code_simp

theorem plan_decides_reachability_witness:
  "(moves demo_map)\<^sup>*\<^sup>* (40, 40) (41, 41) \<and> walk demo_map (40, 40) (41, 41) [(40, 40), (41, 41)]"
  using plan_decides_reachability [OF path_list_newList demo_plan] by simp

theorem plan_terminates_witness:
  "plan rat_fp demo_map \<lparr>pi_x = 40, pi_y = 40\<rparr> \<lparr>pi_x = 41, pi_y = 41\<rparr> (newList rat_fp) \<noteq> Inl OutOfFuel"
  by (rule plan_terminates) simp

theorem plan_stays_in_bounds_witness:
  "plan rat_fp demo_map \<lparr>pi_x = 1, pi_y = 1\<rparr> \<lparr>pi_x = 41, pi_y = 41\<rparr> (newList rat_fp) \<noteq> Inl OutOfBounds"
  by (rule plan_stays_in_bounds) (auto simp: walled_def demo_map_def interior_def in_grid_def)

text \<open>
  The search can dereference a null pointer: on this map, whose border is blocked, a better way
  is found to the only open cell. \<open>removeNode\<close> takes it out and leaves the null pointer, and the
  following \<open>addNode\<close> reads through it.
\<close>

theorem plan_null_dereference:
  "plan rat_fp (\<lambda>x y. (x, y) \<notin> {(4, 3), (3, 2), (4, 2), (4, 1), (1, 2)})
     \<lparr>pi_x = 4, pi_y = 3\<rparr> \<lparr>pi_x = 1, pi_y = 2\<rparr> (newList rat_fp) = Inl NullDereference"
  by code_simp

text \<open>A start of the planner with four pipes on its command line.\<close>

abbreviation demo_tas :: tas_env where
  "demo_tas \<equiv> \<lparr>te_affinity = (\<lambda>p s. True), te_mlock = True, te_maps = Some []\<rparr>"

abbreviation demo_offer :: fd_offer where
  "demo_offer \<equiv> \<lparr>fo_connects = False, fo_message = None, fo_reads = False\<rparr>"

definition demo_start :: "(os \<times> rat a_star \<times> int) outcome" where
  "demo_start = main_init rat_fp (True, True, True) demo_tas demo_offer 7 (demo_os [])
     [''AStar'', ''5'', ''4'', ''MAP_UPDATE:3:0'', ''COMM_ACK:0:4'', ''WAY_REQ:5:0'', ''WAY_RES:0:6'']"

lemma demo_start_ok:
  "case demo_start of Inl e \<Rightarrow> False
   | Inr (k, c, r) \<Rightarrow> r = 0 \<and> updates_index c = 0 \<and> ack_index c = 1 \<and> way_req_index c = 2 \<and> way_res_index c = 3"
  by code_simp

theorem a_star_states_well_formed_witness:
  "\<exists>k c. demo_start = Inr (k, c, 0) \<and> path_list (goal_path c) \<and> length (c_pipes c) = 4 \<and> way_res_index c = 3"
proof -
  obtain k c where run: "demo_start = Inr (k, c, 0)" "way_res_index c = 3"
    using demo_start_ok by (auto split: sum.splits)
  have "a_star_reaches rat_fp k c"by (rule a_star_started [OF run(1) [unfolded demo_start_def]])
  from a_star_states_well_formed [OF this] run show ?thesis by (auto simp: a_star_ok_def)
qed

end
