(* ===== verification/Mapper.thy ===== *)
theory Mapper imports Controller Grid_Map begin

text \<open>
  The map builder (\<open>controllers/mapper.c\<close>): it turns each scan of the range sensors into cells of the
  grid, counts how often a cell was seen occupied, and reports a cell to the planner when its count
  passes the threshold. The array \<open>obstacle_map\<close> is a function on coordinates that is only accessed
  inside the grid; an access outside is a fault.
\<close>

section \<open>State\<close>

abbreviation OBS_THRES :: int where "OBS_THRES \<equiv> 2"
abbreviation RANGE_COUNT :: nat where "RANGE_COUNT \<equiv> 16"

record mapper = controller +
  m_data_index :: int
  m_update_index :: int
  m_ack_index :: int
  m_pose :: point_i
  m_map :: "int \<Rightarrow> int \<Rightarrow> int"
  m_msg :: comm_map_update

definition setPipeIndexes :: "'a mapper_scheme \<Rightarrow> 'a mapper_scheme" where
  "setPipeIndexes c =
     for_upto 3 (\<lambda>i c.
       case tp_type (c_pipes c ! i) of
         RANGE_POSE_DATA \<Rightarrow> c\<lparr>m_data_index := int i\<rparr>
       | MAP_UPDATE \<Rightarrow> c\<lparr>m_update_index := int i\<rparr>
       | COMM_ACK \<Rightarrow> c\<lparr>m_ack_index := int i\<rparr>
       | _ \<Rightarrow> c) c"

section \<open>Building the map\<close>

text \<open>
  \<open>addObstacle\<close>: the test admits the coordinate \<open>GRID_NUM\<close> itself, which is outside the array. The
  result tells whether a count changed.
\<close>

definition addObstacle :: "'a mapper_scheme \<Rightarrow> point_i \<Rightarrow> ('a mapper_scheme \<times> bool) outcome" where
  "addObstacle c obs =
     (let x = pi_x obs; y = pi_y obs; msg = m_msg c; n = mu_obs_count msg in
      if x < 0 \<or> x > GRID_NUM \<or> y < 0 \<or> y > GRID_NUM then Inr (c, False)
      else if x = GRID_NUM \<or> y = GRID_NUM then Inl OutOfBounds
      else if m_map c x y > OBS_THRES then Inr (c, False)
      else
        (let c1 = c\<lparr>m_map := (m_map c)(x := (m_map c x)(y := m_map c x y + 1))\<rparr> in
         if m_map c1 x y > OBS_THRES then
           (if n < 0 \<or> length (mu_obs_x msg) \<le> nat n \<or> length (mu_obs_y msg) \<le> nat n then Inl OutOfBounds
            else Inr (c1\<lparr>m_msg := msg\<lparr>mu_obs_x := (mu_obs_x msg)[nat n := x],
                                    mu_obs_y := (mu_obs_y msg)[nat n := y],
                                    mu_obs_count := n + 1\<rparr>\<rparr>, True))
         else Inr (c1, True)))"

text \<open>The point that range \<open>i\<close> of a scan from the given position hits, in global coordinates.\<close>

definition scan_point :: "'d fp \<Rightarrow> comm_range_pose_data \<Rightarrow> 'd point_d \<Rightarrow> 'd \<Rightarrow> nat \<Rightarrow> 'd point_d" where
  "scan_point F data pose theta_pose i =
     (let M_PI = f_lit F (314159265358979323846 / 100000000000000000000);
          tao = f_div F (f_mul F (f_mul F (f_lit F 2) M_PI) (f_of_int F (int i))) (f_of_int F (int RANGE_COUNT));
          range = f_of_bits F (rp_ranges data ! i);
          l_x = f_mul F range (f_cos F tao);
          l_y = f_mul F range (f_sin F tao);
          g_x = f_sub F (f_mul F l_x (f_cos F theta_pose)) (f_mul F l_y (f_sin F theta_pose));
          g_y = f_add F (f_mul F l_x (f_sin F theta_pose)) (f_mul F l_y (f_cos F theta_pose)) in
      \<lparr>pd_x = f_add F g_x (pd_x pose), pd_y = f_add F g_y (pd_y pose)\<rparr>)"

fun add_obstacles :: "'a mapper_scheme \<Rightarrow> point_i list \<Rightarrow> 'a mapper_scheme outcome" where
  "add_obstacles c [] = Inr c"
| "add_obstacles c (p # ps) = then_do (addObstacle c p) (\<lambda>(c1, _). add_obstacles c1 ps)"

definition scan_cells :: "'d fp \<Rightarrow> comm_range_pose_data \<Rightarrow> point_i list" where
  "scan_cells F data =
     (let pose = \<lparr>pd_x = f_of_bits F (rp_pose data ! 0), pd_y = f_of_bits F (rp_pose data ! 1)\<rparr>;
          theta_pose = f_of_bits F (rp_pose data ! 2) in
      map (\<lambda>i. gridify F (scan_point F data pose theta_pose i)) [0..<RANGE_COUNT])"

text \<open>The end of \<open>updateMap\<close>: the injected fault, and the pose that goes into the message.\<close>

definition close_scan :: "'a mapper_scheme \<Rightarrow> 'a mapper_scheme" where
  "close_scan c =
     (let c1 = (if insertSDC c then c\<lparr>insertSDC := False, m_pose := (m_pose c)\<lparr>pi_x := pi_x (m_pose c) + 1\<rparr>\<rparr> else c) in
      c1\<lparr>m_msg := (m_msg c1)\<lparr>mu_pose_x := pi_x (m_pose c1), mu_pose_y := pi_y (m_pose c1)\<rparr>\<rparr>)"

definition updateMap :: "'d fp \<Rightarrow> os \<Rightarrow> 'a mapper_scheme \<Rightarrow> comm_range_pose_data \<Rightarrow> (os \<times> 'a mapper_scheme) outcome" where
  "updateMap F k c data =
     (let pose = \<lparr>pd_x = f_of_bits F (rp_pose data ! 0), pd_y = f_of_bits F (rp_pose data ! 1)\<rparr>;
          c1 = c\<lparr>m_pose := gridify F pose, m_msg := (m_msg c)\<lparr>mu_obs_count := 0\<rparr>\<rparr> in
      then_do (add_obstacles c1 (scan_cells F data)) (\<lambda>c2.
        let c4 = close_scan c2 in
        then_do (pipe_at c4 (m_update_index c4)) (\<lambda>p.
          then_do (or_fault OutOfBounds (commSendMapUpdate k p (m_msg c4))) (\<lambda>(k1, _). Inr (k1, c4)))))"

section \<open>The loop\<close>

definition on_data :: "'d fp \<Rightarrow> os \<Rightarrow> 'a mapper_scheme \<Rightarrow> (os \<times> 'a mapper_scheme) outcome" where
  "on_data F k c =
     then_do (pipe_at c (m_data_index c)) (\<lambda>p.
       case os_read k (tp_in p) 152 of
         (k1, None) \<Rightarrow> Inr (k1, c)
       | (k1, Some bs) \<Rightarrow>
           (if length bs = 152 then updateMap F k1 c (range_pose_of_bytes bs) else Inr (k1, c)))"

definition on_ack :: "os \<Rightarrow> 'a mapper_scheme \<Rightarrow> (os \<times> 'a mapper_scheme) outcome" where
  "on_ack k c = then_do (pipe_at c (m_ack_index c)) (\<lambda>p. Inr (fst (os_read k (tp_in p) 8), c))"

definition enterLoop :: "'d fp \<Rightarrow> os \<Rightarrow> 'a mapper_scheme \<Rightarrow> (os \<times> 'a mapper_scheme) outcome" where
  "enterLoop F k c =
     (if insertCFE c then Inl Hangs
      else
        then_do (pipe_at c (m_data_index c)) (\<lambda>dp.
          then_do (pipe_at c (m_ack_index c)) (\<lambda>ap.
            let ready = os_select k [tp_in dp, tp_in ap] in
            if ready = [] then Inr (k, c)
            else
              then_do (if tp_in dp \<in> set ready then on_data F k c else Inr (k, c)) (\<lambda>(k1, c1).
                if tp_in ap \<in> set ready then on_ack k1 c1 else Inr (k1, c1)))))"

section \<open>Start\<close>

definition parseArgs :: "fd_offer \<Rightarrow> pid \<Rightarrow> os \<Rightarrow> string list \<Rightarrow> 'a mapper_scheme \<Rightarrow>
    (os \<times> 'a mapper_scheme \<times> int) outcome" where
  "parseArgs S pid k argv c =
     (if length argv < 3 then Inl Exited
      else
        (let c1 = c\<lparr>c_priority := atoi (argv ! 1), c_pipe_count := atoi (argv ! 2)\<rparr> in
         if length argv < 6 then
           then_do (connect_pipes S pid k c1 3 ''Mapper'') (\<lambda>(k1, c2, _). Inr (k1, setPipeIndexes c2, 0))
         else
           then_do (read_pipe_args (drop 3 argv) 0 (c_pipes c1)) (\<lambda>ps.
             Inr (k, setPipeIndexes (c1\<lparr>c_pipes := ps\<rparr>), 0))))"

definition mapper_globals :: mapper where
  "mapper_globals =
     \<lparr>c_name = ''Mapper'', c_priority = 0, c_pipe_count = 3, c_pipes = replicate 3 blank_pipe,
      insertSDC = False, insertCFE = False, m_data_index = 0, m_update_index = 0, m_ack_index = 0,
      m_pose = \<lparr>pi_x = 0, pi_y = 0\<rparr>, m_map = (\<lambda>x y. 0),
      m_msg = \<lparr>mu_pose_x = 0, mu_pose_y = 0, mu_obs_count = 0, mu_obs_x = [], mu_obs_y = []\<rparr>\<rparr>"

definition main_init :: "bool \<times> bool \<times> bool \<Rightarrow> tas_env \<Rightarrow> fd_offer \<Rightarrow> pid \<Rightarrow> os \<Rightarrow> string list \<Rightarrow>
    (os \<times> mapper \<times> int) outcome" where
  "main_init fl E S pid k argv =
     then_do (parseArgs S pid k argv mapper_globals) (\<lambda>(k1, c1, r).
       if r < 0 then Inr (k1, c1, - 1)
       else then_do (initController (fst fl) (fst (snd fl)) (snd (snd fl)) E pid k1 c1) (\<lambda>(k2, r2).
         if r2 < 0 then Inr (k2, c1, - 1)
         else Inr (k2, c1\<lparr>m_msg := \<lparr>mu_pose_x = 0, mu_pose_y = 0, mu_obs_count = 0,
                            mu_obs_x = replicate 128 0, mu_obs_y = replicate 128 0\<rparr>,
                          m_map := (\<lambda>x y. 0)\<rparr>, 0)))"

section \<open>Counting\<close>

text \<open>
  What the mapper keeps: counts between 0 and 3, and room for 128 obstacles in the message.
\<close>

definition counted :: "'a mapper_scheme \<Rightarrow> bool" where
  "counted c \<longleftrightarrow> (\<forall>x y. 0 \<le> m_map c x y \<and> m_map c x y \<le> 3) \<and>
     length (mu_obs_x (m_msg c)) = 128 \<and> length (mu_obs_y (m_msg c)) = 128"

text \<open>The cells reported in the message.\<close>

definition reported :: "'a mapper_scheme \<Rightarrow> (int \<times> int) list" where
  "reported c = (let n = nat (mu_obs_count (m_msg c)) in
     zip (take n (mu_obs_x (m_msg c))) (take n (mu_obs_y (m_msg c))))"

definition on_grid :: "point_i \<Rightarrow> bool" where
  "on_grid p \<longleftrightarrow> pi_x p \<noteq> GRID_NUM \<and> pi_y p \<noteq> GRID_NUM"

lemma gridify_on_grid: "on_grid (gridify F p)"
  by (simp add: on_grid_def gridify_def grid_edge_def Let_def)

text \<open>
  The state of a scan: started from the counts \<open>m0\<close>, the cells reported so far are those whose count
  has passed the threshold since, without repetition.
\<close>

definition scanning :: "(int \<Rightarrow> int \<Rightarrow> int) \<Rightarrow> nat \<Rightarrow> 'a mapper_scheme \<Rightarrow> bool" where
  "scanning m0 n c \<longleftrightarrow> counted c \<and> 0 \<le> mu_obs_count (m_msg c) \<and> mu_obs_count (m_msg c) \<le> int n \<and>
     (\<forall>x y. m0 x y \<le> m_map c x y) \<and> distinct (reported c) \<and>
     set (reported c) = {(x, y). m0 x y \<le> OBS_THRES \<and> m_map c x y > OBS_THRES}"

lemma reported_snoc:
  assumes "n < length xs" "n < length ys"
  shows "zip (take (Suc n) (xs[n := x])) (take (Suc n) (ys[n := y])) = zip (take n xs) (take n ys) @ [(x, y)]"
  using assms by (simp add: take_Suc_conv_app_nth)

lemma addObstacle_scanning:
  assumes "scanning m0 n c" "on_grid p" "n < 128"
  shows "\<exists>c' b. addObstacle c p = Inr (c', b) \<and> scanning m0 (Suc n) c' \<and> insertSDC c' = insertSDC c \<and>
    m_pose c' = m_pose c \<and> c_pipes c' = c_pipes c \<and> m_update_index c' = m_update_index c"
proof -
  let ?x = "pi_x p" and ?y = "pi_y p" and ?msg = "m_msg c"
  let ?n = "mu_obs_count ?msg"
  have S: "counted c" "0 \<le> ?n" "?n \<le> int n" "\<forall>x y. m0 x y \<le> m_map c x y" "distinct (reported c)"
    "set (reported c) = {(x, y). m0 x y \<le> 2 \<and> m_map c x y > 2}"
    using assms(1) unfolding scanning_def by blast+
  have room: "nat ?n < length (mu_obs_x ?msg)" "nat ?n < length (mu_obs_y ?msg)"
    using S(1-3) assms(3) by (auto simp: counted_def)
  have same: "scanning m0 (Suc n) c" using assms(1) unfolding scanning_def by auto
  let ?c1 = "c\<lparr>m_map := (m_map c)(?x := (m_map c ?x)(?y := m_map c ?x ?y + 1))\<rparr>"
  let ?c2 = "?c1\<lparr>m_msg := ?msg\<lparr>mu_obs_x := (mu_obs_x ?msg)[nat ?n := ?x], mu_obs_y := (mu_obs_y ?msg)[nat ?n := ?y],
    mu_obs_count := ?n + 1\<rparr>\<rparr>"
  consider "?x < 0 \<or> ?x > 80 \<or> ?y < 0 \<or> ?y > 80" | "\<not> (?x < 0 \<or> ?x > 80 \<or> ?y < 0 \<or> ?y > 80)" "m_map c ?x ?y > 2"
    | "\<not> (?x < 0 \<or> ?x > 80 \<or> ?y < 0 \<or> ?y > 80)" "m_map c ?x ?y < 2"
    | "\<not> (?x < 0 \<or> ?x > 80 \<or> ?y < 0 \<or> ?y > 80)" "m_map c ?x ?y = 2"
    by linarith
  then show ?thesis
  proof cases
    case 1
    then show ?thesis using same by (auto simp: addObstacle_def Let_def)
  next
    case 2
    then show ?thesis using same assms(2) by (auto simp: addObstacle_def Let_def on_grid_def)
  next
    case 3
    then have run: "addObstacle c p = Inr (?c1, True)" using assms(2) by (simp add: addObstacle_def Let_def on_grid_def)
    have "counted ?c1" using S(1) 3(2) by (auto simp: counted_def)
    moreover have "\<forall>x y. m0 x y \<le> m_map ?c1 x y" using S(4) by (simp add: add_increasing2)
    moreover have "{(x, y). m0 x y \<le> 2 \<and> m_map ?c1 x y > 2} = {(x, y). m0 x y \<le> 2 \<and> m_map c x y > 2}"
      using 3(2) by (auto split: if_splits)
    ultimately have "scanning m0 (Suc n) ?c1" using S unfolding scanning_def by (simp add: reported_def)
    then show ?thesis using run by auto
  next
    case 4
    then have run: "addObstacle c p = Inr (?c2, True)"
      using assms(2) room S(2) by (simp add: addObstacle_def Let_def on_grid_def)
    have "counted ?c2" using S(1) 4(2) by (auto simp: counted_def)
    moreover have "\<forall>x y. m0 x y \<le> m_map ?c2 x y" using S(4) by (simp add: add_increasing2)
    moreover have rep: "reported ?c2 = reported c @ [(?x, ?y)]"
      using reported_snoc [OF room] S(2) by (simp add: reported_def Let_def nat_add_distrib)
    moreover have "(?x, ?y) \<notin> set (reported c)" using S(6) 4(2) by auto
    moreover have "{(x, y). m0 x y \<le> 2 \<and> m_map ?c2 x y > 2} = insert (?x, ?y) {(x, y). m0 x y \<le> 2 \<and> m_map c x y > 2}"
    proof -
      have "m0 ?x ?y \<le> 2" using S(4) 4(2) by metis
      then show ?thesis using 4(2) by (auto split: if_splits)
    qed
    ultimately have "scanning m0 (Suc n) ?c2" using S unfolding scanning_def rep by simp
    then show ?thesis using run by auto
  qed
qed

lemma add_obstacles_scanning:
  assumes "scanning m0 n c" "\<forall>p \<in> set ps. on_grid p" "n + length ps \<le> 128"
  shows "\<exists>c'. add_obstacles c ps = Inr c' \<and> scanning m0 (n + length ps) c' \<and> insertSDC c' = insertSDC c \<and>
    m_pose c' = m_pose c \<and> c_pipes c' = c_pipes c \<and> m_update_index c' = m_update_index c"
  using assms
proof (induction ps arbitrary: c n)
  case (Cons p ps)
  obtain c1 b where c1: "addObstacle c p = Inr (c1, b)" "scanning m0 (Suc n) c1" "insertSDC c1 = insertSDC c"
      "m_pose c1 = m_pose c" "c_pipes c1 = c_pipes c" "m_update_index c1 = m_update_index c"
    using addObstacle_scanning [OF Cons.prems(1), of p] Cons.prems(2,3) by auto
  show ?case using Cons.IH [OF c1(2)] Cons.prems(2,3) c1 by simp
qed simp

lemma scan_started: "counted c \<Longrightarrow> scanning (m_map c) 0 (c\<lparr>m_pose := q, m_msg := (m_msg c)\<lparr>mu_obs_count := 0\<rparr>\<rparr>)"
  by (auto simp: scanning_def counted_def reported_def)

lemma commSendMapUpdate_fits:
  assumes "0 \<le> mu_obs_count msg" "mu_obs_count msg \<le> 510" "obs_arrays msg (nat (mu_obs_count msg))"
  shows "\<exists>k1 r. commSendMapUpdate k p msg = Some (k1, r)"
proof (cases "tp_out p = 0 \<or> tp_type p \<noteq> MAP_UPDATE")
  case True
  then show ?thesis by (simp add: commSendMapUpdate_def)
next
  case False
  then have "commSendMapUpdate k p msg =
      Some (os_write k (tp_out p) (ints_bytes (map_update_ints msg)) (int (4 * length (map_update_ints msg))))"
    using commSendMapUpdate_eq [OF _ _ assms(3)] assms(2) by simp
  then show ?thesis by (metis surj_pair)
qed

lemma updateMap_scan:
  assumes "counted c" "pipe_at c (m_update_index c) = Inr p"
  shows "\<exists>k' c' r. updateMap F k c data = Inr (k', c') \<and> counted c' \<and>
    commSendMapUpdate k p (m_msg c') = Some (k', r) \<and> distinct (reported c') \<and> length (reported c') \<le> RANGE_COUNT \<and>
    set (reported c') = {(x, y). m_map c x y \<le> OBS_THRES \<and> m_map c' x y > OBS_THRES} \<and>
    (\<forall>x y. m_map c x y \<le> m_map c' x y) \<and> 0 \<le> mu_obs_count (m_msg c') \<and> mu_obs_count (m_msg c') \<le> 16"
proof -
  let ?q = "gridify F \<lparr>pd_x = f_of_bits F (rp_pose data ! 0), pd_y = f_of_bits F (rp_pose data ! 1)\<rparr>"
  let ?c1 = "c\<lparr>m_pose := ?q, m_msg := (m_msg c)\<lparr>mu_obs_count := 0\<rparr>\<rparr>"
  have cells: "\<forall>q \<in> set (scan_cells F data). on_grid q" "length (scan_cells F data) = 16"
    by (auto simp: scan_cells_def Let_def gridify_on_grid)
  obtain c2 where c2: "add_obstacles ?c1 (scan_cells F data) = Inr c2" "scanning (m_map c) 16 c2"
      "c_pipes c2 = c_pipes c" "m_update_index c2 = m_update_index c"
    using add_obstacles_scanning [OF scan_started [OF assms(1)] cells(1)] cells(2) by auto
  define c4 where "c4 = close_scan c2"
  have keep: "m_map c4 = m_map c2" "reported c4 = reported c2" "counted c4 = counted c2"
    "mu_obs_count (m_msg c4) = mu_obs_count (m_msg c2)" "pipe_at c4 (m_update_index c4) = Inr p"
    using c2(3,4) assms(2) by (simp_all add: c4_def close_scan_def Let_def reported_def counted_def pipe_at_def split: if_splits)
  have S: "counted c2" "0 \<le> mu_obs_count (m_msg c2)" "mu_obs_count (m_msg c2) \<le> 16" "\<forall>x y. m_map c x y \<le> m_map c2 x y"
    "distinct (reported c2)" "set (reported c2) = {(x, y). m_map c x y \<le> 2 \<and> m_map c2 x y > 2}"
    using c2(2) unfolding scanning_def by simp_all
  have "obs_arrays (m_msg c4) (nat (mu_obs_count (m_msg c4)))"
    using S(1-3) keep(3,4) by (simp add: counted_def wf_simps)
  then obtain k1 r where send: "commSendMapUpdate k p (m_msg c4) = Some (k1, r)"
    using commSendMapUpdate_fits [of "m_msg c4" k p] S(2,3) keep(4) by auto
  have "updateMap F k c data = Inr (k1, c4)"
    unfolding updateMap_def Let_def c2(1) then_do_simps c4_def [symmetric] keep(5) send by simp
  moreover have "length (reported c2) \<le> 16" using S(2,3) by (simp add: reported_def Let_def)
  moreover have "{(x, y). m_map c x y \<le> 2 \<and> m_map c4 x y > 2} = {(x, y). m_map c x y \<le> 2 \<and> m_map c2 x y > 2}"
    unfolding keep(1) ..
  ultimately show ?thesis
    using send S keep(1-4) by (intro exI [of _ k1] exI [of _ c4] exI [of _ r]) simp
qed

text \<open>
  (C17) A scan reports exactly the new obstacles. Whatever the sensors deliver and however the
  arithmetic rounds, processing a scan stays inside all arrays and reports to the planner, each once,
  the cells whose count passes the threshold in this scan: at most 16, none that was reported before,
  since counts never decrease.
\<close>

theorem updateMap_reports_new_obstacles:
  assumes "counted c" "pipe_at c (m_update_index c) = Inr p"
  shows "\<exists>k' c' r. updateMap F k c data = Inr (k', c') \<and> counted c' \<and>
    commSendMapUpdate k p (m_msg c') = Some (k', r) \<and> distinct (reported c') \<and> length (reported c') \<le> RANGE_COUNT \<and>
    set (reported c') = {(x, y). m_map c x y \<le> OBS_THRES \<and> m_map c' x y > OBS_THRES} \<and>
    (\<forall>x y. m_map c x y \<le> m_map c' x y)"
  using updateMap_scan [OF assms, of F k data] by blast

section \<open>States of the mapper\<close>

definition mapper_reaches :: "'d fp \<Rightarrow> os \<Rightarrow> mapper \<Rightarrow> bool" where
  "mapper_reaches F =
     program_reaches (\<lambda>k c. \<exists>fl E S pid k0 argv. main_init fl E S pid k0 argv = Inr (k, c, 0)) (enterLoop F) setPipeIndexes"

lemma mapper_started: "main_init fl E S pid k0 argv = Inr (k, c, 0) \<Longrightarrow> mapper_reaches F k c"
  unfolding mapper_reaches_def by (rule program_reaches.start) blast

lemma mapper_indexes_frame [simp]:
  "counted (setPipeIndexes c) = counted c" "c_pipes (setPipeIndexes c) = c_pipes c"
  "0 \<le> m_data_index c \<and> m_data_index c < 3 \<Longrightarrow> 0 \<le> m_data_index (setPipeIndexes c) \<and> m_data_index (setPipeIndexes c) < 3"
  "0 \<le> m_update_index c \<and> m_update_index c < 3 \<Longrightarrow> 0 \<le> m_update_index (setPipeIndexes c) \<and> m_update_index (setPipeIndexes c) < 3"
  "0 \<le> m_ack_index c \<and> m_ack_index c < 3 \<Longrightarrow> 0 \<le> m_ack_index (setPipeIndexes c) \<and> m_ack_index (setPipeIndexes c) < 3"
  unfolding setPipeIndexes_def by (rule for_upto_invariant, simp, simp add: counted_def split: comm_message_t.splits)+

text \<open>
  The mapper in good order: its counts, its arrays, and indexes inside the array of its three pipes.
\<close>

definition mapper_ok :: "'a mapper_scheme \<Rightarrow> bool" where
  "mapper_ok c \<longleftrightarrow> counted c \<and> length (c_pipes c) = 3 \<and> 0 \<le> m_data_index c \<and> m_data_index c < 3 \<and>
     0 \<le> m_update_index c \<and> m_update_index c < 3 \<and> 0 \<le> m_ack_index c \<and> m_ack_index c < 3"

lemma pipe_at_ok:
  assumes "mapper_ok c"
  shows "\<exists>p. pipe_at c (m_data_index c) = Inr p" "\<exists>p. pipe_at c (m_update_index c) = Inr p" "\<exists>p. pipe_at c (m_ack_index c) = Inr p"
  using assms by (simp_all add: mapper_ok_def pipe_at_def nat_less_iff)

lemma addObstacle_frame:
  "addObstacle c p = Inr (c', b) \<Longrightarrow> c_pipes c' = c_pipes c \<and> m_data_index c' = m_data_index c \<and>
    m_update_index c' = m_update_index c \<and> m_ack_index c' = m_ack_index c"
  by (auto simp: addObstacle_def Let_def split: if_splits)

lemma add_obstacles_frame:
  "add_obstacles c ps = Inr c' \<Longrightarrow> c_pipes c' = c_pipes c \<and> m_data_index c' = m_data_index c \<and>
    m_update_index c' = m_update_index c \<and> m_ack_index c' = m_ack_index c"
  by (induction ps arbitrary: c) (auto simp: then_do_Inr dest!: addObstacle_frame)

lemma add_obstacles_grid:
  "add_obstacles c ps = Inr c' \<Longrightarrow> \<not> (0 \<le> x \<and> x < GRID_NUM \<and> 0 \<le> y \<and> y < GRID_NUM) \<Longrightarrow> m_map c' x y = m_map c x y"
proof (induction ps arbitrary: c)
  case (Cons p ps)
  obtain c1 b where c1: "addObstacle c p = Inr (c1, b)" "add_obstacles c1 ps = Inr c'"
    using Cons.prems(1) by (auto simp: then_do_Inr)
  have "m_map c1 x y = m_map c x y"
    using c1(1) Cons.prems(2) by (auto simp: addObstacle_def Let_def split: if_splits)
  then show ?case using Cons.IH [OF c1(2) Cons.prems(2)] by simp
qed simp

text \<open>Scans change counts only inside the grid, so a reported cell is a cell of the grid.\<close>

lemma updateMap_grid:
  assumes "updateMap F k c data = Inr (k', c')" "\<not> (0 \<le> x \<and> x < GRID_NUM \<and> 0 \<le> y \<and> y < GRID_NUM)"
  shows "m_map c' x y = m_map c x y"
proof -
  obtain q msg c2 where c2: "add_obstacles (c\<lparr>m_pose := q, m_msg := msg\<rparr>) (scan_cells F data) = Inr c2" "c' = close_scan c2"
    using assms(1) unfolding updateMap_def Let_def by (auto simp: then_do_Inr)
  then show ?thesis using add_obstacles_grid [OF c2(1) assms(2)] by (simp add: close_scan_def Let_def)
qed

lemma close_scan_frame:
  "c_pipes (close_scan c) = c_pipes c \<and> m_data_index (close_scan c) = m_data_index c \<and>
    m_update_index (close_scan c) = m_update_index c \<and> m_ack_index (close_scan c) = m_ack_index c"
  by (simp add: close_scan_def Let_def)

lemma updateMap_frame:
  assumes "updateMap F k c data = Inr (k', c')"
  shows "c_pipes c' = c_pipes c \<and> m_data_index c' = m_data_index c \<and>
    m_update_index c' = m_update_index c \<and> m_ack_index c' = m_ack_index c"
proof -
  obtain q msg c2 where "add_obstacles (c\<lparr>m_pose := q, m_msg := msg\<rparr>) (scan_cells F data) = Inr c2" "c' = close_scan c2"
    using assms unfolding updateMap_def Let_def by (auto simp: then_do_Inr)
  then show ?thesis using add_obstacles_frame close_scan_frame [of c2] by fastforce
qed

lemma on_data_ok:
  assumes "mapper_ok c"
  shows "\<exists>k' c'. on_data F k c = Inr (k', c') \<and> mapper_ok c'"
proof -
  obtain dp where dp: "pipe_at c (m_data_index c) = Inr dp" using pipe_at_ok(1) [OF assms] by blast
  obtain up where up: "pipe_at c (m_update_index c) = Inr up" using pipe_at_ok(2) [OF assms] by blast
  obtain k1 res where rd: "os_read k (tp_in dp) 152 = (k1, res)" by fastforce
  show ?thesis
  proof (cases "\<exists>bs. res = Some bs \<and> length bs = 152")
    case True
    then obtain bs where bs: "res = Some bs" "length bs = 152" by blast
    have "counted c" using assms by (simp add: mapper_ok_def)
    then obtain k2 c2 where u: "updateMap F k1 c (range_pose_of_bytes bs) = Inr (k2, c2)" "counted c2"
      using updateMap_scan [OF _ up] by metis
    then show ?thesis using updateMap_frame [OF u(1)] assms dp rd bs by (simp add: on_data_def mapper_ok_def)
  next
    case False
    then show ?thesis using assms dp rd by (auto simp: on_data_def split: option.splits)
  qed
qed

lemma on_ack_ok: "mapper_ok c \<Longrightarrow> \<exists>k'. on_ack k c = Inr (k', c)"
  using pipe_at_ok(3) [of c] by (auto simp: on_ack_def)

lemma mapper_loop_ok:
  assumes "mapper_ok c" "\<not> insertCFE c"
  shows "\<exists>k' c'. enterLoop F k c = Inr (k', c') \<and> mapper_ok c'"
proof -
  obtain dp ap where p: "pipe_at c (m_data_index c) = Inr dp" "pipe_at c (m_ack_index c) = Inr ap"
    using pipe_at_ok [OF assms(1)] by blast
  obtain k1 c1 where d: "on_data F k c = Inr (k1, c1)" "mapper_ok c1" using on_data_ok [OF assms(1)] by blast
  show ?thesis
    using p d on_ack_ok [OF d(2), of k1] on_ack_ok [OF assms(1), of k] assms by (auto simp: enterLoop_def Let_def)
qed

lemma mapper_init_ok:
  assumes "main_init fl E S pid k argv = Inr (k1, c, 0)"
  shows "mapper_ok c"
proof -
  obtain k2 c2 r where c2: "parseArgs S pid k argv mapper_globals = Inr (k2, c2, r)"
    "c = c2\<lparr>m_msg := \<lparr>mu_pose_x = 0, mu_pose_y = 0, mu_obs_count = 0, mu_obs_x = replicate 128 0, mu_obs_y = replicate 128 0\<rparr>,
      m_map := (\<lambda>x y. 0)\<rparr>"
    using assms by (auto simp: main_init_def then_do_Inr split: if_splits)
  let ?g = "mapper_globals\<lparr>c_priority := atoi (argv ! 1), c_pipe_count := atoi (argv ! 2)\<rparr>"
  have "\<exists>ps. length ps = 3 \<and> c2 = setPipeIndexes (?g\<lparr>c_pipes := ps\<rparr>)"
  proof -
    consider k3 c3 r3 where "connect_pipes S pid k ?g 3 ''Mapper'' = Inr (k3, c3, r3)" "c2 = setPipeIndexes c3"
      | ps where "read_pipe_args (drop 3 argv) 0 (c_pipes ?g) = Inr ps" "c2 = setPipeIndexes (?g\<lparr>c_pipes := ps\<rparr>)"
      using c2(1) by (auto simp: parseArgs_def Let_def then_do_Inr split: if_splits)
    then show ?thesis
    proof cases
      case 1
      have "3 \<le> length (c_pipes ?g)" by (simp add: mapper_globals_def)
      from connect_pipes_ok [OF 1(1) this] obtain ps where "c3 = ?g\<lparr>c_pipes := ps\<rparr>" "length ps = 3"
        by (auto simp: mapper_globals_def)
      then show ?thesis using 1(2) by blast
    next
      case 2
      then show ?thesis using read_pipe_args_length [OF 2(1)] by (auto simp: mapper_globals_def)
    qed
  qed
  then obtain ps where ps: "length ps = 3" "c2 = setPipeIndexes (?g\<lparr>c_pipes := ps\<rparr>)" by blast
  show ?thesis
    using ps mapper_indexes_frame(2-5) [of "?g\<lparr>c_pipes := ps\<rparr>"]
    by (simp add: mapper_ok_def c2(2) counted_def mapper_globals_def)
qed

interpretation mp: controller_program mapper_ok "\<lambda>k c. \<exists>fl E S pid k0 argv. main_init fl E S pid k0 argv = Inr (k, c, 0)"
  "enterLoop F" setPipeIndexes for F :: "'d fp"
proof (unfold_locales, goal_cases)
  case (1 k c)
  then show ?case using mapper_init_ok by blast
next
  case (2 c k k1 c1)
  then have "\<not> insertCFE c" by (auto simp: enterLoop_def)
  then show ?case using mapper_loop_ok [OF 2(1), of F k] 2(2) by auto
next
  case (6 c)
  then show ?case using mapper_indexes_frame [of c] by (simp add: mapper_ok_def)
qed (simp_all add: mapper_ok_def counted_def)

lemma mapper_reaches_ok: "mapper_reaches F k c \<Longrightarrow> mapper_ok c"
  unfolding mapper_reaches_def by (rule mp.reaches_ok)

text \<open>
  (C18) The mapper never fails: in every state it can get into, after any scans, injected data faults
  and restarts, a round of its loop that is not hung by an injected control flow error completes,
  without an access outside an array, on any contents of its pipes.
\<close>

theorem mapper_never_faults:
  assumes "mapper_reaches F k c" "\<not> insertCFE c"
  shows "\<exists>k'' c'. enterLoop F k' c = Inr (k'', c') \<and> mapper_ok c'"
  by (rule mapper_loop_ok [OF mapper_reaches_ok [OF assms(1)] assms(2)])

text \<open>Without an injected fault the message carries the cell of the pose.\<close>

lemma addObstacle_pose: "addObstacle c p = Inr (c', b) \<Longrightarrow> m_pose c' = m_pose c \<and> insertSDC c' = insertSDC c"
  by (auto simp: addObstacle_def Let_def split: if_splits)

lemma add_obstacles_pose: "add_obstacles c ps = Inr c' \<Longrightarrow> m_pose c' = m_pose c \<and> insertSDC c' = insertSDC c"
  by (induction ps arbitrary: c) (auto simp: then_do_Inr dest!: addObstacle_pose)

lemma updateMap_pose:
  assumes "updateMap F k c data = Inr (k', c')" "\<not> insertSDC c"
  defines "q \<equiv> gridify F \<lparr>pd_x = f_of_bits F (rp_pose data ! 0), pd_y = f_of_bits F (rp_pose data ! 1)\<rparr>"
  shows "mu_pose_x (m_msg c') = pi_x q \<and> mu_pose_y (m_msg c') = pi_y q"
proof -
  obtain msg c2 where c2: "add_obstacles (c\<lparr>m_pose := q, m_msg := msg\<rparr>) (scan_cells F data) = Inr c2" "c' = close_scan c2"
    using assms(1) unfolding updateMap_def Let_def q_def by (auto simp: then_do_Inr)
  then show ?thesis using add_obstacles_pose [OF c2(1)] assms(2) by (simp add: close_scan_def Let_def)
qed

section \<open>A concrete mapper\<close>

text \<open>A start with three pipes on the command line.\<close>

definition demo_mapper :: "(os \<times> mapper \<times> int) outcome" where
  "demo_mapper = main_init (True, True, True) \<lparr>te_affinity = (\<lambda>p s. True), te_mlock = True, te_maps = Some []\<rparr>
     \<lparr>fo_connects = False, fo_message = None, fo_reads = False\<rparr> 7 (demo_os [])
     [''Mapper'', ''6'', ''3'', ''RANGE_POSE_DATA:3:0'', ''MAP_UPDATE:0:4'', ''COMM_ACK:5:0'']"

lemma demo_mapper_ok:
  "case demo_mapper of Inl e \<Rightarrow> False
   | Inr (k, c, r) \<Rightarrow> r = 0 \<and> m_update_index c = 1 \<and> c_pipes c ! 1 = \<lparr>tp_type = MAP_UPDATE, tp_in = 0, tp_out = 4\<rparr> \<and> \<not> insertCFE c \<and> \<not> insertSDC c"
  by code_simp

lemma demo_mapper_reached:
  obtains k c where "demo_mapper = Inr (k, c, 0)" "mapper_reaches rat_fp k c" "\<not> insertCFE c" "\<not> insertSDC c"
    "pipe_at c (m_update_index c) = Inr \<lparr>tp_type = MAP_UPDATE, tp_in = 0, tp_out = 4\<rparr>"
proof -
  obtain k c where run: "demo_mapper = Inr (k, c, 0)" "m_update_index c = 1" "\<not> insertCFE c" "\<not> insertSDC c"
    "c_pipes c ! 1 = \<lparr>tp_type = MAP_UPDATE, tp_in = 0, tp_out = 4\<rparr>"
    using demo_mapper_ok by (auto split: sum.splits)
  have r: "mapper_reaches rat_fp k c" by (rule mapper_started [OF run(1) [unfolded demo_mapper_def]])
  then have "length (c_pipes c) = 3" using mapper_reaches_ok by (auto simp: mapper_ok_def)
  then show thesis using that [OF run(1) r run(3,4)] run(2,5) by (simp add: pipe_at_def)
qed

theorem updateMap_reports_new_obstacles_witness:
  "\<exists>k c k' c'. demo_mapper = Inr (k, c, 0) \<and>
    updateMap rat_fp k c \<lparr>rp_ranges = replicate 16 1, rp_pose = [0, 0, 0]\<rparr> = Inr (k', c') \<and> distinct (reported c')"
proof -
  obtain k c where c: "demo_mapper = Inr (k, c, 0)" "mapper_reaches rat_fp k c"
    "pipe_at c (m_update_index c) = Inr \<lparr>tp_type = MAP_UPDATE, tp_in = 0, tp_out = 4\<rparr>"
    by (rule demo_mapper_reached)
  have "counted c" using mapper_reaches_ok [OF c(2)] by (simp add: mapper_ok_def)
  from updateMap_reports_new_obstacles [OF this c(3)] c(1) show ?thesis by blast
qed

theorem mapper_never_faults_witness:
  "\<exists>k c k' c'. demo_mapper = Inr (k, c, 0) \<and> enterLoop rat_fp (demo_os [1, 2, 3]) c = Inr (k', c')"
proof -
  obtain k c where c: "demo_mapper = Inr (k, c, 0)" "mapper_reaches rat_fp k c" "\<not> insertCFE c"
    by (rule demo_mapper_reached)
  from mapper_never_faults [OF c(2,3)] c(1) show ?thesis by blast
qed

end
