(* ===== verification/Art_Pot.thy ===== *)
theory Art_Pot imports Controller begin

text \<open>
  The local navigator (\<open>controllers/art_pot.c\<close>): for each scan of the sensors it computes a velocity from
  the pull of the goal and the push of near obstacles, sends it, and asks the planner for new waypoints
  when the goal is near. Numbers are kept as the bits that come over the pipes; arithmetic is that of the
  parameter \<open>F\<close>. The configuration is the one for a grid of 80 cells.
\<close>

section \<open>State\<close>

record art_pot = controller +
  ap_goal :: "double list"
  ap_next_goal :: "double list"
  ap_pos :: "double list"
  ap_ranges :: "double list"
  ap_data_index :: int
  ap_out_index :: int
  ap_way_req_index :: int
  ap_way_res_index :: int

abbreviation DIST_EPSILON :: rat where "DIST_EPSILON \<equiv> 6 / 10"
abbreviation GOAL_EXTENT :: rat where "GOAL_EXTENT \<equiv> 5 / 10"
abbreviation OBST_RADIUS :: rat where "OBST_RADIUS \<equiv> 3 / 10"
abbreviation OBST_EXTENT :: rat where "OBST_EXTENT \<equiv> 5 / 10"

definition setPipeIndexes :: "'a art_pot_scheme \<Rightarrow> 'a art_pot_scheme" where
  "setPipeIndexes c =
     for_upto (nat (c_pipe_count c)) (\<lambda>i c.
       case tp_type (c_pipes c ! i) of
         RANGE_POSE_DATA \<Rightarrow> c\<lparr>ap_data_index := int i\<rparr>
       | MOV_CMD \<Rightarrow> c\<lparr>ap_out_index := int i\<rparr>
       | WAY_RES \<Rightarrow> c\<lparr>ap_way_res_index := int i\<rparr>
       | WAY_REQ \<Rightarrow> c\<lparr>ap_way_req_index := int i\<rparr>
       | _ \<Rightarrow> c) (c\<lparr>ap_way_req_index := - 1, ap_way_res_index := - 1\<rparr>)"

section \<open>Steering\<close>

text \<open>Distance and direction of the goal, seen from the robot.\<close>

definition goal_distance :: "'d fp \<Rightarrow> double list \<Rightarrow> double list \<Rightarrow> 'd" where
  "goal_distance F goal pos =
     (let g = (\<lambda>i. f_of_bits F (goal ! i)); p = (\<lambda>i. f_of_bits F (pos ! i)) in
      f_sqrt F (f_add F (f_pow F (f_sub F (g 0) (p 0)) (f_lit F 2)) (f_pow F (f_sub F (g 1) (p 1)) (f_lit F 2))))"

definition goal_angle :: "'d fp \<Rightarrow> double list \<Rightarrow> double list \<Rightarrow> 'd" where
  "goal_angle F goal pos =
     (let g = (\<lambda>i. f_of_bits F (goal ! i)); p = (\<lambda>i. f_of_bits F (pos ! i)) in
      f_sub F (f_atan2 F (f_sub F (g 1) (p 1)) (f_sub F (g 0) (p 0))) (p 2))"

definition near_goal :: "'d fp \<Rightarrow> double list \<Rightarrow> double list \<Rightarrow> bool" where
  "near_goal F goal pos \<longleftrightarrow> f_le F (goal_distance F goal pos) (f_lit F DIST_EPSILON)"

text \<open>The pull of the goal: the two components and the number of factors.\<close>

definition goal_pull :: "'d fp \<Rightarrow> 'd \<Rightarrow> 'd \<Rightarrow> 'd \<times> 'd \<times> int" where
  "goal_pull F gap theta =
     (let nought = f_of_int F 0; unit1 = f_of_int F 1 in
      if f_lt F gap nought then (nought, nought, 0)
      else if f_le F nought gap \<and> f_le F gap (f_add F (f_lit F GOAL_EXTENT) nought) then
        (let v = f_mul F unit1 (f_sub F gap nought) in (f_mul F v (f_cos F theta), f_mul F v (f_sin F theta), 1))
      else (f_mul F unit1 (f_cos F theta), f_mul F unit1 (f_sin F theta), 1))"

definition push_away :: "'d fp \<Rightarrow> double list \<Rightarrow> nat \<Rightarrow> 'd \<times> 'd \<times> int \<Rightarrow> 'd \<times> 'd \<times> int" where
  "push_away F ranges i = (\<lambda>(delta_x, delta_y, total).
     let M_PI = f_lit F (314159265358979323846 / 100000000000000000000);
         tao = f_div F (f_mul F (f_mul F (f_of_int F 2) M_PI) (f_of_int F (int i))) (f_of_int F 16);
         range = f_of_bits F (ranges ! i);
         obs_x = f_mul F range (f_cos F tao);
         obs_y = f_mul F range (f_sin F tao);
         gap = f_sqrt F (f_add F (f_pow F obs_x (f_lit F 2)) (f_pow F obs_y (f_lit F 2)));
         theta = f_atan2 F obs_y obs_x;
         reach = f_add F (f_lit F OBST_EXTENT) (f_lit F OBST_RADIUS);
         force = f_mul F (f_of_int F (- 1)) (f_sub F reach gap) in
     if f_le F gap reach
     then (f_add F delta_x (f_mul F force (f_cos F theta)), f_add F delta_y (f_mul F force (f_sin F theta)), total + 1)
     else (delta_x, delta_y, total))"

definition velocity :: "'d fp \<Rightarrow> 'd \<times> 'd \<times> int \<Rightarrow> 'd \<times> 'd" where
  "velocity F = (\<lambda>(delta_x, delta_y, total).
     let dx = f_div F delta_x (f_of_int F total);
         dy = f_div F delta_y (f_of_int F total);
         v0 = f_sqrt F (f_add F (f_pow F dx (f_lit F 2)) (f_pow F dy (f_lit F 2)));
         v1 = f_atan2 F dy dx in
     (if f_lt F (f_fabs F v1) (f_of_int F 1) then f_mul F (f_of_int F 2) v0 else f_lit F 0,
      f_mul F (f_of_int F 2) v1))"

definition steer :: "'d fp \<Rightarrow> double list \<Rightarrow> double list \<Rightarrow> double list \<Rightarrow> 'd \<times> 'd" where
  "steer F goal pos ranges =
     (let gap = goal_distance F goal pos in
      if f_lt F (f_lit F DIST_EPSILON) gap then
        velocity F (for_upto 16 (push_away F ranges) (goal_pull F gap (goal_angle F goal pos)))
      else (f_lit F 0, f_lit F 0))"

text \<open>
  \<open>command\<close>: without a planner \<open>way_req_index\<close> is -1, and the request then reads in front of the array.
\<close>

definition command :: "'d fp \<Rightarrow> os \<Rightarrow> 'a art_pot_scheme \<Rightarrow> (os \<times> 'a art_pot_scheme) outcome" where
  "command F k c =
     (let request_way = near_goal F (ap_goal c) (ap_pos c);
          c1 = (if request_way then c\<lparr>ap_goal := map (\<lambda>i. ap_next_goal c ! i) [0..<3]\<rparr> else c);
          (v0, v1) = steer F (ap_goal c1) (ap_pos c1) (ap_ranges c1);
          v0' = (if insertSDC c1 then f_add F v0 (f_of_int F 1) else v0);
          c2 = c1\<lparr>insertSDC := False\<rparr> in
      then_do (if request_way then then_do (pipe_at c2 (ap_way_req_index c2)) (\<lambda>p. Inr (fst (commSendWaypointRequest k p)))
               else Inr k) (\<lambda>k1.
        then_do (pipe_at c2 (ap_out_index c2)) (\<lambda>p.
          Inr (fst (commSendMoveCommand k1 p (f_bits F v0') (f_bits F v1)), c2))))"

section \<open>The loop\<close>

definition on_data :: "'d fp \<Rightarrow> os \<Rightarrow> 'a art_pot_scheme \<Rightarrow> (os \<times> 'a art_pot_scheme) outcome" where
  "on_data F k c =
     then_do (pipe_at c (ap_data_index c)) (\<lambda>p.
       case os_read k (tp_in p) 152 of
         (k1, None) \<Rightarrow> Inr (k1, c)
       | (k1, Some bs) \<Rightarrow>
           (if length bs = 152 then
              (case commCopyRanger (range_pose_of_bytes bs) of
                 (ranges, pos) \<Rightarrow> command F k1 (c\<lparr>ap_ranges := ranges, ap_pos := pos\<rparr>))
            else Inr (k1, c)))"

definition on_waypoints :: "os \<Rightarrow> 'a art_pot_scheme \<Rightarrow> (os \<times> 'a art_pot_scheme) outcome" where
  "on_waypoints k c =
     then_do (pipe_at c (ap_way_res_index c)) (\<lambda>p.
       case os_read k (tp_in p) 48 of
         (k1, None) \<Rightarrow> Inr (k1, c)
       | (k1, Some bs) \<Rightarrow>
           (if length bs = 48 then
              (case commCopyWaypoints (way_res_of_bytes bs) of
                 (g, n) \<Rightarrow> Inr (k1, c\<lparr>ap_goal := g, ap_next_goal := n\<rparr>))
            else Inr (k1, c)))"

definition enterLoop :: "'d fp \<Rightarrow> os \<Rightarrow> 'a art_pot_scheme \<Rightarrow> (os \<times> 'a art_pot_scheme) outcome" where
  "enterLoop F k c =
     (if insertCFE c then Inl Hangs
      else
        then_do (pipe_at c (ap_data_index c)) (\<lambda>dp.
          then_do (if c_pipe_count c = 4 then then_do (pipe_at c (ap_way_res_index c)) (\<lambda>p. Inr [tp_in p]) else Inr [])
            (\<lambda>ways.
              let ready = os_select k (tp_in dp # ways) in
              if ready = [] then Inr (k, c)
              else
                then_do (if tp_in dp \<in> set ready then on_data F k c else Inr (k, c)) (\<lambda>(k1, c1).
                  if c_pipe_count c1 = 4 \<and> set ways \<inter> set ready \<noteq> {} then on_waypoints k1 c1 else Inr (k1, c1)))))"

section \<open>Start\<close>

definition parseArgs :: "fd_offer \<Rightarrow> pid \<Rightarrow> os \<Rightarrow> string list \<Rightarrow> 'a art_pot_scheme \<Rightarrow>
    (os \<times> 'a art_pot_scheme \<times> int) outcome" where
  "parseArgs S pid k argv c =
     (if length argv < 3 then Inl Undefined
      else
        (let c1 = c\<lparr>c_priority := atoi (argv ! 1), c_pipe_count := atoi (argv ! 2)\<rparr> in
         if int (length (c_pipes c1)) < c_pipe_count c1 then Inl OutOfBounds
         else if length argv < 5 then
           then_do (connect_pipes (offer_for S (c_pipe_count c1)) pid k c1 (nat (c_pipe_count c1)) (c_name c1)) (\<lambda>(k1, c2, r).
             if r < 0 then Inl Exited else Inr (k1, setPipeIndexes c2, 0))
         else
           then_do (read_pipe_args (drop 3 argv) 0 (c_pipes c1)) (\<lambda>ps.
             Inr (k, setPipeIndexes (c1\<lparr>c_pipes := ps\<rparr>), 0))))"

definition art_pot_globals :: art_pot where
  "art_pot_globals =
     \<lparr>c_name = ''ArtPot'', c_priority = 0, c_pipe_count = 4, c_pipes = replicate 4 blank_pipe,
      insertSDC = False, insertCFE = False, ap_goal = [0, 0, 0], ap_next_goal = [0, 0, 0],
      ap_pos = [0, 0, 0], ap_ranges = replicate 16 0,
      ap_data_index = 0, ap_out_index = 0, ap_way_req_index = 0, ap_way_res_index = 0\<rparr>"

definition main_init :: "'d fp \<Rightarrow> bool \<times> bool \<times> bool \<Rightarrow> tas_env \<Rightarrow> fd_offer \<Rightarrow> pid \<Rightarrow> os \<Rightarrow> string list \<Rightarrow>
    (os \<times> art_pot \<times> int) outcome" where
  "main_init F fl E S pid k argv =
     then_do (parseArgs S pid k argv art_pot_globals) (\<lambda>(k1, c1, r).
       if r < 0 then Inr (k1, c1, - 1)
       else then_do (initController (fst fl) (fst (snd fl)) (snd (snd fl)) E pid k1 c1) (\<lambda>(k2, r2).
         if r2 < 0 then Inr (k2, c1, - 1)
         else if c_pipe_count c1 = 4 then
           then_do (pipe_at c1 (ap_way_req_index c1)) (\<lambda>p. Inr (fst (commSendWaypointRequest k2 p), c1, 0))
         else Inr (k2, c1\<lparr>ap_goal := [f_bits F (f_lit F 7), f_bits F (f_lit F 7), ap_goal c1 ! 2]\<rparr>, 0)))"

section \<open>The array of pipes\<close>

definition art_pot_ok :: "'a art_pot_scheme \<Rightarrow> bool" where
  "art_pot_ok c \<longleftrightarrow> length (c_pipes c) = 4 \<and> c_pipe_count c \<le> 4 \<and> length (ap_goal c) = 3 \<and> length (ap_next_goal c) = 3"

lemma art_pot_indexes_ok [simp]: "art_pot_ok (setPipeIndexes c) = art_pot_ok c"
  unfolding setPipeIndexes_def
  by (rule for_upto_invariant [where I = "\<lambda>d. art_pot_ok d = art_pot_ok c"]) (auto simp: art_pot_ok_def split: comm_message_t.splits)

lemma main_init_art_pot_ok:
  assumes "main_init F fl E S pid k argv = Inr (k', c, 0)"
  shows "art_pot_ok c"
proof -
  let ?c = "art_pot_globals\<lparr>c_priority := atoi (argv ! 1), c_pipe_count := atoi (argv ! 2)\<rparr>"
  obtain k1 c1 r where p: "parseArgs S pid k argv art_pot_globals = Inr (k1, c1, r)"
    "c = c1 \<or> (\<exists>x. c = c1\<lparr>ap_goal := [x, x, ap_goal c1 ! 2]\<rparr>)"
    using assms by (auto simp: main_init_def then_do_Inr split: if_splits)
  have g: "length (c_pipes ?c) = 4" by (simp add: art_pot_globals_def)
  have gk: "art_pot_ok (?c\<lparr>c_pipes := ps\<rparr>)" if "length ps = 4" "c_pipe_count ?c \<le> 4" for ps
    using that by (simp add: art_pot_ok_def art_pot_globals_def)
  consider k2 c2 r2 where "c_pipe_count ?c \<le> 4"
      "connect_pipes (offer_for S (c_pipe_count ?c)) pid k ?c (nat (c_pipe_count ?c)) (c_name ?c) = Inr (k2, c2, r2)" "c1 = setPipeIndexes c2"
    | ps where "c_pipe_count ?c \<le> 4" "read_pipe_args (drop 3 argv) 0 (c_pipes ?c) = Inr ps" "c1 = setPipeIndexes (?c\<lparr>c_pipes := ps\<rparr>)"
    using p(1) g by (auto simp: parseArgs_def Let_def then_do_Inr nat_le_iff split: if_splits)
  then have "art_pot_ok c1"
  proof cases
    case 1
    have "nat (c_pipe_count ?c) \<le> length (c_pipes ?c)" using 1(1) g by (simp add: nat_le_iff)
    from connect_pipes_ok [OF 1(2) this] show ?thesis using gk 1(1,3) g by auto
  next
    case 2
    then show ?thesis using read_pipe_args_length [OF 2(2)] gk g by simp
  qed
  then show ?thesis using p(2) by (auto simp: art_pot_ok_def)
qed

lemma command_keeps_ok: "command F k c = Inr (k1, c1) \<Longrightarrow> art_pot_ok c \<Longrightarrow> art_pot_ok c1"
  by (auto simp: command_def Let_def then_do_Inr art_pot_ok_def split: if_splits prod.splits)

lemma on_data_keeps_ok:
  assumes "on_data F k c = Inr (k1, c1)" "art_pot_ok c"
  shows "art_pot_ok c1"
proof -
  obtain p where p: "pipe_at c (ap_data_index c) = Inr p" using assms(1) by (auto simp: on_data_def then_do_Inr)
  obtain k2 res where r: "os_read k (tp_in p) 152 = (k2, res)" by fastforce
  obtain g q where g: "commCopyRanger (range_pose_of_bytes (the res)) = (g, q)" by fastforce
  have "c1 = c \<or> command F k2 (c\<lparr>ap_ranges := g, ap_pos := q\<rparr>) = Inr (k1, c1)"
    using assms(1) g by (cases res) (auto simp: on_data_def p r split: if_splits)
  moreover have "art_pot_ok (c\<lparr>ap_ranges := g, ap_pos := q\<rparr>)" using assms(2) by (simp add: art_pot_ok_def)
  ultimately show ?thesis using assms(2) command_keeps_ok by blast
qed

lemma on_waypoints_keeps_ok:
  assumes "on_waypoints k c = Inr (k1, c1)" "art_pot_ok c"
  shows "art_pot_ok c1"
proof -
  obtain p where p: "pipe_at c (ap_way_res_index c) = Inr p" using assms(1) by (auto simp: on_waypoints_def then_do_Inr)
  obtain k2 res where r: "os_read k (tp_in p) 48 = (k2, res)" by fastforce
  show ?thesis
    using assms by (cases res) (auto simp: on_waypoints_def p r commCopyWaypoints_def art_pot_ok_def split: if_splits)
qed

lemma enterLoop_keeps_ok:
  assumes "enterLoop F k c = Inr (k1, c1)" "art_pot_ok c"
  shows "art_pot_ok c1"
proof -
  obtain k2 c2 where "c2 = c \<or> on_data F k c = Inr (k2, c2)" "c1 = c2 \<or> on_waypoints k2 c2 = Inr (k1, c1)"
    using assms(1) by (auto simp: enterLoop_def then_do_Inr Let_def split: if_splits)
  then show ?thesis using on_data_keeps_ok on_waypoints_keeps_ok assms(2) by blast
qed

interpretation ap: controller_program art_pot_ok "\<lambda>k c. \<exists>fl E S pid k0 argv. main_init F fl E S pid k0 argv = Inr (k, c, 0)"
  "enterLoop F" setPipeIndexes for F :: "'d fp"
proof (unfold_locales, goal_cases)
  case (1 k c)
  then show ?case using main_init_art_pot_ok by blast
next
  case (2 c k k1 c1)
  then show ?case using enterLoop_keeps_ok by blast
qed (simp_all, simp_all add: art_pot_ok_def)

section \<open>Commands\<close>

text \<open>
  (C35) One scan, one command. With an open pipe for commands, \<open>command\<close> writes exactly one message of
  16 bytes to it, the velocity that \<open>steer\<close> computes for the goal now in force, and a request for
  waypoints goes out exactly when the old goal was near, in which case the next goal has taken its place.
\<close>

theorem command_sends_one_velocity:
  assumes "pipe_at c (ap_out_index c) = Inr po" "tp_type po = MOV_CMD" "tp_out po \<noteq> 0"
    "os_lookup k (tp_out po) = Some (WriteEnd q)" "q < length (os_pipes k)"
    "pipe_at c (ap_way_req_index c) = Inr pr" "tp_type pr = WAY_REQ" "tp_out pr \<noteq> 0"
    "os_lookup k (tp_out pr) = Some (WriteEnd w)" "w < length (os_pipes k)" "w \<noteq> q"
    "length (ap_next_goal c) = 3" "\<not> insertSDC c"
  shows "\<exists>k' c'. command F k c = Inr (k', c') \<and>
    ap_goal c' = (if near_goal F (ap_goal c) (ap_pos c) then ap_next_goal c else ap_goal c) \<and>
    os_pipes k' ! q = os_pipes k ! q @ mov_cmd_bytes \<lparr>vel_cmd =
      [f_bits F (fst (steer F (ap_goal c') (ap_pos c) (ap_ranges c))), f_bits F (snd (steer F (ap_goal c') (ap_pos c) (ap_ranges c)))]\<rparr> \<and>
    os_pipes k' ! w = os_pipes k ! w @ (if near_goal F (ap_goal c) (ap_pos c) then int_bytes 0 else [])"
proof -
  let ?near = "near_goal F (ap_goal c) (ap_pos c)"
  have next3: "map (\<lambda>i. ap_next_goal c ! i) [0..<3] = ap_next_goal c" using assms(12) map_nth by metis
  let ?g = "if ?near then ap_next_goal c else ap_goal c"
  let ?c = "c\<lparr>ap_goal := ?g, insertSDC := False\<rparr>"
  obtain v0 v1 where v: "steer F ?g (ap_pos c) (ap_ranges c) = (v0, v1)" by fastforce
  have same: "c = c\<lparr>ap_goal := ap_goal c\<rparr>" by simp
  have pipes: "pipe_at ?c (ap_out_index c) = Inr po" "pipe_at ?c (ap_way_req_index c) = Inr pr"
    using assms(1,6) by (simp_all add: pipe_at_def split: if_splits)
  let ?k1 = "if ?near then k\<lparr>os_pipes := (os_pipes k)[w := os_pipes k ! w @ int_bytes 0]\<rparr> else k"
  have "fst (commSendWaypointRequest k pr) = k\<lparr>os_pipes := (os_pipes k)[w := os_pipes k ! w @ int_bytes 0]\<rparr>"
    using assms(7-10) by (simp add: commSendWaypointRequest_def os_write_def)
  then have "command F k c = Inr (fst (commSendMoveCommand ?k1 po (f_bits F v0) (f_bits F v1)), ?c)"
    using pipes v assms(13) next3 by (cases ?near) (simp_all add: command_def Let_def)
  moreover have "fst (commSendMoveCommand ?k1 po (f_bits F v0) (f_bits F v1)) =
      ?k1\<lparr>os_pipes := (os_pipes ?k1)[q := os_pipes k ! q @ mov_cmd_bytes \<lparr>vel_cmd = [f_bits F v0, f_bits F v1]\<rparr>]\<rparr>"
    using assms(2-5,11) by (simp add: commSendMoveCommand_def os_write_def mov_cmd_bytes_def)
  ultimately show ?thesis using v assms(5,10,11) by (auto simp: nth_list_update)
qed

text \<open>A robot at its goal, with nothing near it, and the pipes of the planner and of the wheels.\<close>

definition demo_art_pot :: art_pot where
  "demo_art_pot = art_pot_globals\<lparr>c_pipes := [blank_pipe, \<lparr>tp_type = MOV_CMD, tp_in = 0, tp_out = 3\<rparr>,
       \<lparr>tp_type = WAY_REQ, tp_in = 0, tp_out = 4\<rparr>, blank_pipe], ap_out_index := 1, ap_way_req_index := 2,
     ap_next_goal := [5, 0, 0], ap_ranges := replicate 16 100\<rparr>"

abbreviation demo_wheels :: os where
  "demo_wheels \<equiv> (demo_os [])\<lparr>os_fd_table := [Some SocketEnd, Some SocketEnd, Some SocketEnd, Some (WriteEnd 0), Some (WriteEnd 1)],
     os_pipes := [[], []]\<rparr>"

lemma push_away_far: "push_away rat_fp (replicate 16 100) i d = d" if "i < 16"
proof -
  obtain x y t where d: "d = (x, y, t)" by (cases d)
  let ?o = "100 * (2 * (314159265358979323846 / 100000000000000000000) * rat_of_nat i / 16)"
  have "1 \<le> 100 * 100 + ?o * ?o" by (rule order_trans [of _ "100 * 100"]) simp_all
  from rat_sqrt_ge_1 [OF this] have "\<not> rat_sqrt (100 * 100 + ?o * ?o) \<le> 5 / 10 + 3 / 10" by linarith
  then show ?thesis using that by (simp only: push_away_def d Let_def rat_fp_def fp.simps id_apply nth_replicate case_prod_conv if_False) simp
qed

lemma demo_steer:
  "near_goal rat_fp [0, 0, 0] [0, 0, 0]"
  "steer rat_fp [5, 0, 0] [0, 0, 0] (replicate 16 100) = (2, 0)"
proof -
  show "near_goal rat_fp [0, 0, 0] [0, 0, 0]" by code_simp
  have "for_upto n (push_away rat_fp (replicate 16 100)) d = d" if "n \<le> 16" for n d
    using that by (induction n) (simp_all add: for_upto_Suc push_away_far)
  then have "steer rat_fp [5, 0, 0] [0, 0, 0] (replicate 16 100) =
      (let g = goal_distance rat_fp [5, 0, 0] [0, 0, 0] in
       if f_lt rat_fp (f_lit rat_fp DIST_EPSILON) g then velocity rat_fp (goal_pull rat_fp g (goal_angle rat_fp [5, 0, 0] [0, 0, 0]))
       else (f_lit rat_fp 0, f_lit rat_fp 0))"
    by (simp only: steer_def order_refl)
  also have "\<dots> = (2, 0)" by code_simp
  finally show "steer rat_fp [5, 0, 0] [0, 0, 0] (replicate 16 100) = (2, 0)" .
qed

theorem command_sends_one_velocity_witness:
  "\<exists>k' c'. command rat_fp demo_wheels demo_art_pot = Inr (k', c') \<and> ap_goal c' = [5, 0, 0] \<and>
    os_pipes k' ! 0 = mov_cmd_bytes \<lparr>vel_cmd = [2, 0]\<rparr> \<and> os_pipes k' ! 1 = int_bytes 0"
proof -
  have "f_bits rat_fp 2 = 2" "f_bits rat_fp 0 = 0" by (simp_all add: rat_fp_def rat_trunc_def)
  then show ?thesis
    using command_sends_one_velocity [where F = rat_fp and k = demo_wheels and c = demo_art_pot and q = 0 and w = 1
        and po = "\<lparr>tp_type = MOV_CMD, tp_in = 0, tp_out = 3\<rparr>" and pr = "\<lparr>tp_type = WAY_REQ, tp_in = 0, tp_out = 4\<rparr>"]
      demo_steer
    by (simp add: demo_art_pot_def art_pot_globals_def pipe_at_def os_lookup_def) (elim exE conjE, simp)
qed

end
