(* ===== verification/Scan_Filter.thy ===== *)
theory Scan_Filter imports Controller begin

text \<open>
  The filter (\<open>controllers/filter.c\<close>): it reads the scans of the sensors and writes each to all of its
  outputs. The array of pipes has four elements, the first is the input.
\<close>

section \<open>State\<close>

record filter_state = controller +
  fi_ranges :: "double list"
  fi_pose :: "double list"
  fi_data_index :: int
  fi_out_index :: "int list"

definition setPipeIndexes :: "'a filter_state_scheme \<Rightarrow> 'a filter_state_scheme" where
  "setPipeIndexes c = for_upto 3 (\<lambda>i c. c\<lparr>fi_out_index := (fi_out_index c)[i := int (i + 1)]\<rparr>) (c\<lparr>fi_data_index := 0\<rparr>)"

section \<open>Start\<close>

text \<open>The outputs on the command line: one argument for each of the remaining pipes.\<close>

fun read_outputs :: "string list \<Rightarrow> nat \<Rightarrow> int list \<Rightarrow> typed_pipe list \<Rightarrow> typed_pipe list outcome" where
  "read_outputs args 0 outs ps = Inr ps"
| "read_outputs args (Suc n) [] ps = Inl OutOfBounds"
| "read_outputs [] (Suc n) (j # outs) ps = Inl Undefined"
| "read_outputs (a # args) (Suc n) (j # outs) ps =
     then_do (or_fault Undefined (deserializePipe a)) (\<lambda>p. read_outputs args n outs (ps[nat j := p]))"

definition parseArgs :: "fd_offer \<Rightarrow> pid \<Rightarrow> os \<Rightarrow> string list \<Rightarrow> 'a filter_state_scheme \<Rightarrow>
    (os \<times> 'a filter_state_scheme \<times> int) outcome" where
  "parseArgs S pid k argv c =
     (if length argv < 3 then Inl Undefined
      else
        (let c1 = (setPipeIndexes c)\<lparr>c_priority := atoi (argv ! 1), c_pipe_count := atoi (argv ! 2)\<rparr>;
             count = c_pipe_count c1 in
         if length argv < 5 then
           (if int (length (c_pipes c1)) < count then Inl OutOfBounds
            else then_do (connect_pipes (offer_for S count) pid k c1 (nat count) (c_name c1)) (\<lambda>(k1, c2, _). Inr (k1, c2, 0)))
         else
           then_do (or_fault Undefined (deserializePipe (argv ! 3))) (\<lambda>p.
             then_do (read_outputs (drop 4 argv) (nat (count - 1)) (fi_out_index c1) ((c_pipes c1)[nat (fi_data_index c1) := p]))
               (\<lambda>ps. Inr (k, c1\<lparr>c_pipes := ps\<rparr>, 0)))))"

definition filter_globals :: filter_state where
  "filter_globals =
     \<lparr>c_name = ''Filter'', c_priority = 0, c_pipe_count = 4, c_pipes = replicate 4 blank_pipe,
      insertSDC = False, insertCFE = False, fi_ranges = replicate 16 0, fi_pose = [0, 0, 0],
      fi_data_index = 0, fi_out_index = [0, 0, 0]\<rparr>"

definition main_init :: "bool \<times> bool \<times> bool \<Rightarrow> tas_env \<Rightarrow> fd_offer \<Rightarrow> pid \<Rightarrow> os \<Rightarrow> string list \<Rightarrow>
    (os \<times> filter_state \<times> int) outcome" where
  "main_init fl E S pid k argv =
     then_do (parseArgs S pid k argv filter_globals) (\<lambda>(k1, c1, r).
       if r < 0 then Inr (k1, c1, - 1)
       else then_do (initController (fst fl) (fst (snd fl)) (snd (snd fl)) E pid k1 c1) (\<lambda>(k2, r2).
         if r2 < 0 then Inr (k2, c1, - 1) else Inr (k2, c1, 0)))"

section \<open>The loop\<close>

definition send_output :: "'a filter_state_scheme \<Rightarrow> nat \<Rightarrow> os \<Rightarrow> os outcome" where
  "send_output c i k =
     (if length (fi_out_index c) \<le> i then Inl OutOfBounds
      else then_do (pipe_at c (fi_out_index c ! i)) (\<lambda>p. Inr (fst (commSendRanger k p (fi_ranges c) (fi_pose c)))))"

primrec send_outputs :: "'a filter_state_scheme \<Rightarrow> nat \<Rightarrow> os \<Rightarrow> os outcome" where
  "send_outputs c 0 k = Inr k"
| "send_outputs c (Suc n) k = then_do (send_outputs c n k) (send_output c n)"

definition command :: "'d fp \<Rightarrow> os \<Rightarrow> 'a filter_state_scheme \<Rightarrow> (os \<times> 'a filter_state_scheme) outcome" where
  "command F k c =
     (let c1 = (if insertSDC c
                then c\<lparr>insertSDC := False,
                       fi_ranges := (fi_ranges c)[0 := f_bits F (f_add F (f_of_bits F (fi_ranges c ! 0)) (f_of_int F 1))]\<rparr>
                else c) in
      then_do (send_outputs c1 (nat (c_pipe_count c1 - 1)) k) (\<lambda>k1. Inr (k1, c1)))"

definition on_data :: "'d fp \<Rightarrow> os \<Rightarrow> 'a filter_state_scheme \<Rightarrow> (os \<times> 'a filter_state_scheme) outcome" where
  "on_data F k c =
     then_do (pipe_at c (fi_data_index c)) (\<lambda>p.
       case os_read k (tp_in p) 152 of
         (k1, None) \<Rightarrow> Inr (k1, c)
       | (k1, Some bs) \<Rightarrow>
           (if length bs = 152 then
              (case commCopyRanger (range_pose_of_bytes bs) of
                 (ranges, pose) \<Rightarrow> command F k1 (c\<lparr>fi_ranges := ranges, fi_pose := pose\<rparr>))
            else Inr (k1, c)))"

definition enterLoop :: "'d fp \<Rightarrow> os \<Rightarrow> 'a filter_state_scheme \<Rightarrow> (os \<times> 'a filter_state_scheme) outcome" where
  "enterLoop F k c =
     (if insertCFE c then Inl Hangs
      else
        then_do (pipe_at c (fi_data_index c)) (\<lambda>dp.
          if tp_in dp \<in> set (os_select k [tp_in dp]) then on_data F k c else Inr (k, c)))"

section \<open>The array of pipes\<close>

definition filter_ok :: "'a filter_state_scheme \<Rightarrow> bool" where
  "filter_ok c \<longleftrightarrow> length (c_pipes c) = 4 \<and> c_pipe_count c \<le> 4 \<and> fi_data_index c = 0 \<and> fi_out_index c = [1, 2, 3]"

lemma setPipeIndexes_ok:
  "length (fi_out_index c) = 3 \<Longrightarrow> fi_out_index (setPipeIndexes c) = [1, 2, 3]"
  "fi_data_index (setPipeIndexes c) = 0" "c_pipes (setPipeIndexes c) = c_pipes c"
  "c_pipe_count (setPipeIndexes c) = c_pipe_count c"
  by (auto simp: setPipeIndexes_def for_upto_def length_Suc_conv numeral_3_eq_3)

lemma read_outputs_ok: "read_outputs args n outs ps = Inr ps' \<Longrightarrow> length ps' = length ps \<and> n \<le> length outs"
  by (induction args n outs ps rule: read_outputs.induct) (auto simp: then_do_Inr)

lemma main_init_filter_ok:
  assumes "main_init fl E S pid k argv = Inr (k', c, 0)"
  shows "filter_ok c"
proof -
  let ?c = "(setPipeIndexes filter_globals)\<lparr>c_priority := atoi (argv ! 1), c_pipe_count := atoi (argv ! 2)\<rparr>"
  have g: "fi_out_index ?c = [1, 2, 3]" "fi_data_index ?c = 0" "length (c_pipes ?c) = 4" "c_pipe_count ?c = atoi (argv ! 2)"
    by (simp_all add: setPipeIndexes_ok) (simp_all add: filter_globals_def setPipeIndexes_ok)
  obtain k1 r where p: "parseArgs S pid k argv filter_globals = Inr (k1, c, r)"
    using assms by (auto simp: main_init_def then_do_Inr split: if_splits)
  show ?thesis
  proof (cases "length argv < 5")
    case True
    then obtain k2 r2 where "connect_pipes (offer_for S (atoi (argv ! 2))) pid k ?c (nat (atoi (argv ! 2))) (c_name ?c) = Inr (k2, c, r2)"
      "atoi (argv ! 2) \<le> 4"
      using p g(3) by (auto simp: parseArgs_def Let_def then_do_Inr split: if_splits)
    moreover from this have "nat (atoi (argv ! 2)) \<le> length (c_pipes ?c)" using g(3) by simp
    ultimately show ?thesis using connect_pipes_ok g by (fastforce simp: filter_ok_def)
  next
    case False
    then show ?thesis using p g by (auto simp: parseArgs_def Let_def then_do_Inr filter_ok_def dest!: read_outputs_ok split: if_splits)
  qed
qed

lemma enterLoop_filter_ok:
  fixes c :: "'b filter_state_scheme"
  assumes "enterLoop F k c = Inr (k1, c1)" "filter_ok c"
  shows "filter_ok c1"
proof -
  have cmd: "filter_ok d1" if "command F h d = Inr (h1, d1)" "filter_ok d" for h h1 and d d1 :: "'b filter_state_scheme"
    using that by (auto simp: command_def Let_def then_do_Inr filter_ok_def split: if_splits)
  have "filter_ok (c\<lparr>fi_ranges := r, fi_pose := p\<rparr>)" for r p using assms(2) by (simp add: filter_ok_def)
  then show ?thesis using assms cmd
    by (auto simp: enterLoop_def on_data_def then_do_Inr split: if_splits option.splits prod.splits)
qed

interpretation fi: controller_program filter_ok "\<lambda>k c. \<exists>fl E S pid k0 argv. main_init fl E S pid k0 argv = Inr (k, c, 0)"
  "enterLoop F" setPipeIndexes for F :: "'d fp"
proof (unfold_locales, goal_cases)
  case (1 k c)
  then show ?case using main_init_filter_ok by blast
next
  case (2 c k k1 c1)
  then show ?case using enterLoop_filter_ok by blast
next
  case (6 c)
  then show ?case by (simp add: filter_ok_def setPipeIndexes_ok)
qed (simp_all add: filter_ok_def)

text \<open>In no reachable state does a round of the filter leave one of its arrays.\<close>

lemma filter_never_faults:
  assumes "program_reaches (\<lambda>k c. \<exists>fl E S pid k0 argv. main_init fl E S pid k0 argv = Inr (k, c, 0)) (enterLoop F) setPipeIndexes k c"
    "\<not> insertCFE c"
  shows "\<exists>k'' c'. enterLoop F k' c = Inr (k'', c')"
proof -
  have so: "\<exists>h1. send_outputs d n h = Inr h1" if "filter_ok d" "n \<le> 3" for d :: filter_state and n h
    using that(2)
  proof (induction n)
    case (Suc n)
    then obtain h1 where "send_outputs d n h = Inr h1" by auto
    moreover have "n < 3" using Suc.prems by simp
    then have "fi_out_index d ! n = int n + 1" using that(1) by (auto simp: filter_ok_def less_Suc_eq numeral_3_eq_3)
    ultimately show ?case using that(1) Suc.prems by (simp add: send_output_def pipe_at_def filter_ok_def nat_add_distrib)
  qed simp
  have ok: "filter_ok c" using fi.reaches_ok [OF assms(1)] .
  have cmd: "\<exists>r. command F h d = Inr r" if "filter_ok d" for h and d :: filter_state
  proof -
    let ?d = "if insertSDC d then d\<lparr>insertSDC := False,
        fi_ranges := (fi_ranges d)[0 := f_bits F (f_add F (f_of_bits F (fi_ranges d ! 0)) (f_of_int F 1))]\<rparr> else d"
    have "filter_ok ?d" "nat (c_pipe_count ?d - 1) \<le> 3" using that by (auto simp: filter_ok_def nat_le_iff)
    from so [OF this] obtain h1 where "send_outputs ?d (nat (c_pipe_count ?d - 1)) h = Inr h1" by blast
    then show ?thesis unfolding command_def Let_def by simp
  qed
  have p: "pipe_at c (fi_data_index c) = Inr (c_pipes c ! 0)" using ok by (simp add: filter_ok_def pipe_at_def)
  have "filter_ok (c\<lparr>fi_ranges := r, fi_pose := q\<rparr>)" for r q using ok by (simp add: filter_ok_def)
  then have "\<exists>r. on_data F k' c = Inr r"
    using cmd by (auto simp: on_data_def p split: option.splits prod.splits)
  then show ?thesis using assms(2) by (auto simp: enterLoop_def p)
qed

section \<open>Forwarding\<close>

text \<open>The pipes that the outputs lead to: each its own, and none of them the input.\<close>

definition outputs_lead_to :: "os \<Rightarrow> 'a filter_state_scheme \<Rightarrow> nat list \<Rightarrow> bool" where
  "outputs_lead_to k c ws \<longleftrightarrow> distinct ws \<and> length ws = nat (c_pipe_count c - 1) \<and>
     (\<forall>i < length ws. ws ! i < length (os_pipes k) \<and> tp_type (c_pipes c ! Suc i) = RANGE_POSE_DATA \<and>
        tp_out (c_pipes c ! Suc i) \<noteq> 0 \<and> os_lookup k (tp_out (c_pipes c ! Suc i)) = Some (WriteEnd (ws ! i)))"

lemma send_outputs_append:
  assumes "filter_ok c" "outputs_lead_to k c ws" "length (fi_ranges c) = 16" "length (fi_pose c) = 3" "n \<le> length ws"
  shows "\<exists>k'. send_outputs c n k = Inr k' \<and> os_fd_table k' = os_fd_table k \<and> length (os_pipes k') = length (os_pipes k) \<and>
    (\<forall>q < length (os_pipes k). os_pipes k' ! q = os_pipes k ! q @
       (if q \<in> set (take n ws) then range_pose_bytes \<lparr>rp_ranges = fi_ranges c, rp_pose = fi_pose c\<rparr> else []))"
  using assms(5)
proof (induction n)
  case (Suc n)
  then obtain k1 where k1: "send_outputs c n k = Inr k1" "os_fd_table k1 = os_fd_table k"
    "length (os_pipes k1) = length (os_pipes k)" "\<forall>q < length (os_pipes k). os_pipes k1 ! q = os_pipes k ! q @
       (if q \<in> set (take n ws) then range_pose_bytes \<lparr>rp_ranges = fi_ranges c, rp_pose = fi_pose c\<rparr> else [])"
    by auto
  let ?p = "c_pipes c ! Suc n" and ?w = "ws ! n"
  let ?bs = "range_pose_bytes \<lparr>rp_ranges = fi_ranges c, rp_pose = fi_pose c\<rparr>"
  have w: "?w < length (os_pipes k1)" "tp_type ?p = RANGE_POSE_DATA" "tp_out ?p \<noteq> 0" "os_lookup k1 (tp_out ?p) = Some (WriteEnd ?w)"
    using assms(2) Suc.prems k1(2,3) os_lookup_cong [OF k1(2)] by (simp_all add: outputs_lead_to_def)
  have id: "map (\<lambda>i. fi_ranges c ! i) [0..<16] = fi_ranges c" "map (\<lambda>i. fi_pose c ! i) [0..<3] = fi_pose c"
    using assms(3,4) map_nth by metis+
  have len: "length ?bs = 152" using assms(3,4) by (simp add: range_codec.length_enc wf_simps)
  have n: "n < 3" using assms(1,2) Suc.prems by (auto simp: filter_ok_def outputs_lead_to_def)
  then have "fi_out_index c ! n = int (Suc n)" "length (fi_out_index c) = 3" "length (c_pipes c) = 4"
    using assms(1) by (auto simp: filter_ok_def less_Suc_eq numeral_3_eq_3)
  then have "send_output c n k1 = Inr (fst (commSendRanger k1 ?p (fi_ranges c) (fi_pose c)))"
    using n by (simp add: send_output_def pipe_at_def nat_add_distrib)
  also have "fst (commSendRanger k1 ?p (fi_ranges c) (fi_pose c)) =
      k1\<lparr>os_pipes := (os_pipes k1)[?w := os_pipes k1 ! ?w @ ?bs]\<rparr>"
    using w id len by (simp add: commSendRanger_def os_write_def)
  finally have s: "send_outputs c (Suc n) k = Inr (k1\<lparr>os_pipes := (os_pipes k1)[?w := os_pipes k1 ! ?w @ ?bs]\<rparr>)"
    using k1(1) by simp
  have "?w \<notin> set (take n ws)" using assms(2) Suc.prems
    by (auto simp: outputs_lead_to_def in_set_conv_nth nth_eq_iff_index_eq)
  then show ?case using s k1(2-4) w(1) Suc.prems
    by (auto simp: take_Suc_conv_app_nth nth_list_update)
qed simp

text \<open>
  (C36) The filter repeats. A scan at the head of the input is taken from it and appended unchanged to
  every output; what other pipes hold, and the rest of the input, stays as it was.
\<close>

theorem filter_forwards_scan:
  assumes "filter_ok c" "\<not> insertCFE c" "\<not> insertSDC c" "outputs_lead_to k c ws"
    and "os_lookup k (tp_in (c_pipes c ! 0)) = Some (ReadEnd q)" "q < length (os_pipes k)" "q \<notin> set ws"
    and "os_pipes k ! q = range_pose_bytes m @ rest" "length (rp_ranges m) = 16" "length (rp_pose m) = 3"
  shows "\<exists>k' c'. enterLoop F k c = Inr (k', c') \<and> filter_ok c' \<and> os_pipes k' ! q = rest \<and>
    (\<forall>w \<in> set ws. os_pipes k' ! w = os_pipes k ! w @ range_pose_bytes m) \<and>
    (\<forall>p < length (os_pipes k). p \<noteq> q \<and> p \<notin> set ws \<longrightarrow> os_pipes k' ! p = os_pipes k ! p)"
proof -
  let ?fd = "tp_in (c_pipes c ! 0)"
  let ?k = "k\<lparr>os_pipes := (os_pipes k)[q := rest]\<rparr>"
  let ?c = "c\<lparr>fi_ranges := rp_ranges m, fi_pose := rp_pose m\<rparr>"
  have len: "length (range_pose_bytes m) = 152" using assms(9,10) by (simp add: range_codec.length_enc wf_simps)
  then have ne: "os_pipes k ! q \<noteq> []" using assms(8) by auto
  have read: "os_read k ?fd 152 = (?k, Some (range_pose_bytes m))"
    using assms(5,6,8) len ne by (simp add: os_read_def)
  have at: "pipe_at c (fi_data_index c) = Inr (c_pipes c ! 0)" using assms(1) by (simp add: filter_ok_def pipe_at_def)
  have copy: "commCopyRanger (range_pose_of_bytes (range_pose_bytes m)) = (rp_ranges m, rp_pose m)"
    using assms(9,10) map_nth [of "rp_ranges m"] map_nth [of "rp_pose m"] by (simp add: commCopyRanger_def range_codec.dec_enc [where rest = "[]", simplified] wf_simps)
  have ok: "filter_ok ?c" "outputs_lead_to ?k ?c ws" using assms(1,4) by (auto simp: filter_ok_def outputs_lead_to_def os_lookup_def)
  have "length ws = nat (c_pipe_count c - 1)" using assms(4) by (simp add: outputs_lead_to_def)
  moreover have msg: "\<lparr>rp_ranges = fi_ranges ?c, rp_pose = fi_pose ?c\<rparr> = m" by simp
  ultimately obtain k' where k':
    "send_outputs ?c (nat (c_pipe_count c - 1)) ?k = Inr k'" "\<forall>p < length (os_pipes k). os_pipes k' ! p = os_pipes ?k ! p @
       (if p \<in> set ws then range_pose_bytes m else [])"
    using send_outputs_append [OF ok, of "length ws", unfolded msg] assms(9,10) by auto
  have "enterLoop F k c = Inr (k', ?c)"
    using assms(2,3,5,6) ne len by (simp add: enterLoop_def at os_select_def os_readable_def on_data_def read copy command_def k'(1))
  moreover have "w < length (os_pipes k)" if "w \<in> set ws" for w
    using that assms(4) by (auto simp: outputs_lead_to_def in_set_conv_nth)
  ultimately show ?thesis using ok(1) k'(2) assms(6,7) by (auto simp: nth_list_update)
qed

text \<open>A filter with two outputs, connected to three pipes.\<close>

definition demo_filter :: filter_state where
  "demo_filter = (setPipeIndexes filter_globals)\<lparr>c_pipe_count := 3,
     c_pipes := [\<lparr>tp_type = RANGE_POSE_DATA, tp_in = 3, tp_out = 0\<rparr>, \<lparr>tp_type = RANGE_POSE_DATA, tp_in = 0, tp_out = 4\<rparr>,
       \<lparr>tp_type = RANGE_POSE_DATA, tp_in = 0, tp_out = 5\<rparr>, blank_pipe]\<rparr>"

abbreviation demo_scan :: comm_range_pose_data where
  "demo_scan \<equiv> \<lparr>rp_ranges = replicate 16 3, rp_pose = [1, 2, 3]\<rparr>"

abbreviation demo_lines :: os where
  "demo_lines \<equiv> (demo_os [])\<lparr>os_fd_table := [Some SocketEnd, Some SocketEnd, Some SocketEnd, Some (ReadEnd 0),
       Some (WriteEnd 1), Some (WriteEnd 2)], os_pipes := [range_pose_bytes demo_scan @ [9], [7], []]\<rparr>"

theorem filter_forwards_scan_witness:
  "\<exists>k' c'. enterLoop rat_fp demo_lines demo_filter = Inr (k', c') \<and> os_pipes k' ! 0 = [9] \<and>
    os_pipes k' ! 1 = [7] @ range_pose_bytes demo_scan \<and> os_pipes k' ! 2 = range_pose_bytes demo_scan"
proof -
  have "filter_ok demo_filter" by (simp add: demo_filter_def filter_ok_def filter_globals_def setPipeIndexes_ok)
  moreover have "outputs_lead_to demo_lines demo_filter [1, 2]"
    by (auto simp: demo_filter_def outputs_lead_to_def os_lookup_def less_Suc_eq)
  moreover have "\<not> insertCFE demo_filter" "\<not> insertSDC demo_filter"
    by (simp_all add: demo_filter_def setPipeIndexes_def for_upto_def filter_globals_def numeral_3_eq_3)
  ultimately show ?thesis
    using filter_forwards_scan [of demo_filter demo_lines "[1, 2]" 0 demo_scan "[9]" rat_fp]
    by (auto simp: demo_filter_def os_lookup_def)
qed

end
