(* ===== verification/Logger.thy ===== *)
theory Logger imports Controller begin

text \<open>
  The logger (\<open>controllers/logger.c\<close>): it follows the scans of the sensors, computes how fast the robot
  moves and how near the next obstacle is, and writes that and the messages of other controllers to a
  file. The file is the list of its entries.
\<close>

section \<open>State\<close>

datatype 'd log_entry = LogHeader | LogScan 'd 'd 'd 'd 'd 'd | LogMessage "byte list"

record 'd logger = controller +
  lg_ranges :: "double list"
  lg_pose :: "double list"
  lg_data_index :: int
  lg_file :: "'d log_entry list"
  lg_finished :: bool
  lg_prev_x :: 'd
  lg_prev_y :: 'd
  lg_prev_time :: timestamp
  lg_time_elapsed :: 'd

definition setPipeIndexes :: "'d logger \<Rightarrow> 'd logger" where
  "setPipeIndexes c = c\<lparr>lg_data_index := 0\<rparr>"

section \<open>Start\<close>

text \<open>The pipes after the first; more than the array has is an error, and those read so far stay.\<close>

fun read_pipes :: "string list \<Rightarrow> 'd logger \<Rightarrow> ('d logger \<times> int) outcome" where
  "read_pipes [] c = Inr (c, 0)"
| "read_pipes (a # args) c =
     (if int (length (c_pipes c)) \<le> c_pipe_count c then Inr (c, - 1)
      else then_do (or_fault Undefined (deserializePipe a)) (\<lambda>p.
        read_pipes args (c\<lparr>c_pipes := (c_pipes c)[nat (c_pipe_count c) := p], c_pipe_count := c_pipe_count c + 1\<rparr>)))"

definition parseArgs :: "fd_offer \<Rightarrow> pid \<Rightarrow> os \<Rightarrow> string list \<Rightarrow> 'd logger \<Rightarrow> (os \<times> 'd logger \<times> int) outcome" where
  "parseArgs S pid k argv c =
     (if length argv < 2 then Inl Undefined
      else
        (let c1 = (setPipeIndexes c)\<lparr>c_priority := atoi (argv ! 1)\<rparr> in
         if length argv < 4 then
           then_do (connect_pipes S pid k c1 1 (c_name c1)) (\<lambda>(k1, c2, _). Inr (k1, c2, 0))
         else
           then_do (or_fault Undefined (deserializePipe (argv ! 3))) (\<lambda>p.
             then_do (read_pipes (drop 4 argv) (c1\<lparr>c_pipes := (c_pipes c1)[nat (lg_data_index c1) := p], c_pipe_count := 1\<rparr>))
               (\<lambda>(c2, r). Inr (k, c2, r)))))"

definition logger_globals :: "'d fp \<Rightarrow> 'd logger" where
  "logger_globals F =
     \<lparr>c_name = ''Logger'', c_priority = 0, c_pipe_count = 5, c_pipes = replicate 5 blank_pipe,
      insertSDC = False, insertCFE = False, lg_ranges = replicate 16 0, lg_pose = [0, 0, 0], lg_data_index = 0,
      lg_file = [], lg_finished = False, lg_prev_x = f_lit F (- 7), lg_prev_y = f_lit F (- 7), lg_prev_time = 0,
      lg_time_elapsed = f_lit F 0\<rparr>"

text \<open>\<open>openFile\<close> has no return statement where it succeeds; the value that \<open>main\<close> then tests is \<open>r\<close>.\<close>

definition openFile :: "bool \<Rightarrow> bool \<Rightarrow> int \<Rightarrow> 'd logger \<Rightarrow> 'd logger \<times> int" where
  "openFile name_ok opens r c =
     (if \<not> name_ok then (c, - 1)
      else if \<not> opens then (c, - 1)
      else (c\<lparr>lg_file := [LogHeader]\<rparr>, r))"

definition main_init :: "'d fp \<Rightarrow> bool \<times> bool \<times> bool \<Rightarrow> bool \<times> bool \<times> int \<Rightarrow> tas_env \<Rightarrow> fd_offer \<Rightarrow> pid \<Rightarrow> os \<Rightarrow>
    string list \<Rightarrow> (os \<times> 'd logger \<times> int) outcome" where
  "main_init F fl file E S pid k argv =
     then_do (parseArgs S pid k argv (logger_globals F)) (\<lambda>(k1, c1, r).
       if r < 0 then Inr (k1, c1, - 1)
       else then_do (initController (fst fl) (fst (snd fl)) (snd (snd fl)) E pid k1 c1) (\<lambda>(k2, r2).
         if r2 < 0 then Inr (k2, c1, - 1)
         else (case openFile (fst file) (fst (snd file)) (snd (snd file)) c1 of
           (c2, r3) \<Rightarrow> if r3 < 0 then Inr (k2, c2, - 1) else Inr (k2, c2, 0))))"

section \<open>The loop\<close>

definition euclid :: "'d fp \<Rightarrow> 'd \<Rightarrow> 'd \<Rightarrow> 'd \<Rightarrow> 'd \<Rightarrow> 'd" where
  "euclid F x y u v = f_sqrt F (f_add F (f_mul F (f_sub F x u) (f_sub F x u)) (f_mul F (f_sub F y v) (f_sub F y v)))"

definition nearest :: "'d fp \<Rightarrow> double list \<Rightarrow> 'd" where
  "nearest F ranges =
     for_upto 16 (\<lambda>i m. if f_lt F (f_of_bits F (ranges ! i)) m then f_of_bits F (ranges ! i) else m) (f_of_int F 1000)"

definition command :: "'d fp \<Rightarrow> os \<Rightarrow> 'd logger \<Rightarrow> os \<times> 'd logger" where
  "command F k c =
     (let (k1, current_time) = generate_timestamp k;
          x = f_of_bits F (lg_pose c ! 0); y = f_of_bits F (lg_pose c ! 1);
          distance_goal = euclid F x y (f_of_int F 7) (f_of_int F 7);
          c1 =
            (if f_lt F distance_goal (f_of_int F 1) then c\<lparr>lg_finished := True\<rparr>
             else if lg_prev_time c = 0 then c
             else
               (let distance = euclid F x y (lg_prev_x c) (lg_prev_y c);
                    time_this_round = diff_time F current_time (lg_prev_time c) (f_mul F (f_of_int F 1000000) (f_lit F 3092));
                    elapsed = f_add F (lg_time_elapsed c) time_this_round;
                    still = (f_le F x (lg_prev_x c) \<and> f_le F (lg_prev_x c) x) \<and> (f_le F y (lg_prev_y c) \<and> f_le F (lg_prev_y c) y);
                    velocity = (if still then f_lit F 0 else f_div F distance elapsed) in
                c\<lparr>lg_time_elapsed := (if still then elapsed else f_lit F 0),
                  lg_file := lg_file c @ [LogScan (nearest F (lg_ranges c)) velocity distance time_this_round x y]\<rparr>)) in
      (k1, c1\<lparr>lg_prev_time := current_time, lg_prev_x := x, lg_prev_y := y\<rparr>))"

definition on_data :: "'d fp \<Rightarrow> os \<Rightarrow> 'd logger \<Rightarrow> (os \<times> 'd logger) outcome" where
  "on_data F k c =
     then_do (pipe_at c (lg_data_index c)) (\<lambda>p.
       case os_read k (tp_in p) 152 of
         (k1, None) \<Rightarrow> Inr (k1, c)
       | (k1, Some bs) \<Rightarrow>
           (if length bs = 152 then
              (case commCopyRanger (range_pose_of_bytes bs) of
                 (ranges, pose) \<Rightarrow> Inr (command F k1 (c\<lparr>lg_ranges := ranges, lg_pose := pose\<rparr>)))
            else Inr (k1, c)))"

text \<open>
  A message is printed up to its null character and freed. When no message was received the pointer is
  not initialised, and a message without a null character is printed beyond its end.
\<close>

definition on_message :: "os \<Rightarrow> nat \<Rightarrow> 'd logger \<Rightarrow> (os \<times> 'd logger) outcome" where
  "on_message k i c =
     then_do (pipe_at c (int i)) (\<lambda>p.
       case commRecvMsgBuffer k p \<lparr>mb_length = 0, mb_message = []\<rparr> of
         (k1, msg, r) \<Rightarrow>
           (if r \<le> 0 \<or> mb_length msg \<le> 0 then Inl Undefined
            else if lg_finished c then Inr (k1, c)
            else if 0 \<in> set (mb_message msg)
              then Inr (k1, c\<lparr>lg_file := lg_file c @ [LogMessage (takeWhile (\<lambda>b. b \<noteq> 0) (mb_message msg))]\<rparr>)
            else Inl Undefined))"

primrec on_messages :: "nat \<Rightarrow> fd list \<Rightarrow> os \<Rightarrow> 'd logger \<Rightarrow> (os \<times> 'd logger) outcome" where
  "on_messages 0 ready k c = Inr (k, c)"
| "on_messages (Suc n) ready k c =
     then_do (on_messages n ready k c) (\<lambda>(k1, c1).
       then_do (pipe_at c1 (int (Suc n))) (\<lambda>p. if tp_in p \<in> set ready then on_message k1 (Suc n) c1 else Inr (k1, c1)))"

definition enterLoop :: "'d fp \<Rightarrow> os \<Rightarrow> 'd logger \<Rightarrow> (os \<times> 'd logger) outcome" where
  "enterLoop F k c =
     (if int (length (c_pipes c)) < c_pipe_count c then Inl OutOfBounds
      else
        then_do (pipe_at c (lg_data_index c)) (\<lambda>dp.
          let others = map (\<lambda>i. tp_in (c_pipes c ! i)) [1..<nat (c_pipe_count c)];
              ready = os_select k (tp_in dp # others) in
          if ready = [] then Inr (k, c)
          else
            then_do (if tp_in dp \<in> set ready then on_data F k c else Inr (k, c)) (\<lambda>(k1, c1).
              on_messages (nat (c_pipe_count c1) - 1) ready k1 c1)))"

section \<open>What is logged\<close>

text \<open>The nearest obstacle is a lower bound of the scan, for any arithmetic with a strict order.\<close>

lemma nearest_lower_bound:
  assumes irrefl: "\<And>x. \<not> f_lt F x x" and trans: "\<And>x y z. f_lt F x y \<Longrightarrow> f_lt F y z \<Longrightarrow> f_lt F x z" and i: "i < 16"
  shows "\<not> f_lt F (f_of_bits F (ranges ! i)) (nearest F ranges)"
proof -
  let ?v = "\<lambda>i. f_of_bits F (ranges ! i)"
  let ?m = "\<lambda>n. for_upto n (\<lambda>i m. if f_lt F (?v i) m then ?v i else m) (f_of_int F 1000)"
  have "\<not> f_lt F (?v i) (?m n)" if "i < n" for n i
    using that
  proof (induction n)
    case (Suc n)
    show ?case
    proof (cases "i = n")
      case True
      then show ?thesis using irrefl by (simp add: for_upto_Suc)
    next
      case False
      then show ?thesis using Suc trans [of "?v i" "?v n" "?m n"] by (auto simp: for_upto_Suc)
    qed
  qed simp
  then show ?thesis using i unfolding nearest_def by blast
qed

text \<open>Entries are only added, never changed, and the flag for the goal stays set.\<close>

lemma command_appends:
  "\<exists>es. lg_file (snd (command F k c)) = lg_file c @ es \<and> length es \<le> 1"
  "lg_finished c \<Longrightarrow> lg_finished (snd (command F k c))"
  by (auto simp: command_def Let_def case_prod_unfold)

lemma on_message_frame:
  assumes "on_message k i c = Inr (k', c')"
  shows "\<exists>es. c' = c\<lparr>lg_file := lg_file c @ es\<rparr> \<and> (lg_finished c \<longrightarrow> es = [])"
proof -
  have r: "c = c\<lparr>lg_file := lg_file c @ []\<rparr>" by simp
  obtain p where p: "pipe_at c (int i) = Inr p" using assms by (auto simp: on_message_def then_do_Inr)
  obtain k1 msg r where m: "commRecvMsgBuffer k p \<lparr>mb_length = 0, mb_message = []\<rparr> = (k1, msg, r)" by (metis prod_cases3)
  have "c' = c \<or> (\<not> lg_finished c \<and> c' = c\<lparr>lg_file := lg_file c @ [LogMessage (takeWhile (\<lambda>b. b \<noteq> 0) (mb_message msg))]\<rparr>)"
    using assms by (auto simp: on_message_def p m split: if_splits)
  then show ?thesis using r by blast
qed

lemma on_message_appends:
  "on_message k i c = Inr (k', c') \<Longrightarrow> \<exists>es. lg_file c' = lg_file c @ es \<and> (lg_finished c \<longrightarrow> es = []) \<and> lg_finished c' = lg_finished c"
  using on_message_frame by fastforce

lemma on_messages_appends:
  "on_messages n ready k c = Inr (k', c') \<Longrightarrow>
    \<exists>es. lg_file c' = lg_file c @ es \<and> (lg_finished c \<longrightarrow> es = []) \<and> lg_finished c' = lg_finished c"
proof (induction n arbitrary: k' c')
  case (Suc n)
  then obtain k1 c1 where s: "on_messages n ready k c = Inr (k1, c1)"
    "c' = c1 \<or> on_message k1 (Suc n) c1 = Inr (k', c')"
    by (auto simp: then_do_Inr split: if_splits)
  then show ?case using Suc.IH [OF s(1)] on_message_appends [of k1 "Suc n" c1 k' c'] by fastforce
qed auto

lemma enterLoop_appends:
  assumes "enterLoop F k c = Inr (k', c')"
  shows "\<exists>es. lg_file c' = lg_file c @ es" "lg_finished c \<Longrightarrow> lg_finished c'"
proof -
  have d: "(\<exists>es. lg_file c1 = lg_file c @ es) \<and> (lg_finished c \<longrightarrow> lg_finished c1)" if od: "on_data F k c = Inr (k1, c1)" for k1 c1
  proof -
    have "c1 = c \<or> (\<exists>k2 r p. command F k2 (c\<lparr>lg_ranges := r, lg_pose := p\<rparr>) = (k1, c1))"
    proof -
      obtain p where p: "pipe_at c (lg_data_index c) = Inr p" using od by (auto simp: on_data_def then_do_Inr)
      obtain k2 res where r: "os_read k (tp_in p) 152 = (k2, res)" by fastforce
      obtain g q where g: "commCopyRanger (range_pose_of_bytes (the res)) = (g, q)" by fastforce
      show ?thesis using od g by (cases res) (auto simp: on_data_def p r split: if_splits)
    qed
    then show ?thesis
    proof (elim disjE exE)
      fix k2 r p assume "command F k2 (c\<lparr>lg_ranges := r, lg_pose := p\<rparr>) = (k1, c1)"
      then have "c1 = snd (command F k2 (c\<lparr>lg_ranges := r, lg_pose := p\<rparr>))" by (metis snd_conv)
      then show ?thesis using command_appends [where F = F and k = k2 and c = "c\<lparr>lg_ranges := r, lg_pose := p\<rparr>"] by auto
    qed simp
  qed
  obtain k1 c1 where "c1 = c \<or> on_data F k c = Inr (k1, c1)" "c' = c1 \<or> (\<exists>n ready. on_messages n ready k1 c1 = Inr (k', c'))"
    using assms by (auto simp: enterLoop_def then_do_Inr Let_def split: if_splits)
  then show "\<exists>es. lg_file c' = lg_file c @ es" "lg_finished c \<Longrightarrow> lg_finished c'"
    using d on_messages_appends by fastforce+
qed

section \<open>The array of pipes\<close>

definition logger_ok :: "'d logger \<Rightarrow> bool" where
  "logger_ok c \<longleftrightarrow> length (c_pipes c) = 5 \<and> c_pipe_count c \<le> 5 \<and> lg_data_index c = 0"

lemma read_pipes_ok: "read_pipes args c = Inr (c', r) \<Longrightarrow> logger_ok c \<Longrightarrow> 0 \<le> c_pipe_count c \<Longrightarrow> logger_ok c'"
  by (induction args c arbitrary: c' r rule: read_pipes.induct) (auto simp: logger_ok_def then_do_Inr split: if_splits)

lemma parseArgs_ok:
  assumes "parseArgs S pid k argv c = Inr (k', c', r)" "logger_ok c"
  shows "logger_ok c'"
proof -
  let ?c = "(setPipeIndexes c)\<lparr>c_priority := atoi (argv ! 1)\<rparr>"
  have g: "logger_ok ?c" "1 \<le> length (c_pipes ?c)" using assms(2) by (simp_all add: logger_ok_def setPipeIndexes_def)
  show ?thesis
  proof (cases "length argv < 4")
    case True
    then obtain k2 r2 where "connect_pipes S pid k ?c 1 (c_name ?c) = Inr (k2, c', r2)"
      using assms(1) by (auto simp: parseArgs_def Let_def then_do_Inr split: if_splits)
    then show ?thesis using connect_pipes_ok [OF _ g(2)] g(1) by (fastforce simp: logger_ok_def)
  next
    case False
    then obtain p where "read_pipes (drop 4 argv) (?c\<lparr>c_pipes := (c_pipes ?c)[nat (lg_data_index ?c) := p], c_pipe_count := 1\<rparr>) = Inr (c', r)"
      using assms(1) by (auto simp: parseArgs_def Let_def then_do_Inr split: if_splits)
    from read_pipes_ok [OF this] g(1) show ?thesis by (simp add: logger_ok_def)
  qed
qed

lemma main_init_logger_ok:
  assumes "main_init F fl fo E S pid k argv = Inr (k', c, 0)"
  shows "logger_ok c"
proof -
  obtain k1 c1 r where p: "parseArgs S pid k argv (logger_globals F) = Inr (k1, c1, r)"
    using assms by (auto simp: main_init_def then_do_Inr)
  then have c: "c = c1 \<or> c = fst (openFile (fst fo) (fst (snd fo)) (snd (snd fo)) c1)"
    using assms by (auto simp: main_init_def then_do_Inr case_prod_unfold split: if_splits)
  have "logger_ok c1" using parseArgs_ok [OF p] by (simp add: logger_ok_def logger_globals_def)
  then show ?thesis using c by (auto simp: openFile_def logger_ok_def)
qed

lemma command_keeps_pipes: "logger_ok (snd (command F k c)) = logger_ok c"
  by (auto simp: command_def Let_def logger_ok_def split: prod.splits)

lemma logger_data_ok: "on_data F k c = Inr (k1, c1) \<Longrightarrow> logger_ok c \<Longrightarrow> logger_ok c1"
proof -
  assume a: "on_data F k c = Inr (k1, c1)" "logger_ok c"
  obtain p where p: "pipe_at c (lg_data_index c) = Inr p" using a(1) by (auto simp: on_data_def then_do_Inr)
  obtain k2 res where r: "os_read k (tp_in p) 152 = (k2, res)" by fastforce
  obtain g q where g: "commCopyRanger (range_pose_of_bytes (the res)) = (g, q)" by fastforce
  have "c1 = c \<or> c1 = snd (command F k2 (c\<lparr>lg_ranges := g, lg_pose := q\<rparr>))"
    using a(1) g by (cases res) (auto simp: on_data_def p r split: if_splits)
  moreover have "logger_ok (c\<lparr>lg_ranges := g, lg_pose := q\<rparr>)" using a(2) by (simp add: logger_ok_def)
  ultimately show ?thesis using a(2) command_keeps_pipes by metis
qed

lemma on_messages_keeps_ok: "on_messages n ready k c = Inr (k', c') \<Longrightarrow> logger_ok c \<Longrightarrow> logger_ok c'"
proof (induction n arbitrary: k' c')
  case (Suc n)
  then obtain k1 c1 where s: "on_messages n ready k c = Inr (k1, c1)"
    "c' = c1 \<or> on_message k1 (Suc n) c1 = Inr (k', c')"
    by (auto simp: then_do_Inr split: if_splits)
  have "logger_ok c1" using Suc.IH [OF s(1) Suc.prems(2)] .
  then show ?case using s(2) on_message_frame by (fastforce simp: logger_ok_def)
qed simp

lemma logger_loop_ok:
  assumes "enterLoop F k c = Inr (k', c')" "logger_ok c"
  shows "logger_ok c'"
proof -
  obtain k1 c1 where "c1 = c \<or> on_data F k c = Inr (k1, c1)" "c' = c1 \<or> (\<exists>n ready. on_messages n ready k1 c1 = Inr (k', c'))"
    using assms(1) by (auto simp: enterLoop_def then_do_Inr Let_def split: if_splits)
  then show ?thesis using logger_data_ok on_messages_keeps_ok assms(2) by blast
qed

interpretation lg: controller_program logger_ok "\<lambda>k c. \<exists>fl fo E S pid k0 argv. main_init F fl fo E S pid k0 argv = Inr (k, c, 0)"
  "enterLoop F" setPipeIndexes for F :: "'d fp"
proof (unfold_locales, goal_cases)
  case (1 k c)
  then show ?case using main_init_logger_ok by blast
next
  case (2 c k k1 c1)
  then show ?case using logger_loop_ok by blast
qed (simp_all add: logger_ok_def setPipeIndexes_def)

end
