(* ===== verification/System_Wiring.thy ===== *)
theory System_Wiring imports Plumber_Main A_Star Mapper Art_Pot Scan_Filter Logger begin

text \<open>
  The plumber and the controllers together: started with the arguments that the plumber builds, a
  controller finds its ports, and with the configuration of the repository the controllers are
  connected with each other, with the sensors and with the robot.
\<close>

section \<open>Ports of a started controller\<close>

text \<open>
  The pipe at an index of a controller has a type and denotes a pipe end; an output of one controller
  and an input of another are the two ends of one pipe.
\<close>

definition port_at :: "os \<Rightarrow> 'a controller_scheme \<Rightarrow> int \<Rightarrow> comm_message_t \<Rightarrow> port_end \<Rightarrow> bool" where
  "port_at k c i ty e \<longleftrightarrow> (\<exists>p. pipe_at c i = Inr p \<and> tp_type p = ty \<and> end_of k p = e)"

definition pipe_joins :: "os \<Rightarrow> comm_message_t \<Rightarrow> 'a controller_scheme \<Rightarrow> int \<Rightarrow> 'b controller_scheme \<Rightarrow> int \<Rightarrow> bool" where
  "pipe_joins k ty c i c' j \<longleftrightarrow>
     (\<exists>x. port_at k c i ty (Output (Some (WriteEnd x))) \<and> port_at k c' j ty (Input (Some (ReadEnd x))))"

definition reads_as :: "os \<Rightarrow> typed_pipe \<Rightarrow> port \<Rightarrow> bool" where
  "reads_as k q p \<longleftrightarrow> tp_type q = fst p \<and> end_of k q = fst (snd p)"

lemma port_text_reads: "port_text k text p \<Longrightarrow> \<exists>q. deserializePipe text = Some q \<and> reads_as k q p"
  by (auto simp: port_text_def reads_as_def split: option.splits)

lemma read_pipe_args_ports:
  assumes "list_all2 (port_text k) texts ports" "i + length texts \<le> length ps"
  shows "\<exists>qs. read_pipe_args texts i ps = Inr (take i ps @ qs @ drop (i + length texts) ps) \<and> list_all2 (reads_as k) qs ports"
  using assms
proof (induction texts ports arbitrary: i ps rule: list_all2_induct)
  case Nil
  then show ?case by simp
next
  case (Cons t ts p pts)
  obtain q where q: "deserializePipe t = Some q" "reads_as k q p" using port_text_reads [OF Cons(1)] by blast
  have "Suc i + length ts \<le> length (ps[i := q])" using Cons.prems by simp
  from Cons.IH [OF this] obtain qs where qs:
    "read_pipe_args ts (Suc i) (ps[i := q]) = Inr (take (Suc i) (ps[i := q]) @ qs @ drop (Suc i + length ts) (ps[i := q]))"
    "list_all2 (reads_as k) qs pts" by blast
  have "take (Suc i) (ps[i := q]) = take i ps @ [q]" using Cons.prems by (simp add: take_Suc_conv_app_nth)
  then show ?case
    using qs q Cons.prems by (intro exI [of _ "q # qs"]) (simp add: or_fault_def)
qed

lemma atoi_show_int: "atoi (show_int i) = i"
  using scan_int_show_int [of "[]" i] by (simp add: atoi_def)

text \<open>The arguments of a component that runs without a voter.\<close>

lemma argv_plain:
  assumes "argv_describes k argv c" "g_rep c = NONE"
  obtains texts where "argv = [g_program c, g_priority c, show_int (int (length (g_ports c)))] @ texts"
    "list_all2 (port_text k) texts (g_ports c)" "length texts = length (g_ports c)"
  using assms list_all2_lengthD by (fastforce simp: argv_describes_def)

lemma for_upto_three: "for_upto 3 f s = f 2 (f 1 (f 0 s))"
  by (simp add: for_upto_def upt_rec numeral_2_eq_2)

lemma for_upto_four: "for_upto 4 f s = f 3 (f 2 (f 1 (f 0 s)))"
  by (simp add: for_upto_def upt_rec numeral_3_eq_3 numeral_2_eq_2)

text \<open>
  Each program reads its arguments without error, in any surroundings, and its indexes then point to
  the ports of the types it wants.
\<close>

lemma three_args:
  assumes "argv_describes k argv cmp" "g_rep cmp = NONE" "g_ports cmp = [p0, p1, p2]"
  obtains texts q0 q1 q2 where "argv = [g_program cmp, g_priority cmp, show_int 3] @ texts" "length texts = 3"
    "read_pipe_args texts 0 (replicate 3 blank_pipe) = Inr [q0, q1, q2]" "reads_as k q0 p0" "reads_as k q1 p1" "reads_as k q2 p2"
proof -
  obtain texts where t: "argv = [g_program cmp, g_priority cmp, show_int 3] @ texts"
    "list_all2 (port_text k) texts (g_ports cmp)" "length texts = 3"
    using argv_plain [OF assms(1,2)] assms(3) by (auto simp: eval_nat_numeral)
  obtain qs where q: "read_pipe_args texts 0 (replicate 3 blank_pipe) = Inr qs" "list_all2 (reads_as k) qs (g_ports cmp)"
    using read_pipe_args_ports [OF t(2), of 0 "replicate 3 blank_pipe"] t(3) by auto
  then show thesis using that t(1,3) assms(3) by (auto simp: list_all2_Cons2)
qed

lemma four_args:
  assumes "argv_describes k argv cmp" "g_rep cmp = NONE" "g_ports cmp = [p0, p1, p2, p3]"
  obtains texts q0 q1 q2 q3 where "argv = [g_program cmp, g_priority cmp, show_int 4] @ texts" "length texts = 4"
    "read_pipe_args texts 0 (replicate 4 blank_pipe) = Inr [q0, q1, q2, q3]"
    "reads_as k q0 p0" "reads_as k q1 p1" "reads_as k q2 p2" "reads_as k q3 p3"
proof -
  obtain texts where t: "argv = [g_program cmp, g_priority cmp, show_int 4] @ texts"
    "list_all2 (port_text k) texts (g_ports cmp)" "length texts = 4"
    using argv_plain [OF assms(1,2)] assms(3) by (auto simp: eval_nat_numeral)
  obtain qs where q: "read_pipe_args texts 0 (replicate 4 blank_pipe) = Inr qs" "list_all2 (reads_as k) qs (g_ports cmp)"
    using read_pipe_args_ports [OF t(2), of 0 "replicate 4 blank_pipe"] t(3) by auto
  then show thesis using that t(1,3) assms(3) by (auto simp: list_all2_Cons2)
qed

lemma mapper_args:
  assumes "argv_describes k argv cmp" "g_rep cmp = NONE"
    "g_ports cmp = [(RANGE_POSE_DATA, e0, b0), (MAP_UPDATE, e1, b1), (COMM_ACK, e2, b2)]"
  obtains c where "\<And>S pid. Mapper.parseArgs S pid k argv mapper_globals = Inr (k, c, 0)"
    "port_at k c (m_data_index c) RANGE_POSE_DATA e0" "port_at k c (m_update_index c) MAP_UPDATE e1"
    "port_at k c (m_ack_index c) COMM_ACK e2"
proof -
  obtain texts q0 q1 q2 where t: "argv = [g_program cmp, g_priority cmp, show_int 3] @ texts" "length texts = 3"
    "read_pipe_args texts 0 (replicate 3 blank_pipe) = Inr [q0, q1, q2]"
    "reads_as k q0 (RANGE_POSE_DATA, e0, b0)" "reads_as k q1 (MAP_UPDATE, e1, b1)" "reads_as k q2 (COMM_ACK, e2, b2)"
    using three_args [OF assms] by blast
  let ?g = "mapper_globals\<lparr>c_priority := atoi (g_priority cmp), c_pipe_count := 3, c_pipes := [q0, q1, q2]\<rparr>"
  let ?c = "?g\<lparr>m_data_index := 0, m_update_index := 1, m_ack_index := 2\<rparr>"
  have "Mapper.parseArgs S pid k argv mapper_globals = Inr (k, Mapper.setPipeIndexes ?g, 0)" for S pid
    using t(1-3) by (simp add: Mapper.parseArgs_def Let_def mapper_globals_def atoi_show_int)
  moreover have "Mapper.setPipeIndexes ?g = ?c"
    using t(4-6) by (simp add: Mapper.setPipeIndexes_def for_upto_three reads_as_def)
  ultimately show thesis
    using that [of ?c] t(4-6) by (simp add: reads_as_def port_at_def pipe_at_def numeral_2_eq_2)
qed

lemma planner_args:
  assumes "argv_describes k argv cmp" "g_rep cmp = NONE"
    "g_ports cmp = [(MAP_UPDATE, e0, b0), (COMM_ACK, e1, b1), (WAY_REQ, e2, b2), (WAY_RES, e3, b3)]"
  obtains c where "\<And>S pid. A_Star.parseArgs S pid k argv (a_star_globals F) = Inr (k, c, 0)"
    "port_at k c (updates_index c) MAP_UPDATE e0" "port_at k c (ack_index c) COMM_ACK e1"
    "port_at k c (way_req_index c) WAY_REQ e2" "port_at k c (way_res_index c) WAY_RES e3"
proof -
  obtain texts q0 q1 q2 q3 where t: "argv = [g_program cmp, g_priority cmp, show_int 4] @ texts" "length texts = 4"
    "read_pipe_args texts 0 (replicate 4 blank_pipe) = Inr [q0, q1, q2, q3]"
    "reads_as k q0 (MAP_UPDATE, e0, b0)" "reads_as k q1 (COMM_ACK, e1, b1)" "reads_as k q2 (WAY_REQ, e2, b2)"
    "reads_as k q3 (WAY_RES, e3, b3)"
    using four_args [OF assms] by blast
  let ?g = "(a_star_globals F)\<lparr>c_priority := atoi (g_priority cmp), c_pipe_count := 4, c_pipes := [q0, q1, q2, q3]\<rparr>"
  let ?c = "?g\<lparr>updates_index := 0, ack_index := 1, way_req_index := 2, way_res_index := 3\<rparr>"
  have "A_Star.parseArgs S pid k argv (a_star_globals F) = Inr (k, A_Star.setPipeIndexes ?g, 0)" for S pid
    using t(1-3) by (simp add: A_Star.parseArgs_def Let_def a_star_globals_def atoi_show_int)
  moreover have "A_Star.setPipeIndexes ?g = ?c"
    using t(4-7) by (simp add: A_Star.setPipeIndexes_def for_upto_four reads_as_def)
  ultimately show thesis
    using that [of ?c] t(4-7) by (simp add: reads_as_def port_at_def pipe_at_def numeral_3_eq_3 numeral_2_eq_2)
qed

lemma navigator_args:
  assumes "argv_describes k argv cmp" "g_rep cmp = NONE"
    "g_ports cmp = [(RANGE_POSE_DATA, e0, b0), (WAY_REQ, e1, b1), (WAY_RES, e2, b2), (MOV_CMD, e3, b3)]"
  obtains c where "\<And>S pid. Art_Pot.parseArgs S pid k argv art_pot_globals = Inr (k, c, 0)"
    "port_at k c (ap_data_index c) RANGE_POSE_DATA e0" "port_at k c (ap_way_req_index c) WAY_REQ e1"
    "port_at k c (ap_way_res_index c) WAY_RES e2" "port_at k c (ap_out_index c) MOV_CMD e3" "c_pipe_count c = 4"
proof -
  obtain texts q0 q1 q2 q3 where t: "argv = [g_program cmp, g_priority cmp, show_int 4] @ texts" "length texts = 4"
    "read_pipe_args texts 0 (replicate 4 blank_pipe) = Inr [q0, q1, q2, q3]"
    "reads_as k q0 (RANGE_POSE_DATA, e0, b0)" "reads_as k q1 (WAY_REQ, e1, b1)" "reads_as k q2 (WAY_RES, e2, b2)"
    "reads_as k q3 (MOV_CMD, e3, b3)"
    using four_args [OF assms] by blast
  let ?g = "art_pot_globals\<lparr>c_priority := atoi (g_priority cmp), c_pipe_count := 4, c_pipes := [q0, q1, q2, q3]\<rparr>"
  let ?c = "?g\<lparr>ap_data_index := 0, ap_way_req_index := 1, ap_way_res_index := 2, ap_out_index := 3\<rparr>"
  have "Art_Pot.parseArgs S pid k argv art_pot_globals = Inr (k, Art_Pot.setPipeIndexes ?g, 0)" for S pid
    using t(1-3) by (simp add: Art_Pot.parseArgs_def Let_def art_pot_globals_def atoi_show_int)
  moreover have "Art_Pot.setPipeIndexes ?g = ?c"
    using t(4-7) by (simp add: Art_Pot.setPipeIndexes_def for_upto_four reads_as_def)
  ultimately show thesis
    using that [of ?c] t(4-7) by (simp add: reads_as_def port_at_def pipe_at_def numeral_3_eq_3 numeral_2_eq_2)
qed

lemma filter_args:
  assumes "argv_describes k argv cmp" "g_rep cmp = NONE"
    "g_ports cmp = [(RANGE_POSE_DATA, e0, b0), (RANGE_POSE_DATA, e1, b1), (RANGE_POSE_DATA, e2, b2), (RANGE_POSE_DATA, e3, b3)]"
  obtains c where "\<And>S pid. Scan_Filter.parseArgs S pid k argv filter_globals = Inr (k, c, 0)"
    "port_at k c (fi_data_index c) RANGE_POSE_DATA e0" "fi_out_index c = [1, 2, 3]" "port_at k c 1 RANGE_POSE_DATA e1"
    "port_at k c 2 RANGE_POSE_DATA e2" "port_at k c 3 RANGE_POSE_DATA e3"
proof -
  obtain texts where t: "argv = [g_program cmp, g_priority cmp, show_int 4] @ texts"
    "list_all2 (port_text k) texts (g_ports cmp)"
    using argv_plain [OF assms(1,2)] assms(3) by auto
  obtain t0 t1 t2 t3 where tt: "texts = [t0, t1, t2, t3]" "port_text k t0 (RANGE_POSE_DATA, e0, b0)"
    "port_text k t1 (RANGE_POSE_DATA, e1, b1)" "port_text k t2 (RANGE_POSE_DATA, e2, b2)" "port_text k t3 (RANGE_POSE_DATA, e3, b3)"
    using t(2) assms(3) by (auto simp: list_all2_Cons2)
  obtain q0 q1 q2 q3 where q: "deserializePipe t0 = Some q0" "reads_as k q0 (RANGE_POSE_DATA, e0, b0)"
    "deserializePipe t1 = Some q1" "reads_as k q1 (RANGE_POSE_DATA, e1, b1)"
    "deserializePipe t2 = Some q2" "reads_as k q2 (RANGE_POSE_DATA, e2, b2)"
    "deserializePipe t3 = Some q3" "reads_as k q3 (RANGE_POSE_DATA, e3, b3)"
    using tt(2-5) [THEN port_text_reads] by blast
  have g: "Scan_Filter.setPipeIndexes filter_globals = filter_globals\<lparr>fi_out_index := [1, 2, 3]\<rparr>"
    by (simp add: Scan_Filter.setPipeIndexes_def for_upto_three filter_globals_def)
  have f: "c_pipes filter_globals = replicate 4 blank_pipe" "fi_data_index filter_globals = 0" by (simp_all add: filter_globals_def)
  let ?c = "filter_globals\<lparr>fi_out_index := [1, 2, 3], c_priority := atoi (g_priority cmp), c_pipe_count := 4,
    c_pipes := [q0, q1, q2, q3]\<rparr>"
  have "Scan_Filter.parseArgs S pid k argv filter_globals = Inr (k, ?c, 0)" for S pid
    using t(1) tt(1) q
    by (simp add: Scan_Filter.parseArgs_def g f Let_def atoi_show_int or_fault_def eval_nat_numeral)
  then show thesis
    using that [of ?c] q by (simp add: reads_as_def port_at_def pipe_at_def f numeral_3_eq_3 numeral_2_eq_2)
qed

lemma logger_args:
  assumes "argv_describes k argv cmp" "g_rep cmp = NONE" "g_ports cmp = [(RANGE_POSE_DATA, e0, b0)]"
  obtains c where "\<And>S pid. Logger.parseArgs S pid k argv (logger_globals F) = Inr (k, c, 0)"
    "port_at k c (lg_data_index c) RANGE_POSE_DATA e0"
proof -
  obtain t where t: "argv = [g_program cmp, g_priority cmp, show_int 1, t]" "port_text k t (RANGE_POSE_DATA, e0, b0)"
    using argv_plain [OF assms(1,2)] assms(3) by (auto simp: list_all2_Cons2)
  obtain q where q: "deserializePipe t = Some q" "reads_as k q (RANGE_POSE_DATA, e0, b0)" using port_text_reads [OF t(2)] by blast
  let ?g = "logger_globals F"
  let ?c = "?g\<lparr>lg_data_index := 0, c_priority := atoi (g_priority cmp), c_pipes := (c_pipes ?g)[0 := q], c_pipe_count := 1\<rparr>"
  have "Logger.parseArgs S pid k argv ?g = Inr (k, ?c, 0)" for S pid
    using t(1) q(1) by (simp add: Logger.parseArgs_def Logger.setPipeIndexes_def or_fault_def Let_def)
  moreover have "port_at k ?c (lg_data_index ?c) RANGE_POSE_DATA e0"
    using q(2) by (simp add: reads_as_def port_at_def pipe_at_def logger_globals_def)
  ultimately show thesis using that by blast
qed

text \<open>What \<open>main\<close> adds: once the signals are set up the program is started.\<close>

definition started :: "(bool \<times> bool \<times> bool \<Rightarrow> tas_env \<Rightarrow> fd_offer \<Rightarrow> pid \<Rightarrow> os \<Rightarrow> string list \<Rightarrow> (os \<times> 'c \<times> int) outcome) \<Rightarrow>
    os \<Rightarrow> string list \<Rightarrow> 'c \<Rightarrow> bool" where
  "started program k argv c \<longleftrightarrow> (\<exists>fl E S pid k1. program fl E S pid k argv = Inr (k1, c, 0))"

lemma init_tas_plain: "\<exists>k1. init_tas demo_tas pid k prio = Inr k1"
  by (simp add: init_tas_def InitTAS_def forceMaps_def split: prod.split)

lemma init_controller_plain: "\<exists>k1. initController True True True demo_tas pid k c = Inr (k1, 0)"
  using init_tas_plain [of pid k "c_priority c"] by (auto simp: initController_def)

lemma port_at_cong: "c_pipes c' = c_pipes c \<Longrightarrow> port_at k c' i ty e = port_at k c i ty e"
  by (simp add: port_at_def pipe_at_def)

lemma mapper_starts:
  assumes "argv_describes k argv cmp" "g_rep cmp = NONE"
    "g_ports cmp = [(RANGE_POSE_DATA, e0, b0), (MAP_UPDATE, e1, b1), (COMM_ACK, e2, b2)]"
  shows "(\<exists>m. started Mapper.main_init k argv m) \<and> (\<forall>m. started Mapper.main_init k argv m \<longrightarrow>
    port_at k m (m_data_index m) RANGE_POSE_DATA e0 \<and> port_at k m (m_update_index m) MAP_UPDATE e1 \<and>
    port_at k m (m_ack_index m) COMM_ACK e2)"
proof (rule mapper_args [OF assms], intro conjI allI impI, goal_cases)
  case (1 c)
  obtain k1 where "initController True True True demo_tas 7 k c = Inr (k1, 0)" using init_controller_plain by blast
  then have "\<exists>m. Mapper.main_init (True, True, True) demo_tas demo_offer 7 k argv = Inr (k1, m, 0)"
    by (simp add: Mapper.main_init_def 1)
  then show ?case unfolding started_def by blast
qed (auto simp: started_def Mapper.main_init_def then_do_Inr port_at_def pipe_at_def split: if_splits)

lemma planner_starts:
  assumes "argv_describes k argv cmp" "g_rep cmp = NONE"
    "g_ports cmp = [(MAP_UPDATE, e0, b0), (COMM_ACK, e1, b1), (WAY_REQ, e2, b2), (WAY_RES, e3, b3)]"
  shows "(\<exists>a. started (A_Star.main_init F) k argv a) \<and> (\<forall>a. started (A_Star.main_init F) k argv a \<longrightarrow>
    port_at k a (updates_index a) MAP_UPDATE e0 \<and> port_at k a (ack_index a) COMM_ACK e1 \<and>
    port_at k a (way_req_index a) WAY_REQ e2 \<and> port_at k a (way_res_index a) WAY_RES e3)"
proof (rule planner_args [OF assms, of F], intro conjI allI impI, goal_cases)
  case (1 c)
  obtain k1 where "initController True True True demo_tas 7 k c = Inr (k1, 0)" using init_controller_plain by blast
  then have "\<exists>m. A_Star.main_init F (True, True, True) demo_tas demo_offer 7 k argv = Inr (k1, m, 0)"
    by (simp add: A_Star.main_init_def 1)
  then show ?case unfolding started_def by blast
qed (auto simp: started_def A_Star.main_init_def then_do_Inr port_at_def pipe_at_def split: if_splits)

lemma navigator_starts:
  assumes "argv_describes k argv cmp" "g_rep cmp = NONE"
    "g_ports cmp = [(RANGE_POSE_DATA, e0, b0), (WAY_REQ, e1, b1), (WAY_RES, e2, b2), (MOV_CMD, e3, b3)]"
  shows "(\<exists>n. started (Art_Pot.main_init F) k argv n) \<and> (\<forall>n. started (Art_Pot.main_init F) k argv n \<longrightarrow>
    port_at k n (ap_data_index n) RANGE_POSE_DATA e0 \<and> port_at k n (ap_way_req_index n) WAY_REQ e1 \<and>
    port_at k n (ap_way_res_index n) WAY_RES e2 \<and> port_at k n (ap_out_index n) MOV_CMD e3)"
proof (rule navigator_args [OF assms], intro conjI allI impI, goal_cases)
  case (1 c)
  obtain k1 where "initController True True True demo_tas 7 k c = Inr (k1, 0)" using init_controller_plain by blast
  moreover obtain p where "pipe_at c (ap_way_req_index c) = Inr p" using 1 by (auto simp: port_at_def)
  ultimately have "\<exists>k2 m. Art_Pot.main_init F (True, True, True) demo_tas demo_offer 7 k argv = Inr (k2, m, 0)"
    by (simp add: Art_Pot.main_init_def 1)
  then show ?case unfolding started_def by blast
qed (auto simp: started_def Art_Pot.main_init_def then_do_Inr port_at_def pipe_at_def split: if_splits)

lemma filter_starts:
  assumes "argv_describes k argv cmp" "g_rep cmp = NONE"
    "g_ports cmp = [(RANGE_POSE_DATA, e0, b0), (RANGE_POSE_DATA, e1, b1), (RANGE_POSE_DATA, e2, b2), (RANGE_POSE_DATA, e3, b3)]"
  shows "(\<exists>f. started Scan_Filter.main_init k argv f) \<and> (\<forall>f. started Scan_Filter.main_init k argv f \<longrightarrow>
    port_at k f (fi_data_index f) RANGE_POSE_DATA e0 \<and> fi_out_index f = [1, 2, 3] \<and> port_at k f 1 RANGE_POSE_DATA e1 \<and>
    port_at k f 2 RANGE_POSE_DATA e2 \<and> port_at k f 3 RANGE_POSE_DATA e3)"
proof (rule filter_args [OF assms], intro conjI allI impI, goal_cases)
  case (1 c)
  obtain k1 where "initController True True True demo_tas 7 k c = Inr (k1, 0)" using init_controller_plain by blast
  then have "\<exists>m. Scan_Filter.main_init (True, True, True) demo_tas demo_offer 7 k argv = Inr (k1, m, 0)"
    by (simp add: Scan_Filter.main_init_def 1)
  then show ?case unfolding started_def by blast
qed (auto simp: started_def Scan_Filter.main_init_def then_do_Inr port_at_def pipe_at_def split: if_splits)

text \<open>
  The logger also needs its file; \<open>openFile\<close> returns no value when it succeeds, so the value found there, the
  last of the three of \<open>file\<close>, must happen not to be negative.
\<close>

lemma logger_starts:
  assumes "argv_describes k argv cmp" "g_rep cmp = NONE" "g_ports cmp = [(RANGE_POSE_DATA, e0, b0)]"
  shows "(0 \<le> r \<longrightarrow> (\<exists>l. started (\<lambda>fl. Logger.main_init F fl (True, True, r)) k argv l)) \<and>
    (\<forall>file l. started (\<lambda>fl. Logger.main_init F fl file) k argv l \<longrightarrow> port_at k l (lg_data_index l) RANGE_POSE_DATA e0)"
proof (rule logger_args [OF assms, of F], intro conjI allI impI, goal_cases)
  case (1 c)
  obtain k1 where "initController True True True demo_tas 7 k c = Inr (k1, 0)" using init_controller_plain by blast
  then have "\<exists>l. Logger.main_init F (True, True, True) (True, True, r) demo_tas demo_offer 7 k argv = Inr (k1, l, 0)"
    using 1 by (simp add: Logger.main_init_def openFile_def)
  then show ?case unfolding started_def by blast
qed (auto simp: started_def Logger.main_init_def openFile_def then_do_Inr port_at_def pipe_at_def split: if_splits prod.splits)

section \<open>The configuration of the repository\<close>

lemmas all_cfg_steps = all_cfg_def statements_def List.map_filter_def declare_component_def new_component_def add_port_def commToEnum_def

lemma all_cfg_ok_any: "config_ok i ou (statements all_cfg) ([], np)"
  by (simp add: all_cfg_steps has_room_def)

lemma all_cfg_graph:
  "fst (graph_of i ou (statements all_cfg) ([], np)) =
     [\<lparr>g_name = ''log'', g_program = ''Logger'', g_priority = ''20'', g_rep = NONE, g_timer = None,
        g_ports = [(RANGE_POSE_DATA, Input (Some (ReadEnd (np + 2))), False)]\<rparr>,
      \<lparr>g_name = ''l_n'', g_program = ''ArtPot'', g_priority = ''70'', g_rep = NONE, g_timer = None,
        g_ports = [(RANGE_POSE_DATA, Input (Some (ReadEnd np)), True), (WAY_REQ, Output (Some (WriteEnd (np + 5))), False),
          (WAY_RES, Input (Some (ReadEnd (np + 6))), False), (MOV_CMD, Output ou, True)]\<rparr>,
      \<lparr>g_name = ''map'', g_program = ''Mapper'', g_priority = ''60'', g_rep = NONE, g_timer = None,
        g_ports = [(RANGE_POSE_DATA, Input (Some (ReadEnd (np + 1))), True), (MAP_UPDATE, Output (Some (WriteEnd (np + 3))), True),
          (COMM_ACK, Input (Some (ReadEnd (np + 4))), False)]\<rparr>,
      \<lparr>g_name = ''plan'', g_program = ''AStar'', g_priority = ''-5'', g_rep = NONE, g_timer = None,
        g_ports = [(MAP_UPDATE, Input (Some (ReadEnd (np + 3))), True), (COMM_ACK, Output (Some (WriteEnd (np + 4))), True),
          (WAY_REQ, Input (Some (ReadEnd (np + 5))), False), (WAY_RES, Output (Some (WriteEnd (np + 6))), False)]\<rparr>,
      \<lparr>g_name = ''phil'', g_program = ''Filter'', g_priority = ''80'', g_rep = NONE, g_timer = None,
        g_ports = [(RANGE_POSE_DATA, Input i, True), (RANGE_POSE_DATA, Output (Some (WriteEnd np)), True),
          (RANGE_POSE_DATA, Output (Some (WriteEnd (np + 1))), False), (RANGE_POSE_DATA, Output (Some (WriteEnd (np + 2))), False)]\<rparr>]"
  by (simp add: graph_of_def all_cfg_steps eval_nat_numeral)

text \<open>
  The connections of filter, mapper, planner, navigator and logger, one for each line of the configuration
  and each at the indexes the programs use; \<open>i\<close>
  and \<open>ou\<close> are what the scans come from and the commands go to.
\<close>

definition robot_connected :: "os \<Rightarrow> fd_object option \<Rightarrow> fd_object option \<Rightarrow> 'e filter_state_scheme \<Rightarrow> 'b mapper_scheme \<Rightarrow>
    ('d, 'a) a_star_scheme \<Rightarrow> 'c art_pot_scheme \<Rightarrow> ('d, 'l) logger_scheme \<Rightarrow> bool" where
  "robot_connected k i ou f m a n l \<longleftrightarrow>
     port_at k f (fi_data_index f) RANGE_POSE_DATA (Input i) \<and>
     pipe_joins k RANGE_POSE_DATA f (fi_out_index f ! 0) n (ap_data_index n) \<and>
     pipe_joins k RANGE_POSE_DATA f (fi_out_index f ! 1) m (m_data_index m) \<and>
     pipe_joins k RANGE_POSE_DATA f (fi_out_index f ! 2) l (lg_data_index l) \<and>
     pipe_joins k MAP_UPDATE m (m_update_index m) a (updates_index a) \<and>
     pipe_joins k COMM_ACK a (ack_index a) m (m_ack_index m) \<and>
     pipe_joins k WAY_REQ n (ap_way_req_index n) a (way_req_index a) \<and>
     pipe_joins k WAY_RES a (way_res_index a) n (ap_way_res_index n) \<and>
     port_at k n (ap_out_index n) MOV_CMD (Output ou)"

lemma all_cfg_connected:
  assumes "list_all2 (argv_describes k) [a_log, a_nav, a_map, a_plan, a_filter] (fst (graph_of i ou (statements all_cfg) ([], np)))"
  shows "(\<exists>f. started Scan_Filter.main_init k a_filter f) \<and> (\<exists>m. started Mapper.main_init k a_map m) \<and>
      (\<exists>a. started (A_Star.main_init F) k a_plan a) \<and> (\<exists>n. started (Art_Pot.main_init F) k a_nav n) \<and>
      (0 \<le> r \<longrightarrow> (\<exists>l. started (\<lambda>fl. Logger.main_init F fl (True, True, r)) k a_log l))"
    "started Scan_Filter.main_init k a_filter f \<Longrightarrow> started Mapper.main_init k a_map m \<Longrightarrow>
      started (A_Star.main_init F) k a_plan a \<Longrightarrow> started (Art_Pot.main_init F) k a_nav n \<Longrightarrow>
      started (\<lambda>fl. Logger.main_init F fl file) k a_log l \<Longrightarrow> robot_connected k i ou f m a n l"
proof -
  let ?g = "fst (graph_of i ou (statements all_cfg) ([], np))"
  have d: "argv_describes k a_filter (?g ! 4)" "argv_describes k a_map (?g ! 2)" "argv_describes k a_plan (?g ! 3)"
    "argv_describes k a_nav (?g ! 1)" "argv_describes k a_log (?g ! 0)" using assms by (simp_all add: all_cfg_graph)
  have r: "g_rep (?g ! 4) = NONE" "g_rep (?g ! 2) = NONE" "g_rep (?g ! 3) = NONE" "g_rep (?g ! 1) = NONE"
    "g_rep (?g ! 0) = NONE"
    by (simp_all add: all_cfg_graph)
  have p: "g_ports (?g ! 4) = [(RANGE_POSE_DATA, Input i, True), (RANGE_POSE_DATA, Output (Some (WriteEnd np)), True),
      (RANGE_POSE_DATA, Output (Some (WriteEnd (np + 1))), False), (RANGE_POSE_DATA, Output (Some (WriteEnd (np + 2))), False)]"
    "g_ports (?g ! 2) = [(RANGE_POSE_DATA, Input (Some (ReadEnd (np + 1))), True), (MAP_UPDATE, Output (Some (WriteEnd (np + 3))), True),
      (COMM_ACK, Input (Some (ReadEnd (np + 4))), False)]"
    "g_ports (?g ! 3) = [(MAP_UPDATE, Input (Some (ReadEnd (np + 3))), True), (COMM_ACK, Output (Some (WriteEnd (np + 4))), True),
      (WAY_REQ, Input (Some (ReadEnd (np + 5))), False), (WAY_RES, Output (Some (WriteEnd (np + 6))), False)]"
    "g_ports (?g ! 1) = [(RANGE_POSE_DATA, Input (Some (ReadEnd np)), True), (WAY_REQ, Output (Some (WriteEnd (np + 5))), False),
      (WAY_RES, Input (Some (ReadEnd (np + 6))), False), (MOV_CMD, Output ou, True)]"
    "g_ports (?g ! 0) = [(RANGE_POSE_DATA, Input (Some (ReadEnd (np + 2))), False)]"
    by (simp_all add: all_cfg_graph)
  note starts = filter_starts [OF d(1) r(1) p(1)] mapper_starts [OF d(2) r(2) p(2)] planner_starts [OF d(3) r(3) p(3), of F]
    navigator_starts [OF d(4) r(4) p(4), of F] logger_starts [OF d(5) r(5) p(5), of r F]
  show "(\<exists>f. started Scan_Filter.main_init k a_filter f) \<and> (\<exists>m. started Mapper.main_init k a_map m) \<and>
      (\<exists>a. started (A_Star.main_init F) k a_plan a) \<and> (\<exists>n. started (Art_Pot.main_init F) k a_nav n) \<and>
      (0 \<le> r \<longrightarrow> (\<exists>l. started (\<lambda>fl. Logger.main_init F fl (True, True, r)) k a_log l))"
    using starts by blast
  show "robot_connected k i ou f m a n l" if "started Scan_Filter.main_init k a_filter f" "started Mapper.main_init k a_map m"
      "started (A_Star.main_init F) k a_plan a" "started (Art_Pot.main_init F) k a_nav n"
      "started (\<lambda>fl. Logger.main_init F fl file) k a_log l"
    using starts(1) [THEN conjunct2, rule_format, OF that(1)] starts(2) [THEN conjunct2, rule_format, OF that(2)]
      starts(3) [THEN conjunct2, rule_format, OF that(3)] starts(4) [THEN conjunct2, rule_format, OF that(4)]
      starts(5) [THEN conjunct2, rule_format, OF that(5)]
    unfolding robot_connected_def pipe_joins_def by (auto simp del: One_nat_def add_Suc_right)
qed

text \<open>
  (C19) The configuration of the repository builds the robot's system. The plumber starts the five
  programs of the file, and each of them can start with the arguments it was given; for the logger this
  depends on the value that \<open>openFile\<close> fails to return, \<open>r\<close>. Once they have started, the filter reads the
  benchmarker's scans and hands them to navigator, mapper and logger, the mapper's updates go to the planner and its acknowledgements back, requests of the
  navigator go to the planner and its waypoints back, and the navigator's commands leave through the
  output of the plumber: each at the indexes the programs use, as the two ends of one pipe.
\<close>

theorem shipped_configuration_connects:
  assumes "5 \<le> length argv" "deserializePipe (argv ! 3) = Some data_in" "deserializePipe (argv ! 4) = Some cmd_out"
    "plumber_ready data_in cmd_out k" "card (open_fds k) + 14 \<le> os_fd_max k"
    "5 \<le> length (os_forks k)" "\<forall>p \<in> set (os_forks k). 0 < p"
  shows "\<exists>k' a_log a_nav a_map a_plan a_filter.
    plumber_main (Some (render all_cfg)) argv k = Inr (k', 0) \<and>
    os_execs k' = os_execs k @ zip (take 5 (os_forks k)) [a_log, a_nav, a_map, a_plan, a_filter] \<and>
    (\<exists>f. started Scan_Filter.main_init k' a_filter f) \<and> (\<exists>m. started Mapper.main_init k' a_map m) \<and>
    (\<exists>a. started (A_Star.main_init F) k' a_plan a) \<and> (\<exists>n. started (Art_Pot.main_init F) k' a_nav n) \<and>
    (\<forall>r \<ge> 0. \<exists>l. started (\<lambda>fl. Logger.main_init F fl (True, True, r)) k' a_log l) \<and>
    (\<forall>f m a n file l. started Scan_Filter.main_init k' a_filter f \<and> started Mapper.main_init k' a_map m \<and>
       started (A_Star.main_init F) k' a_plan a \<and> started (Art_Pot.main_init F) k' a_nav n \<and>
       started (\<lambda>fl. Logger.main_init F fl file) k' a_log l \<longrightarrow>
       robot_connected k' (os_lookup k (tp_in data_in)) (os_lookup k (tp_out cmd_out)) f m a n l)"
proof -
  let ?i = "os_lookup k (tp_in data_in)" and ?ou = "os_lookup k (tp_out cmd_out)" and ?np = "length (os_pipes k)"
  let ?g = "fst (graph_of ?i ?ou (statements all_cfg) ([], ?np))"
  have room: "card (open_fds k) + 2 * sum_list (map new_pipes (statements all_cfg)) \<le> os_fd_max k"
    using assms(5) by (simp add: all_cfg_def statements_def List.map_filter_def)
  have len: "length ?g = 5" by (simp add: all_cfg_graph)
  then have forks: "length ?g \<le> length (os_forks k)" using assms(6) by simp
  from plumber_main_launches [OF all_cfg_valid assms(1-4) all_cfg_ok_any room refl forks assms(7), unfolded len]
  obtain k' argvs where k': "plumber_main (Some (render all_cfg)) argv k = Inr (k', 0)"
    "os_execs k' = os_execs k @ zip (take 5 (os_forks k)) argvs" "list_all2 (argv_describes k') argvs ?g" by blast
  have "length argvs = 5" using list_all2_lengthD [OF k'(3)] len by simp
  then obtain a_log a_nav a_map a_plan a_filter where av: "argvs = [a_log, a_nav, a_map, a_plan, a_filter]"
    by (auto simp: length_Suc_conv eval_nat_numeral)
  note con = all_cfg_connected [OF k'(3) [unfolded av], where F = F]
  have "(\<exists>f. started Scan_Filter.main_init k' a_filter f) \<and> (\<exists>m. started Mapper.main_init k' a_map m) \<and>
    (\<exists>a. started (A_Star.main_init F) k' a_plan a) \<and> (\<exists>n. started (Art_Pot.main_init F) k' a_nav n)" using con(1) by blast
  moreover have "\<forall>r \<ge> 0. \<exists>l. started (\<lambda>fl. Logger.main_init F fl (True, True, r)) k' a_log l" using con(1) by blast
  ultimately show ?thesis using k'(1) k'(2) [unfolded av] con(2) by blast
qed

theorem shipped_configuration_connects_witness:
  "\<exists>k' a_log a_nav a_map a_plan a_filter f m a n l.
    plumber_main (Some (render all_cfg)) plumber_argv ((demo_os [])\<lparr>os_forks := [101, 102, 103, 104, 105]\<rparr>) = Inr (k', 0) \<and>
    os_execs k' = zip [101, 102, 103, 104, 105] [a_log, a_nav, a_map, a_plan, a_filter] \<and>
    started Scan_Filter.main_init k' a_filter f \<and> started Mapper.main_init k' a_map m \<and>
    started (A_Star.main_init rat_fp) k' a_plan a \<and> started (Art_Pot.main_init rat_fp) k' a_nav n \<and>
    started (\<lambda>fl. Logger.main_init rat_fp fl (True, True, 84)) k' a_log l \<and>
    robot_connected k' (Some (ReadEnd 0)) (Some (WriteEnd 0)) f m a n l"
proof -
  let ?k = "(demo_os [])\<lparr>os_forks := [101, 102, 103, 104, 105]\<rparr>"
  let ?d = "\<lparr>tp_type = RANGE_POSE_DATA, tp_in = 3, tp_out = 0\<rparr>" and ?c = "\<lparr>tp_type = MOV_CMD, tp_in = 0, tp_out = 4\<rparr>"
  have a: "5 \<le> length plumber_argv" "deserializePipe (plumber_argv ! 3) = Some ?d" "deserializePipe (plumber_argv ! 4) = Some ?c"
    by (simp_all add: plumber_argv_def pipe_text_roundtrip)
  have k: "os_lookup ?k 0 = Some SocketEnd" "os_lookup ?k (tp_in ?d) = Some (ReadEnd 0)" "os_lookup ?k (tp_out ?c) = Some (WriteEnd 0)"
    "os_execs ?k = []" "take 5 (os_forks ?k) = [101, 102, 103, 104, 105]"
    by (simp_all add: demo_os_def os_lookup_def)
  have r: "plumber_ready ?d ?c ?k" using k(1-3) by (simp add: plumber_ready_def open_fds_def)
  have room: "card (open_fds ?k) + 14 \<le> os_fd_max ?k" using card_open_fds_table [of ?k] by (simp add: demo_os_def)
  have forks: "5 \<le> length (os_forks ?k)" "\<forall>p \<in> set (os_forks ?k). 0 < p" by simp_all
  from shipped_configuration_connects [OF a r room forks, where F = rat_fp, unfolded k]
  obtain k' a_log a_nav a_map a_plan a_filter where
    run: "plumber_main (Some (render all_cfg)) plumber_argv ?k = Inr (k', 0)"
      "os_execs k' = [] @ zip [101, 102, 103, 104, 105] [a_log, a_nav, a_map, a_plan, a_filter]" and
    st: "\<exists>f. started Scan_Filter.main_init k' a_filter f" "\<exists>m. started Mapper.main_init k' a_map m"
      "\<exists>a. started (A_Star.main_init rat_fp) k' a_plan a" "\<exists>n. started (Art_Pot.main_init rat_fp) k' a_nav n"
      "\<forall>r \<ge> 0. \<exists>l. started (\<lambda>fl. Logger.main_init rat_fp fl (True, True, r)) k' a_log l" and
    con: "\<forall>f m a n file l. started Scan_Filter.main_init k' a_filter f \<and> started Mapper.main_init k' a_map m \<and>
       started (A_Star.main_init rat_fp) k' a_plan a \<and> started (Art_Pot.main_init rat_fp) k' a_nav n \<and>
       started (\<lambda>fl. Logger.main_init rat_fp fl file) k' a_log l \<longrightarrow>
       robot_connected k' (Some (ReadEnd 0)) (Some (WriteEnd 0)) f m a n l" by blast
  have "\<exists>l. started (\<lambda>fl. Logger.main_init rat_fp fl (True, True, 84)) k' a_log l" using st(5) by simp
  then show ?thesis using run st(1-4) con unfolding append_Nil by blast
qed

end
