(* ===== verification/Print_Buffer.thy ===== *)
theory Print_Buffer imports Comm_Types begin

text \<open>
  \<open>printBuffer\<close> of \<open>src/commtypes.c\<close>, with which the voter shows two messages that differ: the lines it
  prints, as the words and numbers in them. Doubles are shown as their bits.
\<close>

datatype printed =
    Heading comm_message_t int
  | Words string
  | Doubles string "double list"
  | Ints string "int list"

text \<open>\<open>buf\<close> is the memory from the start of the array on; a \<open>char\<close> is signed.\<close>

definition char_at :: "byte list \<Rightarrow> nat \<Rightarrow> int" where
  "char_at buf i = sint (buf ! i)"

fun print_obstacles :: "byte list \<Rightarrow> nat \<Rightarrow> nat \<Rightarrow> printed list option" where
  "print_obstacles buf 0 i = Some []"
| "print_obstacles buf (Suc n) i =
     (if length buf \<le> 3 + (i * 2 + 1) then None
      else map_option (\<lambda>ls. Ints ''Obs'' [char_at buf (3 + i * 2), char_at buf (3 + (i * 2 + 1))] # ls)
             (print_obstacles buf n (i + 1)))"

text \<open>\<open>None\<close> is an access behind the memory.\<close>

definition printBuffer :: "typed_pipe \<Rightarrow> byte list \<Rightarrow> int \<Rightarrow> printed list option" where
  "printBuffer pipe buf count =
     map_option (\<lambda>ls. Heading (tp_type pipe) count # ls)
       (case tp_type pipe of
          COMM_ERROR \<Rightarrow> Some [Words ''no buffer'']
        | WAY_REQ \<Rightarrow> Some [Words ''No data'']
        | WAY_RES \<Rightarrow>
            (if length buf < 48 then None
             else Some [Doubles ''point'' (way_point (way_res_of_bytes buf)),
                        Doubles ''n_point'' (way_n_point (way_res_of_bytes buf))])
        | MOV_CMD \<Rightarrow>
            (if length buf < 16 then None
             else Some [Doubles ''vel_cmd'' (vel_cmd (mov_cmd_of_bytes buf))])
        | RANGE_POSE_DATA \<Rightarrow>
            (if length buf < 152 then None
             else (let rp_data = range_pose_of_bytes buf in
               Some (map (\<lambda>i. Doubles ''Range reading'' (map (\<lambda>j. rp_ranges rp_data ! j) [4 * i ..< 4 * i + 4])) [0..<4] @
                     [Doubles ''pose'' (rp_pose rp_data)])))
        | MAP_UPDATE \<Rightarrow>
            (if length buf < 12 then None
             else (let header = ints_of_bytes 3 buf in
               map_option (\<lambda>ls. Ints ''pose'' header # ls) (print_obstacles buf (nat (header ! 2)) 0)))
        | COMM_ACK \<Rightarrow>
            (if length buf < 8 then None else Some [Doubles ''Hash'' [u64_of_bytes (take 8 buf)]])
        | MSG_BUFFER \<Rightarrow> Some [Words ''Not implemented''])"

text \<open>A scan is shown with its ranges and its pose.\<close>

lemma printBuffer_scan:
  assumes "tp_type p = RANGE_POSE_DATA" "valid_range_pose d"
  shows "\<exists>ls. printBuffer p (range_pose_bytes d @ rest) n = Some (Heading RANGE_POSE_DATA n # ls @ [Doubles ''pose'' (rp_pose d)]) \<and>
    concat (map (\<lambda>l. case l of Doubles _ ds \<Rightarrow> ds | _ \<Rightarrow> []) ls) = rp_ranges d"
proof -
  have r: "range_pose_of_bytes (range_pose_bytes d @ rest) = d" "152 \<le> length (range_pose_bytes d @ rest)"
    using range_codec.dec_enc [OF assms(2)] range_codec.length_enc [OF assms(2)] by simp_all
  have "length (rp_ranges d) = 16" using assms(2) by (simp add: wf_simps)
  then have "map (\<lambda>j. rp_ranges d ! j) [0..<16] = rp_ranges d" by (metis map_nth)
  then have c: "concat (map (\<lambda>i. map (\<lambda>j. rp_ranges d ! j) [4 * i ..< 4 * i + 4]) [0..<4]) = rp_ranges d"
    by (simp add: upt_rec eval_nat_numeral)
  let ?ls = "map (\<lambda>i. Doubles ''Range reading'' (map (\<lambda>j. rp_ranges d ! j) [4 * i ..< 4 * i + 4])) [0..<4]"
  have "printBuffer p (range_pose_bytes d @ rest) n = Some (Heading RANGE_POSE_DATA n # ?ls @ [Doubles ''pose'' (rp_pose d)])"
    using r by (simp add: printBuffer_def assms(1) Let_def)
  moreover have "concat (map (\<lambda>l. case l of Doubles _ ds \<Rightarrow> ds | _ \<Rightarrow> []) ?ls) = rp_ranges d"
    using c by (simp add: comp_def)
  ultimately show ?thesis by blast
qed

text \<open>
  The obstacles of an update are not shown: the index counts the integers of the message, the array
  has bytes. An obstacle at (5, 7), seen from (1, 2), is shown as two bytes of the pose.
\<close>

lemma printBuffer_update_wrong:
  "printBuffer \<lparr>tp_type = MAP_UPDATE, tp_in = 3, tp_out = 0\<rparr> (ints_bytes [1, 2, 1, 5, 7]) 20 =
     Some [Heading MAP_UPDATE 20, Ints ''pose'' [1, 2, 1], Ints ''Obs'' [0, 2]]"
  by code_simp

end
