(* ===== verification/Stage_Control.thy ===== *)
theory Stage_Control imports Complex_Main begin

text \<open>
  The client of the simulator (\<open>stage_control/basic.c\<close>): it connects to the robot and the simulator, puts
  the robot at its start and sends it off, and then sleeps for ever. The Player client library is a
  parameter: the result of a call, given the calls made so far.
\<close>

datatype player_client = Robot_Client | Sim_Client

datatype playerc_call =
    Client_Create player_client string int
  | Client_Connect player_client
  | Position2d_Create player_client int
  | Position2d_Subscribe
  | Simulation_Create player_client int
  | Simulation_Subscribe
  | Simulation_Set_Pose2d string rat rat rat
  | Position2d_Set_Cmd_Pose rat rat rat int

text \<open>
  \<open>main\<close>: the calls made and the exit code, \<open>None\<close> in the endless loop.
\<close>

definition basic_main :: "(playerc_call list \<Rightarrow> int) \<Rightarrow> string list \<Rightarrow> playerc_call list \<times> int option" where
  "basic_main P argv =
     (if length argv < 2 then ([], Some 0)
      else
        (let h1 = [Client_Create Robot_Client ''127.0.0.1'' 6666, Client_Connect Robot_Client] in
         if P h1 \<noteq> 0 then (h1, Some (- 1))
         else
           (let h2 = h1 @ [Client_Create Sim_Client (argv ! 1) 6665, Client_Connect Sim_Client] in
            if P h2 \<noteq> 0 then (h2, Some (- 1))
            else
              (let h3 = h2 @ [Position2d_Create Robot_Client 1, Position2d_Subscribe] in
               if P h3 \<noteq> 0 then (h3, Some (- 1))
               else
                 (let h4 = h3 @ [Simulation_Create Sim_Client 0, Simulation_Subscribe] in
                  if P h4 \<noteq> 0 then (h4, Some (- 1))
                  else (h4 @ [Simulation_Set_Pose2d ''hank'' (- 7) (- 7) 0, Position2d_Set_Cmd_Pose (9 / 2) (9 / 2) 0 1], None))))))"

text \<open>
  A device is created only on a client whose connection succeeded, and the robot is moved only after
  both subscriptions did.
\<close>

lemma basic_uses_connected:
  "Position2d_Create Robot_Client 1 \<in> set (fst (basic_main P argv)) \<Longrightarrow>
     P (take 2 (fst (basic_main P argv))) = 0 \<and> P (take 4 (fst (basic_main P argv))) = 0"
  "snd (basic_main P argv) = None \<Longrightarrow>
     P (take 6 (fst (basic_main P argv))) = 0 \<and> P (take 8 (fst (basic_main P argv))) = 0 \<and>
     drop 8 (fst (basic_main P argv)) = [Simulation_Set_Pose2d ''hank'' (- 7) (- 7) 0, Position2d_Set_Cmd_Pose (9 / 2) (9 / 2) 0 1]"
  by (auto simp: basic_main_def Let_def split: if_splits)

text \<open>Each call that fails ends the program before the next, with -1.\<close>

lemma basic_stops_at_failure:
  assumes "2 \<le> length argv" "snd (basic_main P argv) = Some r"
  shows "r = - 1 \<and> P (fst (basic_main P argv)) \<noteq> 0"
  using assms by (auto simp: basic_main_def Let_def split: if_splits)

end
