(* ===== verification/Empty.thy ===== *)
theory Empty imports Controller begin

text \<open>
  The two controllers used for measurements: \<open>controllers/empty.c\<close> answers each scan with a fixed
  velocity, \<open>controllers/generic_empty.c\<close> copies what it reads to its output. They have the same
  globals, indexes and arguments, so these are defined once.
\<close>

section \<open>State and start\<close>

record empty = controller +
  e_read_in_index :: int
  e_write_out_index :: int

definition setPipeIndexes :: "'a empty_scheme \<Rightarrow> 'a empty_scheme" where
  "setPipeIndexes c = c\<lparr>e_read_in_index := 0, e_write_out_index := 1\<rparr>"

definition parseArgs :: "fd_offer \<Rightarrow> pid \<Rightarrow> os \<Rightarrow> string list \<Rightarrow> 'a empty_scheme \<Rightarrow> (os \<times> 'a empty_scheme \<times> int) outcome" where
  "parseArgs S pid k argv c =
     (if length argv < 2 then Inl Undefined
      else
        (let c1 = (setPipeIndexes c)\<lparr>c_priority := atoi (argv ! 1), c_pipe_count := 2\<rparr> in
         if length argv < 5 then
           then_do (connect_pipes S pid k c1 2 ''Empty'') (\<lambda>(k1, c2, _). Inr (k1, c2, 0))
         else
           then_do (or_fault Undefined (deserializePipe (argv ! 3))) (\<lambda>p.
             then_do (or_fault Undefined (deserializePipe (argv ! 4))) (\<lambda>q.
               Inr (k, c1\<lparr>c_pipes := (c_pipes c1)[nat (e_read_in_index c1) := p, nat (e_write_out_index c1) := q]\<rparr>, 0)))))"

definition empty_globals :: empty where
  "empty_globals =
     \<lparr>c_name = ''Empty'', c_priority = 0, c_pipe_count = 2, c_pipes = replicate 2 blank_pipe,
      insertSDC = False, insertCFE = False, e_read_in_index = 0, e_write_out_index = 0\<rparr>"

definition main_init :: "bool \<times> bool \<times> bool \<Rightarrow> tas_env \<Rightarrow> fd_offer \<Rightarrow> pid \<Rightarrow> os \<Rightarrow> string list \<Rightarrow>
    (os \<times> empty \<times> int) outcome" where
  "main_init fl E S pid k argv =
     then_do (parseArgs S pid k argv empty_globals) (\<lambda>(k1, c1, r).
       if r < 0 then Inr (k1, c1, - 1)
       else then_do (initController (fst fl) (fst (snd fl)) (snd (snd fl)) E pid k1 c1) (\<lambda>(k2, r2).
         if r2 < 0 then Inr (k2, c1, - 1) else Inr (k2, c1, 0)))"

section \<open>The loops\<close>

definition on_data :: "'d fp \<Rightarrow> os \<Rightarrow> 'a empty_scheme \<Rightarrow> (os \<times> 'a empty_scheme) outcome" where
  "on_data F k c =
     then_do (pipe_at c (e_read_in_index c)) (\<lambda>p.
       case os_read k (tp_in p) 152 of
         (k1, None) \<Rightarrow> Inr (k1, c)
       | (k1, Some bs) \<Rightarrow>
           (if length bs = 152 then
              then_do (pipe_at c (e_write_out_index c)) (\<lambda>q.
                if insertSDC c
                then Inr (fst (commSendMoveCommand k1 q (f_bits F (f_lit F (1 / 10))) (f_bits F (f_lit F 1))), c\<lparr>insertSDC := False\<rparr>)
                else Inr (fst (commSendMoveCommand k1 q (f_bits F (f_lit F (1 / 10))) (f_bits F (f_lit F 0))), c))
            else Inr (k1, c)))"

definition enterLoop :: "'d fp \<Rightarrow> os \<Rightarrow> 'a empty_scheme \<Rightarrow> (os \<times> 'a empty_scheme) outcome" where
  "enterLoop F k c =
     (if insertCFE c then Inl Hangs
      else
        then_do (pipe_at c (e_read_in_index c)) (\<lambda>p.
          if tp_in p \<in> set (os_select k [tp_in p]) then on_data F k c else Inr (k, c)))"

definition generic_on_data :: "os \<Rightarrow> 'a empty_scheme \<Rightarrow> (os \<times> 'a empty_scheme) outcome" where
  "generic_on_data k c =
     then_do (pipe_at c (e_read_in_index c)) (\<lambda>p.
       case os_read k (tp_in p) 4096 of
         (k1, None) \<Rightarrow> Inr (k1, c)
       | (k1, Some bs) \<Rightarrow>
           (if 0 < length bs then
              then_do (pipe_at c (e_write_out_index c)) (\<lambda>q. Inr (fst (os_write k1 (tp_out q) bs (int (length bs))), c))
            else Inr (k1, c)))"

definition generic_enterLoop :: "os \<Rightarrow> 'a empty_scheme \<Rightarrow> (os \<times> 'a empty_scheme) outcome" where
  "generic_enterLoop k c =
     (if insertCFE c then Inl Hangs
      else
        then_do (pipe_at c (e_read_in_index c)) (\<lambda>p.
          if tp_in p \<in> set (os_select k [tp_in p]) then generic_on_data k c else Inr (k, c)))"

section \<open>The array of pipes\<close>

definition empty_ok :: "'a empty_scheme \<Rightarrow> bool" where
  "empty_ok c \<longleftrightarrow> length (c_pipes c) = 2 \<and> e_read_in_index c = 0 \<and> e_write_out_index c = 1"

lemma main_init_empty_ok:
  assumes "main_init fl E S pid k argv = Inr (k', c, 0)"
  shows "empty_ok c"
proof -
  let ?c = "(setPipeIndexes empty_globals)\<lparr>c_priority := atoi (argv ! 1), c_pipe_count := 2\<rparr>"
  have g: "empty_ok ?c" "2 \<le> length (c_pipes ?c)" by (simp_all add: empty_ok_def setPipeIndexes_def empty_globals_def)
  obtain k1 r where p: "parseArgs S pid k argv empty_globals = Inr (k1, c, r)"
    using assms by (auto simp: main_init_def then_do_Inr split: if_splits)
  show ?thesis
  proof (cases "length argv < 5")
    case True
    then obtain k2 r2 where "connect_pipes S pid k ?c 2 ''Empty'' = Inr (k2, c, r2)"
      using p by (auto simp: parseArgs_def Let_def then_do_Inr split: if_splits)
    then show ?thesis using connect_pipes_ok [OF _ g(2)] g(1) by (fastforce simp: empty_ok_def)
  next
    case False
    then show ?thesis using p g(1) by (auto simp: parseArgs_def Let_def then_do_Inr empty_ok_def split: if_splits)
  qed
qed

lemma loops_empty_ok:
  "enterLoop F k c = Inr (k1, c1) \<Longrightarrow> empty_ok c \<Longrightarrow> empty_ok c1"
  "generic_enterLoop k c = Inr (k1, c1) \<Longrightarrow> empty_ok c \<Longrightarrow> empty_ok c1"
  by (auto simp: enterLoop_def on_data_def generic_enterLoop_def generic_on_data_def then_do_Inr empty_ok_def
      split: if_splits option.splits prod.splits)

interpretation em: controller_program empty_ok "\<lambda>k c. \<exists>fl E S pid k0 argv. main_init fl E S pid k0 argv = Inr (k, c, 0)"
  "enterLoop F" setPipeIndexes for F :: "'d fp"
proof (unfold_locales, goal_cases)
  case (1 k c)
  then show ?case using main_init_empty_ok by blast
next
  case (2 c k k1 c1)
  then show ?case using loops_empty_ok(1) by blast
qed (simp_all add: empty_ok_def setPipeIndexes_def)

interpretation ge: controller_program empty_ok "\<lambda>k c. \<exists>fl E S pid k0 argv. main_init fl E S pid k0 argv = Inr (k, c, 0)"
  generic_enterLoop setPipeIndexes
proof (unfold_locales, goal_cases)
  case (2 c k k1 c1)
  then show ?case using loops_empty_ok(2) by blast
qed (fact em.started_ok em.flags_ok em.pipes_ok em.indexes_ok)+

text \<open>No round of either controller leaves the array of pipes.\<close>

lemma empty_never_faults:
  assumes "empty_ok c" "\<not> insertCFE c"
  shows "\<exists>r. enterLoop F k c = Inr r" "\<exists>r. generic_enterLoop k c = Inr r"
proof -
  have p: "pipe_at c (e_read_in_index c) = Inr (c_pipes c ! 0)" "pipe_at c (e_write_out_index c) = Inr (c_pipes c ! 1)"
    using assms(1) by (simp_all add: empty_ok_def pipe_at_def)
  show "\<exists>r. enterLoop F k c = Inr r" "\<exists>r. generic_enterLoop k c = Inr r"
    using assms(2) by (auto simp: enterLoop_def on_data_def generic_enterLoop_def generic_on_data_def p split: option.splits prod.splits)
qed

section \<open>What they send\<close>

text \<open>The two pipes of such a controller, connected.\<close>

definition empty_connected :: "os \<Rightarrow> 'a empty_scheme \<Rightarrow> nat \<Rightarrow> nat \<Rightarrow> bool" where
  "empty_connected k c q w \<longleftrightarrow> e_read_in_index c = 0 \<and> e_write_out_index c = 1 \<and> length (c_pipes c) = 2 \<and>
     os_lookup k (tp_in (c_pipes c ! 0)) = Some (ReadEnd q) \<and> os_lookup k (tp_out (c_pipes c ! 1)) = Some (WriteEnd w) \<and>
     q < length (os_pipes k) \<and> w < length (os_pipes k) \<and> q \<noteq> w"

lemma empty_connected_select:
  assumes "empty_connected k c q w" "os_pipes k ! q \<noteq> []"
  shows "pipe_at c (e_read_in_index c) = Inr (c_pipes c ! 0)" "pipe_at c (e_write_out_index c) = Inr (c_pipes c ! 1)"
    "tp_in (c_pipes c ! 0) \<in> set (os_select k [tp_in (c_pipes c ! 0)])"
  using assms by (simp_all add: empty_connected_def pipe_at_def os_select_def os_readable_def)

text \<open>
  The copying controller moves the front of its input, at most a full buffer, to its output; nothing is
  lost, so the bytes of both pipes together stay the same stream.
\<close>

lemma generic_enterLoop_copies:
  assumes "empty_connected k c q w" "\<not> insertCFE c" "os_pipes k ! q \<noteq> []"
  shows "\<exists>k'. generic_enterLoop k c = Inr (k', c) \<and>
    os_pipes k' ! w = os_pipes k ! w @ take 4096 (os_pipes k ! q) \<and> os_pipes k' ! q = drop 4096 (os_pipes k ! q) \<and>
    os_pipes k' ! w @ os_pipes k' ! q = os_pipes k ! w @ os_pipes k ! q"
proof -
  let ?bs = "take 4096 (os_pipes k ! q)"
  let ?k = "k\<lparr>os_pipes := (os_pipes k)[q := drop 4096 (os_pipes k ! q)]\<rparr>"
  have out: "os_lookup ?k (tp_out (c_pipes c ! 1)) = Some (WriteEnd w)"
    using assms(1) os_lookup_cong [of ?k k] by (simp add: empty_connected_def)
  have read: "os_read k (tp_in (c_pipes c ! 0)) 4096 = (?k, Some ?bs)" "0 < length ?bs"
    using assms by (simp_all add: empty_connected_def os_read_def)
  moreover have "os_write ?k (tp_out (c_pipes c ! 1)) ?bs (int (length ?bs)) =
      (?k\<lparr>os_pipes := (os_pipes ?k)[w := os_pipes k ! w @ ?bs]\<rparr>, int (length ?bs))"
    using assms(1) out by (simp add: empty_connected_def os_write_def min_def)
  ultimately have "generic_enterLoop k c = Inr (?k\<lparr>os_pipes := (os_pipes ?k)[w := os_pipes k ! w @ ?bs]\<rparr>, c)"
    using empty_connected_select [OF assms(1,3)] assms(2)
    by (simp add: generic_enterLoop_def generic_on_data_def)
  then show ?thesis using assms(1) by (simp add: empty_connected_def)
qed

text \<open>A scan is answered by one command; an injected fault changes the turn rate once.\<close>

lemma enterLoop_answers_scan:
  assumes "empty_connected k c q w" "\<not> insertCFE c" "152 \<le> length (os_pipes k ! q)"
    "tp_type (c_pipes c ! 1) = MOV_CMD" "tp_out (c_pipes c ! 1) \<noteq> 0"
  shows "\<exists>k'. enterLoop F k c = Inr (k', c\<lparr>insertSDC := False\<rparr>) \<and> os_pipes k' ! q = drop 152 (os_pipes k ! q) \<and>
    os_pipes k' ! w = os_pipes k ! w @ mov_cmd_bytes \<lparr>vel_cmd =
      [f_bits F (f_lit F (1 / 10)), f_bits F (f_lit F (if insertSDC c then 1 else 0))]\<rparr>"
proof -
  let ?m = "mov_cmd_bytes \<lparr>vel_cmd = [f_bits F (f_lit F (1 / 10)), f_bits F (f_lit F (if insertSDC c then 1 else 0))]\<rparr>"
  let ?k = "k\<lparr>os_pipes := (os_pipes k)[q := drop 152 (os_pipes k ! q)]\<rparr>"
  have ne: "os_pipes k ! q \<noteq> []" using assms(3) by auto
  have read: "os_read k (tp_in (c_pipes c ! 0)) 152 = (?k, Some (take 152 (os_pipes k ! q)))"
    using assms(1) ne by (simp add: empty_connected_def os_read_def)
  have out: "os_lookup ?k (tp_out (c_pipes c ! 1)) = Some (WriteEnd w)"
    using assms(1) os_lookup_cong [of ?k k] by (simp add: empty_connected_def)
  have len: "length ?m = 16" by (simp add: mov_codec.length_enc wf_simps)
  have "fst (os_write ?k (tp_out (c_pipes c ! 1)) ?m 16) = ?k\<lparr>os_pipes := (os_pipes ?k)[w := os_pipes k ! w @ ?m]\<rparr>"
    using assms(1) out len by (simp add: empty_connected_def os_write_def)
  moreover have "c\<lparr>insertSDC := False\<rparr> = c" if "\<not> insertSDC c" using that by simp
  ultimately have "enterLoop F k c = Inr (?k\<lparr>os_pipes := (os_pipes ?k)[w := os_pipes k ! w @ ?m]\<rparr>, c\<lparr>insertSDC := False\<rparr>)"
    using empty_connected_select [OF assms(1) ne] assms(2-5) read
    by (cases "insertSDC c") (simp_all add: enterLoop_def on_data_def commSendMoveCommand_def)
  then show ?thesis using assms(1) by (simp add: empty_connected_def)
qed

end
