(* ===== verification/Load.thy ===== *)
theory Load imports Controller begin

text \<open>
  The artificial load (\<open>controllers/load.c\<close>): it detects pedestrians in a picture with the library
  libccv, reports their number to the logger and exits. What the library finds is an argument; the
  counting of primes, the other load of the file, is pure arithmetic.
\<close>

section \<open>Start\<close>

record load = controller +
  ld_out_to_log :: int

definition setPipeIndexes :: "'a load_scheme \<Rightarrow> 'a load_scheme" where
  "setPipeIndexes c = c\<lparr>ld_out_to_log := 0\<rparr>"

definition parseArgs :: "fd_offer \<Rightarrow> pid \<Rightarrow> os \<Rightarrow> string list \<Rightarrow> 'a load_scheme \<Rightarrow> (os \<times> 'a load_scheme \<times> int) outcome" where
  "parseArgs S pid k argv c =
     (if length argv < 2 then Inr (k, c, - 1)
      else
        (let c1 = (setPipeIndexes c)\<lparr>c_priority := atoi (argv ! 1), c_pipe_count := 1\<rparr> in
         if length argv < 4 then
           then_do (connect_pipes S pid k c1 1 ''Load'') (\<lambda>(k1, c2, _). Inr (k1, c2, 0))
         else
           then_do (or_fault Undefined (deserializePipe (argv ! 3))) (\<lambda>p.
             Inr (k, c1\<lparr>c_pipes := (c_pipes c1)[0 := p]\<rparr>, 0))))"

definition load_globals :: load where
  "load_globals =
     \<lparr>c_name = ''Load'', c_priority = 0, c_pipe_count = 1, c_pipes = [blank_pipe], insertSDC = False,
      insertCFE = False, ld_out_to_log = 0\<rparr>"

definition main_init :: "bool \<times> bool \<times> bool \<Rightarrow> tas_env \<Rightarrow> fd_offer \<Rightarrow> pid \<Rightarrow> os \<Rightarrow> string list \<Rightarrow>
    (os \<times> load \<times> int) outcome" where
  "main_init fl E S pid k argv =
     then_do (parseArgs S pid k argv load_globals) (\<lambda>(k1, c1, r).
       if r < 0 then Inr (k1, c1, - 1)
       else then_do (initController (fst fl) (fst (snd fl)) (snd (snd fl)) E pid k1 c1) (\<lambda>(k2, r2).
         if r2 < 0 then Inr (k2, c1, - 1) else Inr (k2, c1, 0)))"

section \<open>The loads\<close>

text \<open>The division of doubles is compared with the division of integers.\<close>

definition no_divisor :: "'d fp \<Rightarrow> int \<Rightarrow> bool" where
  "no_divisor F i =
     for_upto (nat (i div 2) - 1) (\<lambda>n prime.
       let j = int n + 2;
           q = f_div F (f_of_int F i) (f_of_int F j) in
       if f_le F q (f_of_int F (i div j)) \<and> f_le F (f_of_int F (i div j)) q then False else prime) True"

definition perCyclePrime :: "'d fp \<Rightarrow> int" where
  "perCyclePrime F =
     for_upto 4997 (\<lambda>n prime_count. if no_divisor F (int n + 3) then prime_count + 1 else prime_count) 0"

text \<open>
  The report of a picture: the number found, and the milliseconds as the unsigned difference is printed
  by \<open>%d\<close>. The length is that of the text; the null character after it is not counted.
\<close>

definition report :: "int \<Rightarrow> 32 word \<Rightarrow> string" where
  "report rnum elapsed_time = ''Ped total: '' @ show_int rnum @ '' in time '' @ show_int (sint elapsed_time) @ ''ms'' @ [CHR 10]"

definition string_bytes :: "string \<Rightarrow> byte list" where
  "string_bytes s = map of_char s"

text \<open>
  \<open>detections\<close> is the number of pedestrians, \<open>None\<close> if the picture cannot be read; the two times come from
  the clock. The process exits at the end of its only cycle, so the result is the kernel it leaves.
\<close>

definition perCyclePedestrian :: "int option \<Rightarrow> 32 word \<Rightarrow> 32 word \<Rightarrow> os \<Rightarrow> 'a load_scheme \<Rightarrow> os outcome" where
  "perCyclePedestrian detections t0 t1 k c =
     (case detections of
        None \<Rightarrow> Inr k
      | Some rnum \<Rightarrow>
          (let text = report rnum (t1 - t0) in
           then_do (pipe_at c (ld_out_to_log c)) (\<lambda>p.
             then_do (or_fault OutOfBounds (commSendMsgBuffer k p
                 \<lparr>mb_length = int (length text), mb_message = string_bytes text @ [0]\<rparr>)) (\<lambda>(k1, _). Inr k1))))"

section \<open>What is counted\<close>

text \<open>
  The comparison is exact whenever the quotient of two doubles is an integer only for a multiple, as it
  is for numbers below 5000; then the routine counts the primes from 3 on.
\<close>

definition exact_division :: "'d fp \<Rightarrow> bool" where
  "exact_division F \<longleftrightarrow> (\<forall>i j q. 0 < i \<and> i < 5000 \<and> 0 < j \<and> j < 5000 \<longrightarrow>
     (f_le F (f_div F (f_of_int F i) (f_of_int F j)) (f_of_int F q) \<and>
      f_le F (f_of_int F q) (f_div F (f_of_int F i) (f_of_int F j)) \<longleftrightarrow> i = q * j))"

lemma exact_division_rat: "exact_division rat_fp"
proof -
  have "(rat_of_int i / rat_of_int j \<le> rat_of_int q \<and> rat_of_int q \<le> rat_of_int i / rat_of_int j) \<longleftrightarrow> i = q * j" if "0 < j" for i j q
  proof -
    have "rat_of_int i / rat_of_int j = rat_of_int q \<longleftrightarrow> rat_of_int i = rat_of_int (q * j)"
      using that by (simp add: field_simps)
    then show ?thesis by (metis antisym_conv of_int_eq_iff order_refl)
  qed
  then show ?thesis by (simp add: exact_division_def rat_fp_def)
qed

lemma for_upto_search: "for_upto n (\<lambda>m p. if P m then False else p) True \<longleftrightarrow> (\<forall>m < n. \<not> P m)"
  by (induction n) (auto simp: for_upto_Suc less_Suc_eq)

lemma for_upto_count: "for_upto n (\<lambda>m c. if P m then c + 1 else c) 0 = int (card {m. m < n \<and> P m})"
proof (induction n)
  case (Suc n)
  have "{m. m < Suc n \<and> P m} = (if P n then insert n {m. m < n \<and> P m} else {m. m < n \<and> P m})"
    by (auto simp: less_Suc_eq)
  then show ?case using Suc by (simp add: for_upto_Suc)
qed simp

lemma small_divisor:
  fixes i j :: int
  assumes "2 \<le> j" "j < i" "j dvd i"
  shows "j \<le> i div 2"
proof -
  obtain q where q: "i = j * q" using assms(3) by blast
  then have "2 \<le> q" using assms(1,2) by (cases "q \<le> 0"; cases "q = 1") (auto simp: mult_le_0_iff dest: mult_left_mono)
  then have "j * 2 \<le> i" using q assms(1) by simp
  then show ?thesis by simp
qed

lemma no_divisor_prime:
  assumes "exact_division F" "0 < i" "i < 5000"
  shows "no_divisor F i \<longleftrightarrow> (\<forall>j. 2 \<le> j \<and> j < i \<longrightarrow> \<not> j dvd i)"
proof -
  let ?P = "\<lambda>n. let j = int n + 2; q = f_div F (f_of_int F i) (f_of_int F j) in
    f_le F q (f_of_int F (i div j)) \<and> f_le F (f_of_int F (i div j)) q"
  have P: "?P n \<longleftrightarrow> int n + 2 dvd i" if "n < nat (i div 2) - 1" for n
  proof -
    have "int n + 2 < 5000" using that assms(2,3) by linarith
    then have "?P n \<longleftrightarrow> i = i div (int n + 2) * (int n + 2)"
      using assms by (simp add: exact_division_def Let_def)
    then show ?thesis by (metis dvd_div_mult_self dvd_triv_right)
  qed
  have "no_divisor F i \<longleftrightarrow> (\<forall>n < nat (i div 2) - 1. \<not> ?P n)"
    unfolding no_divisor_def using for_upto_search [of "nat (i div 2) - 1" ?P] by (simp add: Let_def)
  also have "\<dots> \<longleftrightarrow> (\<forall>n < nat (i div 2) - 1. \<not> int n + 2 dvd i)" using P by auto
  also have "\<dots> \<longleftrightarrow> (\<forall>j. 2 \<le> j \<and> j < i \<longrightarrow> \<not> j dvd i)"
  proof (intro iffI allI impI)
    fix j assume a: "\<forall>n < nat (i div 2) - 1. \<not> int n + 2 dvd i" "2 \<le> j \<and> j < i"
    show "\<not> j dvd i"
    proof
      assume d: "j dvd i"
      then have "nat (j - 2) < nat (i div 2) - 1" using small_divisor [of j i] a(2) by linarith
      then show False using a d by auto
    qed
  next
    fix n assume a: "\<forall>j. 2 \<le> j \<and> j < i \<longrightarrow> \<not> j dvd i" "n < nat (i div 2) - 1"
    have "int n + 2 < i" using a(2) assms(2) by linarith
    then show "\<not> int n + 2 dvd i" using a(1) by simp
  qed
  finally show ?thesis .
qed

lemma perCyclePrime_counts:
  assumes "exact_division F"
  shows "perCyclePrime F = int (card {n. n < 4997 \<and> (\<forall>j. 2 \<le> j \<and> j < int n + 3 \<longrightarrow> \<not> j dvd (int n + 3))})"
proof -
  have "{n. n < 4997 \<and> no_divisor F (int n + 3)} = {n. n < 4997 \<and> (\<forall>j. 2 \<le> j \<and> j < int n + 3 \<longrightarrow> \<not> j dvd (int n + 3))}"
    using no_divisor_prime [OF assms] by auto
  then show ?thesis unfolding perCyclePrime_def by (simp add: for_upto_count)
qed

end
