(* ===== verification/Log_Report.thy ===== *)
theory Log_Report imports Logger Load begin

text \<open>
  The load and the logger together: the report of \<open>load.c\<close> travels through a pipe to \<open>logger.c\<close>, which
  prints it as a string. The sender does not count the null character, so the receiver has no end to
  print up to.
\<close>

section \<open>The text of a report\<close>

lemma char_byte_nonzero: "(of_char c :: nat) \<noteq> 0 \<Longrightarrow> (of_char c :: byte) \<noteq> 0"
proof -
  assume a: "(of_char c :: nat) \<noteq> 0"
  have l: "(of_char c :: nat) < 256" by simp
  have "(of_char c :: byte) = of_nat (of_char c)" by (simp add: of_nat_of_char)
  moreover have "\<not> 2 ^ LENGTH(8) dvd (of_char c :: nat)"
  proof
    assume "2 ^ LENGTH(8) dvd (of_char c :: nat)"
    from dvd_imp_le [OF this] a have "256 \<le> (of_char c :: nat)" by simp
    then show False using l by linarith
  qed
  ultimately show ?thesis by (metis word_of_nat_eq_0_iff)
qed

lemma report_bytes: "0 \<notin> set (string_bytes (report n t))"
proof -
  have "(of_char c :: nat) \<noteq> 0" if "c \<in> set (report n t)" for c
    using that by (auto simp: report_def is_digit_def dest!: show_int_text)
  then show ?thesis using char_byte_nonzero by (fastforce simp: string_bytes_def)
qed

lemma length_show_c_int: "c_int i \<Longrightarrow> length (show_int i) \<le> 11"
  using length_show_nat [of "nat i" 10] length_show_nat [of "nat (- i)" 10]
  by (cases "i < 0") (simp_all add: show_int_def c_int_def nat_less_iff le_SucI)

lemma report_length:
  assumes "c_int n"
  shows "c_int (int (length (report n t)))" "c_int (int (length (report n t)) + 1)" "report n t \<noteq> []"
proof -
  have "c_int (sint t)" using sint_ge [of t] sint_lt [of t] by (simp add: c_int_def)
  then have "length (report n t) < 100"
    using length_show_c_int [OF assms] length_show_c_int [of "sint t"] by (simp add: report_def)
  then show "c_int (int (length (report n t)))" "c_int (int (length (report n t)) + 1)" by (simp_all add: c_int_def)
qed (simp add: report_def)

section \<open>What the logger does with a message\<close>

lemma on_message_cases:
  assumes "pipe_at c (int i) = Inr p" "tp_in p \<noteq> 0" "tp_type p = MSG_BUFFER" "os_lookup k (tp_in p) = Some (ReadEnd q)"
    "q < length (os_pipes k)" "os_pipes k ! q = int_bytes (int (length m)) @ m @ rest" "c_int (int (length m))" "m \<noteq> []"
    "\<not> lg_finished c"
  shows "on_message k i c =
    (if 0 \<in> set m then Inr (k\<lparr>os_pipes := (os_pipes k)[q := rest]\<rparr>, c\<lparr>lg_file := lg_file c @ [LogMessage (takeWhile (\<lambda>b. b \<noteq> 0) m)]\<rparr>)
     else Inl Undefined)"
  using commRecvMsgBuffer_read [OF assms(2-6) refl assms(7,8), of "\<lparr>mb_length = 0, mb_message = []\<rparr>"] assms(1,8,9)
  by (simp add: on_message_def)

text \<open>
  (C38) The logger reads past the report of the load. A report that finds its pipe empty goes over it
  whole, but as its null character is not among the bytes, the logger prints beyond the end of the block
  it received the text in. The same text with its null character is logged as it is.
\<close>

theorem load_report_unterminated:
  assumes "pipe_at cl (ld_out_to_log cl) = Inr po" "tp_out po \<noteq> 0" "tp_type po = MSG_BUFFER"
    and "os_lookup kl (tp_out po) = Some (WriteEnd q)" "q < length (os_pipes kl)" "os_pipes kl ! q = []"
    and "pipe_at cg (int i) = Inr pin" "tp_in pin \<noteq> 0" "tp_type pin = MSG_BUFFER" "os_lookup kg (tp_in pin) = Some (ReadEnd q)"
    and "c_int rnum" "\<not> lg_finished cg"
  shows "\<exists>k1. perCyclePedestrian (Some rnum) t0 t1 kl cl = Inr k1 \<and>
    os_pipes k1 ! q = int_bytes (int (length (report rnum (t1 - t0)))) @ string_bytes (report rnum (t1 - t0)) \<and>
    on_message (kg\<lparr>os_pipes := os_pipes k1\<rparr>) i cg = Inl Undefined \<and>
    (\<exists>k2. on_message (kg\<lparr>os_pipes := (os_pipes kl)[q :=
        int_bytes (int (length (report rnum (t1 - t0))) + 1) @ string_bytes (report rnum (t1 - t0)) @ [0]]\<rparr>) i cg =
      Inr (k2, cg\<lparr>lg_file := lg_file cg @ [LogMessage (string_bytes (report rnum (t1 - t0)))]\<rparr>))"
proof -
  let ?s = "report rnum (t1 - t0)"
  let ?m = "string_bytes ?s"
  let ?k1 = "kl\<lparr>os_pipes := (os_pipes kl)[q := int_bytes (int (length ?s)) @ ?m]\<rparr>"
  note R = report_length [OF assms(11), of "t1 - t0"]
  have m: "length ?m = length ?s" "?m \<noteq> []" using R(3) by (simp_all add: string_bytes_def)
  have s: "perCyclePedestrian (Some rnum) t0 t1 kl cl = Inr ?k1"
    using assms(1-6) m(1) by (simp add: perCyclePedestrian_def Let_def commSendMsgBuffer_def os_write_def)
  have u: "on_message (kg\<lparr>os_pipes := os_pipes ?k1\<rparr>) i cg = Inl Undefined"
    using on_message_cases [OF assms(7-9), of "kg\<lparr>os_pipes := os_pipes ?k1\<rparr>" q ?m "[]"] assms(5,10,12) R(1) m report_bytes [of rnum]
    by simp
  let ?k2 = "kg\<lparr>os_pipes := (os_pipes kl)[q := int_bytes (int (length ?s) + 1) @ ?m @ [0]]\<rparr>"
  have "takeWhile (\<lambda>b. b \<noteq> 0) (?m @ [0]) = ?m" using report_bytes [of rnum] by (subst takeWhile_append2) auto
  then have t: "\<exists>k2. on_message ?k2 i cg = Inr (k2, cg\<lparr>lg_file := lg_file cg @ [LogMessage ?m]\<rparr>)"
    using on_message_cases [OF assms(7-9), of ?k2 q "?m @ [0]" "[]"] assms(5,10,12) R(2) m
    by (simp add: add.commute)
  show ?thesis using s u t assms(5) by (intro exI [of _ ?k1]) simp
qed

text \<open>Three pedestrians in 40 milliseconds.\<close>

theorem load_report_unterminated_witness:
  "\<exists>k1. perCyclePedestrian (Some 3) 100 140 (demo_os []) (load_globals\<lparr>c_pipes := [\<lparr>tp_type = MSG_BUFFER, tp_in = 0, tp_out = 4\<rparr>]\<rparr>) = Inr k1 \<and>
    on_message ((demo_os [])\<lparr>os_pipes := os_pipes k1\<rparr>) 1
      ((logger_globals rat_fp)\<lparr>c_pipes := replicate 5 \<lparr>tp_type = MSG_BUFFER, tp_in = 3, tp_out = 0\<rparr>\<rparr>) = Inl Undefined"
proof -
  let ?po = "\<lparr>tp_type = MSG_BUFFER, tp_in = 0, tp_out = 4\<rparr>" and ?pin = "\<lparr>tp_type = MSG_BUFFER, tp_in = 3, tp_out = 0\<rparr>"
  let ?cl = "load_globals\<lparr>c_pipes := [?po]\<rparr>" and ?cg = "(logger_globals rat_fp)\<lparr>c_pipes := replicate 5 ?pin\<rparr>"
  have "pipe_at ?cl (ld_out_to_log ?cl) = Inr ?po" by (simp add: load_globals_def pipe_at_def)
  moreover have "pipe_at ?cg (int 1) = Inr ?pin" "\<not> lg_finished ?cg" by (simp_all add: logger_globals_def pipe_at_def)
  moreover have "os_lookup (demo_os []) 4 = Some (WriteEnd 0)" "os_lookup (demo_os []) 3 = Some (ReadEnd 0)"
    "0 < length (os_pipes (demo_os []))" "os_pipes (demo_os []) ! 0 = []"
    by (simp_all add: demo_os_def os_lookup_def)
  ultimately show ?thesis
    using load_report_unterminated [of ?cl ?po "demo_os []" 0 ?cg 1 ?pin "demo_os []" 3 100 140]
    by (simp add: c_int_def) blast
qed

end
