(* ===== verification/Translator.thy ===== *)
theory Translator imports Replicas Controller begin

text \<open>
  The driver between the robot and the system
  (\<open>player_translator_driver/translator_driver.cc\<close>): it keeps the last position of the robot, sends each
  scan of the sensors together with that position to the benchmarker, which it starts as its only
  replica, and hands the velocities that come back to the robot. The Player server is a parameter: the
  messages in the driver's queue, whether the devices are found and can be subscribed to. What the driver
  commands the robot to do is the list \<open>tr_sent\<close>.
\<close>

section \<open>State\<close>

datatype device = Odometry | Ranger

text \<open>The messages of the server, told apart by their kind and the address of the device.\<close>

datatype player_msg = PositionState double double double | RangeScan "double list" | Intensities
  | PositionCommand double double double | OtherMessage

record translator =
  tr_pose :: "double list"
  tr_goal :: "double list"
  tr_odom :: bool
  tr_ranger :: bool
  tr_subscribed :: "device list"
  tr_reps :: "replica list"
  tr_sent :: "(double \<times> double) list"

section \<open>Construction\<close>

text \<open>
  The constructor reads the addresses of the devices from the configuration of the Player server:
  the results of the calls of \<open>ReadDeviceAddr\<close> and \<open>AddInterface\<close> are arguments. An address that is not
  read stays zero, here \<open>None\<close>; the last component is the error of the driver.
\<close>

record 'a driver_addrs =
  cmd_out_odom :: "'a option"
  odom_addr :: "'a option"
  ranger_addr :: "'a option"

definition TranslatorDriver :: "'a option \<Rightarrow> ('a \<Rightarrow> int) \<Rightarrow> 'a option \<Rightarrow> 'a option \<Rightarrow> 'a driver_addrs \<times> int" where
  "TranslatorDriver provided AddInterface odom_required ranger_required =
     (let d = \<lparr>cmd_out_odom = provided, odom_addr = None, ranger_addr = None\<rparr> in
      if (case provided of None \<Rightarrow> False | Some a \<Rightarrow> AddInterface a \<noteq> 0) then (d, - 1)
      else
        (case odom_required of
           None \<Rightarrow> (d, - 1)
         | Some a \<Rightarrow>
             (let d1 = d\<lparr>odom_addr := Some a\<rparr> in
              case ranger_required of
                None \<Rightarrow> (d1, - 1)
              | Some b \<Rightarrow> (d1\<lparr>ranger_addr := Some b\<rparr>, 0))))"

text \<open>A driver without error has both devices, so its set up always includes the ranger.\<close>

lemma TranslatorDriver_devices:
  "TranslatorDriver p A o' r = (d, 0) \<Longrightarrow> odom_addr d = o' \<and> ranger_addr d = r \<and> o' \<noteq> None \<and> r \<noteq> None"
  by (auto simp: TranslatorDriver_def Let_def split: if_splits option.splits)

section \<open>The robot\<close>

text \<open>A command without a device goes through a null pointer.\<close>

definition PutCommand :: "double \<Rightarrow> double \<Rightarrow> translator \<Rightarrow> translator outcome" where
  "PutCommand cmd_speed cmd_turnrate t =
     (if \<not> tr_odom t then Inl NullDereference
      else Inr (t\<lparr>tr_sent := tr_sent t @ [(cmd_speed, cmd_turnrate)]\<rparr>))"

definition ProcessOdom :: "double \<Rightarrow> double \<Rightarrow> double \<Rightarrow> translator \<Rightarrow> translator" where
  "ProcessOdom px py pa t = t\<lparr>tr_pose := [px, py, pa]\<rparr>"

definition ProcessCommand :: "double \<Rightarrow> double \<Rightarrow> double \<Rightarrow> translator \<Rightarrow> translator" where
  "ProcessCommand px py pa t = t\<lparr>tr_goal := [px, py, pa]\<rparr>"

definition ProcessRanger :: "double list \<Rightarrow> os \<Rightarrow> translator \<Rightarrow> os outcome" where
  "ProcessRanger ranges k t =
     (if length ranges < 16 then Inl OutOfBounds
      else Inr (fst (os_write k (fd_out (vot (tr_reps t) 0 0))
        (range_pose_bytes \<lparr>rp_ranges = map (\<lambda>i. ranges ! i) [0..<16], rp_pose = map (\<lambda>i. tr_pose t ! i) [0..<3]\<rparr>) 152)))"

definition SetupOdom :: "bool \<Rightarrow> bool \<Rightarrow> translator \<Rightarrow> translator \<times> int" where
  "SetupOdom found subscribes t =
     (let t1 = t\<lparr>tr_odom := found\<rparr> in
      if \<not> found then (t1, - 1)
      else if \<not> subscribes then (t1, - 1)
      else (t1\<lparr>tr_subscribed := Odometry # tr_subscribed t1\<rparr>, 0))"

definition SetupRanger :: "bool \<Rightarrow> bool \<Rightarrow> translator \<Rightarrow> translator \<times> int" where
  "SetupRanger found subscribes t =
     (let t1 = t\<lparr>tr_ranger := found\<rparr> in
      if \<not> found then (t1, - 1)
      else if \<not> subscribes then (t1, - 1)
      else (t1\<lparr>tr_subscribed := Ranger # tr_subscribed t1\<rparr>, 0))"

definition ShutdownRanger :: "translator \<Rightarrow> translator" where
  "ShutdownRanger t = t\<lparr>tr_subscribed := removeAll Ranger (tr_subscribed t)\<rparr>"

definition ShutdownOdom :: "translator \<Rightarrow> translator outcome" where
  "ShutdownOdom t =
     then_do (PutCommand 0 0 t) (\<lambda>t1. Inr (t1\<lparr>tr_subscribed := removeAll Odometry (tr_subscribed t1)\<rparr>))"

section \<open>Start and end\<close>

text \<open>
  The array \<open>fake_pipes\<close> tells \<open>createPipes\<close> the type and the direction of the two pipes; it and
  \<open>pipes\<close> are on the stack and not initialised otherwise.
\<close>

definition fake_pipes :: "vote_pipe list \<Rightarrow> vote_pipe list" where
  "fake_pipes junk =
     [(junk ! 0)\<lparr>rep_info := MESSAGE_T RANGE_POSE_DATA, fd_in := 1, fd_out := 0\<rparr>,
      (junk ! 1)\<lparr>rep_info := MESSAGE_T MOV_CMD, fd_in := 0, fd_out := 1\<rparr>]"

definition start_bench :: "vote_pipe list \<Rightarrow> typed_pipe list \<Rightarrow> os \<Rightarrow> replica list \<Rightarrow> os \<times> replica list" where
  "start_bench vjunk tjunk k reps =
     (let (k1, reps1) = initReplicas k reps 0 1 ''BenchMarker'' 98;
          (k2, reps2) = createPipes k1 reps1 0 1 (fake_pipes vjunk) 2;
          pipes = convertVoteToTyped (r_rep_pipes (reps2 ! 0)) 2 tjunk in
      forkReplicas k2 reps2 1 [serializePipe (pipes ! 0), serializePipe (pipes ! 1)])"

text \<open>\<open>o_dev\<close> and \<open>r_dev\<close>: the device is found, and the subscription succeeds. The doubles are 0 and -7.\<close>

definition MainSetup :: "vote_pipe list \<Rightarrow> typed_pipe list \<Rightarrow> tas_env \<Rightarrow> pid \<Rightarrow> bool \<times> bool \<Rightarrow> bool \<Rightarrow> bool \<times> bool \<Rightarrow>
    os \<Rightarrow> translator \<Rightarrow> (os \<times> translator \<times> int) outcome" where
  "MainSetup vjunk tjunk E pid o_dev has_ranger r_dev k t =
     (case InitTAS (te_affinity E) (te_mlock E) (te_maps E) pid k 0 51 of
        None \<Rightarrow> Inl OutOfBounds
      | Some (k1, _) \<Rightarrow>
          (let (k2, reps) = start_bench vjunk tjunk k1 (tr_reps t);
               t1 = t\<lparr>tr_goal := [0, 0, 0], tr_pose := [0xC01C000000000000, 0xC01C000000000000, 0], tr_reps := reps\<rparr>;
               (t2, r) = SetupOdom (fst o_dev) (snd o_dev) t1 in
           if r \<noteq> 0 then Inr (k2, t2, - 1)
           else if has_ranger then
             (let (t3, r3) = SetupRanger (fst r_dev) (snd r_dev) t2 in
              if r3 \<noteq> 0 then Inr (k2, t3, - 1) else Inr (k2, t3, 0))
           else Inr (k2, t2, 0)))"

definition MainShutdown :: "translator \<Rightarrow> (translator \<times> int) outcome" where
  "MainShutdown t =
     then_do (ShutdownOdom (if tr_ranger t then ShutdownRanger t else t)) (\<lambda>t1. Inr (t1, 0))"

section \<open>Messages and rounds\<close>

text \<open>A goal is stored and then no value is returned: \<open>None\<close>.\<close>

definition ProcessMessage :: "player_msg \<Rightarrow> os \<Rightarrow> translator \<Rightarrow> (os \<times> translator \<times> int option) outcome" where
  "ProcessMessage m k t =
     (case m of
        PositionState px py pa \<Rightarrow> Inr (k, ProcessOdom px py pa t, Some 0)
      | RangeScan ranges \<Rightarrow> then_do (ProcessRanger ranges k t) (\<lambda>k1. Inr (k1, t, Some 0))
      | Intensities \<Rightarrow> Inr (k, t, Some 0)
      | PositionCommand px py pa \<Rightarrow> Inr (k, ProcessCommand px py pa t, None)
      | OtherMessage \<Rightarrow> Inr (k, t, Some (- 1)))"

fun ProcessMessages :: "player_msg list \<Rightarrow> os \<Rightarrow> translator \<Rightarrow> (os \<times> translator) outcome" where
  "ProcessMessages [] k t = Inr (k, t)"
| "ProcessMessages (m # ms) k t = then_do (ProcessMessage m k t) (\<lambda>(k1, t1, _). ProcessMessages ms k1 t1)"

text \<open>A descriptor that does not block: with nothing to read the result is -1.\<close>

definition read_nonblock :: "os \<Rightarrow> fd \<Rightarrow> nat \<Rightarrow> os \<times> byte list option" where
  "read_nonblock k fd n = (if os_readable k fd then os_read k fd n else (k, None))"

text \<open>A short read leaves the rest of the message as it was in memory: \<open>junk\<close>.\<close>

definition DoOneUpdate :: "byte list \<Rightarrow> player_msg list \<Rightarrow> os \<Rightarrow> translator \<Rightarrow> (os \<times> translator) outcome" where
  "DoOneUpdate junk queue k t =
     then_do (ProcessMessages queue k t) (\<lambda>(k1, t1).
       case read_nonblock k1 (fd_in (vot (tr_reps t1) 0 1)) 16 of
         (k2, None) \<Rightarrow> Inr (k2, t1)
       | (k2, Some bs) \<Rightarrow>
           (if 0 < length bs then
              (let vel = vel_cmd (mov_cmd_of_bytes (memcpy junk 0 bs 0 (length bs))) in
               then_do (PutCommand (vel ! 0) (vel ! 1) t1) (\<lambda>t2. Inr (k2, t2)))
            else Inr (k2, t1)))"

end
