(* ===== verification/Benchmarker.thy ===== *)
theory Benchmarker imports Replicas Controller begin

text \<open>
  The benchmarker (\<open>controllers/benchmarker.c\<close>): it stands between the robot (the translator) and the
  system under test, which it starts as a single replica of the plumber, forwards scans to it and
  commands back, and prints the time between the two. The configuration is that of \<open>bench_config.h\<close>:
  \<open>TIME_FULL_BENCH\<close> is on, \<open>TEST_IPC_ROUND\<close> off.
\<close>

section \<open>State and start\<close>

record bench =
  b_priority :: int
  b_trans :: "typed_pipe list"
  b_reps :: "replica list"
  b_waiting :: bool
  b_last :: timestamp
  b_times :: "(timestamp \<times> timestamp) list"

definition parseArgs :: "string list \<Rightarrow> bench \<Rightarrow> (bench \<times> int) outcome" where
  "parseArgs argv b =
     (if length argv < 5 then Inr (b, - 1)
      else
        then_do (or_fault Undefined (deserializePipe (argv ! 3))) (\<lambda>p.
          then_do (or_fault Undefined (deserializePipe (argv ! 4))) (\<lambda>q.
            Inr (b\<lparr>b_priority := atoi (argv ! 1), b_trans := [p, q]\<rparr>, 0))))"

text \<open>\<open>new_pipes\<close> and \<open>junk\<close> are the two arrays on the stack, which are not initialised.\<close>

definition initBenchMarker :: "vote_pipe list \<Rightarrow> typed_pipe list \<Rightarrow> tas_env \<Rightarrow> pid \<Rightarrow> os \<Rightarrow> bench \<Rightarrow> (os \<times> bench \<times> int) outcome" where
  "initBenchMarker new_pipes junk E pid k b =
     then_do (init_tas E pid k (b_priority b)) (\<lambda>k1.
       let (k2, reps1) = initReplicas k1 (b_reps b) 0 1 ''plumber'' 10;
           ext = convertTypedToVote (b_trans b) 2 new_pipes;
           (k3, reps2) = createPipes k2 reps1 0 1 ext 2;
           pipes = convertVoteToTyped (r_rep_pipes (reps2 ! 0)) 2 junk;
           (k4, reps3) = forkReplicas k3 reps2 1 [serializePipe (pipes ! 0), serializePipe (pipes ! 1)] in
       Inr (k4, b\<lparr>b_reps := reps3\<rparr>, 0))"

definition main_init :: "vote_pipe list \<Rightarrow> typed_pipe list \<Rightarrow> tas_env \<Rightarrow> pid \<Rightarrow> os \<Rightarrow> string list \<Rightarrow> bench \<Rightarrow> (os \<times> bench \<times> int) outcome" where
  "main_init new_pipes junk E pid k argv b =
     then_do (parseArgs argv b) (\<lambda>(b1, r).
       if r < 0 then Inr (k, b1, - 1)
       else then_do (initBenchMarker new_pipes junk E pid k b1) (\<lambda>(k2, b2, r2).
         if r2 < 0 then Inr (k2, b2, - 1) else Inr (k2, b2, 0)))"

section \<open>The loop\<close>

definition on_scan :: "os \<Rightarrow> bench \<Rightarrow> os \<times> bench" where
  "on_scan k b =
     (case os_read k (tp_in (b_trans b ! 0)) 152 of
        (k1, None) \<Rightarrow> (k1, b)
      | (k1, Some bs) \<Rightarrow>
          (if length bs = 152 then
             (let k2 = (if b_waiting b then fst (generate_timestamp k1) else k1);
                  (k3, last) = generate_timestamp k2 in
              (fst (os_write k3 (fd_out (vot (b_reps b) 0 0)) bs 152), b\<lparr>b_waiting := True, b_last := last\<rparr>))
           else (k1, b)))"

definition on_response :: "os \<Rightarrow> bench \<Rightarrow> os \<times> bench" where
  "on_response k b =
     (case os_read k (fd_in (vot (b_reps b) 0 1)) 16 of
        (k1, None) \<Rightarrow> (k1, b)
      | (k1, Some bs) \<Rightarrow>
          (if length bs = 16 then
             (let (k2, current) = generate_timestamp k1 in
              (fst (os_write k2 (tp_out (b_trans b ! 1)) bs 16),
               b\<lparr>b_waiting := False, b_times := b_times b @ [(b_last b, current)]\<rparr>))
           else (k1, b)))"

definition enterLoop :: "os \<Rightarrow> bench \<Rightarrow> os \<times> bench" where
  "enterLoop k b =
     (let ready = os_select k [tp_in (b_trans b ! 0), fd_in (vot (b_reps b) 0 1)];
          (k1, b1) = (if tp_in (b_trans b ! 0) \<in> set ready then on_scan k b else (k, b)) in
      if fd_in (vot (b_reps b) 0 1) \<in> set ready then on_response k1 b1 else (k1, b1))"

section \<open>Forwarding\<close>

lemma time_frame: "generate_timestamp k = (k', t) \<Longrightarrow> os_pipes k' = os_pipes k \<and> os_lookup k' f = os_lookup k f"
  by (auto simp: generate_timestamp_def os_time_def split: list.splits)

text \<open>A scan goes to the replica unchanged, a response to the robot; nothing else moves.\<close>

lemma forward:
  assumes "os_lookup k f = Some (ReadEnd q)" "q < length (os_pipes k)" "n \<le> length (os_pipes k ! q)" "0 < n"
    and "os_lookup k g = Some (WriteEnd w)" "w < length (os_pipes k)" "w \<noteq> q"
  shows "os_read k f n = (k\<lparr>os_pipes := (os_pipes k)[q := drop n (os_pipes k ! q)]\<rparr>, Some (take n (os_pipes k ! q)))"
    "os_pipes k3 = (os_pipes k)[q := drop n (os_pipes k ! q)] \<Longrightarrow> os_lookup k3 g = os_lookup k g \<Longrightarrow>
      fst (os_write k3 g (take n (os_pipes k ! q)) (int n)) =
        k3\<lparr>os_pipes := (os_pipes k)[q := drop n (os_pipes k ! q), w := os_pipes k ! w @ take n (os_pipes k ! q)]\<rparr>"
proof -
  have "os_pipes k ! q \<noteq> []" using assms(3,4) by auto
  then show "os_read k f n = (k\<lparr>os_pipes := (os_pipes k)[q := drop n (os_pipes k ! q)]\<rparr>, Some (take n (os_pipes k ! q)))"
    using assms(1,2,4) by (simp add: os_read_def)
qed (use assms(5-7) in \<open>simp add: os_write_def min_def\<close>)

lemma on_scan_forwards:
  assumes "os_lookup k (tp_in (b_trans b ! 0)) = Some (ReadEnd q)" "q < length (os_pipes k)" "152 \<le> length (os_pipes k ! q)"
    and "os_lookup k (fd_out (vot (b_reps b) 0 0)) = Some (WriteEnd w)" "w < length (os_pipes k)" "w \<noteq> q"
    and "on_scan k b = (k', b')"
  shows "os_pipes k' = (os_pipes k)[q := drop 152 (os_pipes k ! q), w := os_pipes k ! w @ take 152 (os_pipes k ! q)]"
    "os_lookup k' f = os_lookup k f" "\<exists>t. b' = b\<lparr>b_waiting := True, b_last := t\<rparr>"
proof -
  let ?k1 = "k\<lparr>os_pipes := (os_pipes k)[q := drop 152 (os_pipes k ! q)]\<rparr>"
  note fw = forward [OF assms(1-3) _ assms(4-6)]
  define k2 where "k2 = (if b_waiting b then fst (generate_timestamp ?k1) else ?k1)"
  obtain k3 t where t: "generate_timestamp k2 = (k3, t)" by fastforce
  obtain ka ta where a: "generate_timestamp ?k1 = (ka, ta)" by fastforce
  have k2: "os_pipes k2 = os_pipes ?k1" "os_lookup k2 f = os_lookup ?k1 f" for f
    using time_frame [OF a, of f] a by (simp_all add: k2_def)
  have k3: "os_pipes k3 = (os_pipes k)[q := drop 152 (os_pipes k ! q)]" "os_lookup k3 f = os_lookup k f" for f
    using time_frame [OF t, of f] k2 by simp_all
  have "k' = fst (os_write k3 (fd_out (vot (b_reps b) 0 0)) (take 152 (os_pipes k ! q)) 152)" "b' = b\<lparr>b_waiting := True, b_last := t\<rparr>"
    using assms(3,7) fw(1) t by (auto simp: on_scan_def k2_def Let_def)
  then show "os_pipes k' = (os_pipes k)[q := drop 152 (os_pipes k ! q), w := os_pipes k ! w @ take 152 (os_pipes k ! q)]"
    "os_lookup k' f = os_lookup k f" "\<exists>t. b' = b\<lparr>b_waiting := True, b_last := t\<rparr>"
    using fw(2) [OF _ k3] k3(2) by auto
qed

lemma on_response_forwards:
  assumes "os_lookup k (fd_in (vot (b_reps b) 0 1)) = Some (ReadEnd q)" "q < length (os_pipes k)" "16 \<le> length (os_pipes k ! q)"
    and "os_lookup k (tp_out (b_trans b ! 1)) = Some (WriteEnd w)" "w < length (os_pipes k)" "w \<noteq> q"
    and "on_response k b = (k', b')"
  shows "os_pipes k' = (os_pipes k)[q := drop 16 (os_pipes k ! q), w := os_pipes k ! w @ take 16 (os_pipes k ! q)]"
    "os_lookup k' f = os_lookup k f" "\<exists>t. b' = b\<lparr>b_waiting := False, b_times := b_times b @ [(b_last b, t)]\<rparr>"
proof -
  let ?k1 = "k\<lparr>os_pipes := (os_pipes k)[q := drop 16 (os_pipes k ! q)]\<rparr>"
  note fw = forward [OF assms(1-3) _ assms(4-6)]
  obtain k3 t where t: "generate_timestamp ?k1 = (k3, t)" by fastforce
  have k3: "os_pipes k3 = (os_pipes k)[q := drop 16 (os_pipes k ! q)]" "os_lookup k3 f = os_lookup k f" for f
    using time_frame [OF t, of f] by simp_all
  have "k' = fst (os_write k3 (tp_out (b_trans b ! 1)) (take 16 (os_pipes k ! q)) 16)"
    "b' = b\<lparr>b_waiting := False, b_times := b_times b @ [(b_last b, t)]\<rparr>"
    using assms(3,7) fw(1) t by (auto simp: on_response_def)
  then show "os_pipes k' = (os_pipes k)[q := drop 16 (os_pipes k ! q), w := os_pipes k ! w @ take 16 (os_pipes k ! q)]"
    "os_lookup k' f = os_lookup k f" "\<exists>t. b' = b\<lparr>b_waiting := False, b_times := b_times b @ [(b_last b, t)]\<rparr>"
    using fw(2) [OF _ k3] k3(2) by auto
qed

end
