(* ===== verification/Robot_Loop.thy ===== *)
theory Robot_Loop imports Translator Benchmarker begin

text \<open>
  The robot, the driver and the benchmarker together: the driver starts the benchmarker with the text of
  two pipe ends, and through these pipes a scan travels to the system under test and a velocity back to
  the robot. The processes share the pipes of the kernel and have a table of descriptors each; the
  benchmarker inherits the driver's.
\<close>

section \<open>The start\<close>

text \<open>
  The driver's replica before the start, and what is true of the pipes afterwards: \<open>q\<close> is the pipe
  of the scans, \<open>Suc q\<close> that of the commands.
\<close>

definition driver_ready :: "os \<Rightarrow> replica list \<Rightarrow> bool" where
  "driver_ready k reps \<longleftrightarrow> (\<exists>rep. reps = [rep] \<and> rep_shape rep \<and> r_pipe_count rep = 0) \<and> 0 \<in> open_fds k \<and>
     card (open_fds k) + 4 \<le> os_fd_max k"

definition driver_wired :: "os \<Rightarrow> replica list \<Rightarrow> nat \<Rightarrow> bool" where
  "driver_wired k reps q \<longleftrightarrow> os_lookup k (fd_out (vot reps 0 0)) = Some (WriteEnd q) \<and>
     os_lookup k (fd_in (vot reps 0 1)) = Some (ReadEnd (Suc q))"

lemma parseArgs_pipes:
  assumes "deserializePipe s0 = Some p0" "deserializePipe s1 = Some p1"
  shows "parseArgs [nm, show_int 98, n, s0, s1] b = Inr (b\<lparr>b_priority := 98, b_trans := [p0, p1]\<rparr>, 0)"
proof -
  have "atoi (show_int 98) = 98" by code_simp
  then show ?thesis by (simp add: parseArgs_def assms)
qed

lemma start_bench_connects:
  assumes "driver_ready k reps" "2 \<le> length vj" "2 \<le> length tj" "os_forks k = p # ps" "0 < p"
    and "start_bench vj tj k reps = (k', reps')"
  shows "driver_wired k' reps' (length (os_pipes k))" "os_pipes k' = os_pipes k @ [[], []]"
    "\<exists>argv b'. os_execs k' = os_execs k @ [(p, argv)] \<and> parseArgs argv b = Inr (b', 0) \<and>
      b' = b\<lparr>b_priority := 98, b_trans := b_trans b'\<rparr> \<and>
      os_lookup k' (tp_in (b_trans b' ! 0)) = Some (ReadEnd (length (os_pipes k))) \<and>
      os_lookup k' (tp_out (b_trans b' ! 1)) = Some (WriteEnd (Suc (length (os_pipes k))))"
proof -
  let ?q = "length (os_pipes k)" and ?ext = "fake_pipes vj"
  obtain rep where rep: "reps = [rep]" "rep_shape rep" "r_pipe_count rep = 0" and room: "0 \<in> open_fds k" "card (open_fds k) + 2 * 2 \<le> os_fd_max k"
    using assms(1) by (auto simp: driver_ready_def)
  define rep1 where "rep1 = rep\<lparr>r_name := Some ''BenchMarker'', r_pid := - 1, r_priority := 98, r_pipe_count := 0\<rparr>"
  have i: "initReplicas k reps 0 1 ''BenchMarker'' 98 = (k, [rep1])"
    unfolding initReplicas_1 using rep by (simp add: initReplica_def rep1_def Let_def)
  have r1: "rep_shape rep1" "r_pipe_count rep1 = 0" "r_name rep1 = Some ''BenchMarker''" "r_priority rep1 = 98"
    using rep(2) by (simp_all add: rep1_def rep_shape_def)
  obtain k2 rep2 where c: "for_upto 2 (createPipe ?ext) (k, rep1) = (k2, rep2)" by fastforce
  then have "created ?ext k rep1 2 (k2, rep2)"
    using createPipe_loop [OF r1(1,2) _ room(2,1), of ?ext] by simp
  then have C: "r_pipe_count rep2 = 2" "r_name rep2 = Some ''BenchMarker''" "os_pipes k2 = os_pipes k @ replicate 2 []"
    and w: "\<forall>i < 2. wired k2 (?ext ! i) rep2 i (?q + i)"
    using r1(3) by (simp_all add: created_def)
  have w0: "wired k2 (?ext ! 0) rep2 0 ?q" and w1: "wired k2 (?ext ! 1) rep2 1 (Suc ?q)"
    using w [rule_format, of 0] w [rule_format, of 1] by simp_all
  note info = createPipe_loop_info [OF r1(1,2) _ room(2,1) c]
  have inf: "rep_info (r_rep_pipes rep2 ! 0) = MESSAGE_T RANGE_POSE_DATA" "rep_info (r_rep_pipes rep2 ! 1) = MESSAGE_T MOV_CMD"
    "r_priority rep2 = 98"
    using info r1(4) by (simp_all add: fake_pipes_def)
  let ?ps = "convertVoteToTyped (r_rep_pipes rep2) 2 tj"
  let ?in = "fd_in (r_rep_pipes rep2 ! 0)" and ?out = "fd_out (r_rep_pipes rep2 ! 1)"
  let ?argv = "[''BenchMarker'', show_int 98, show_int 2, serializePipe (?ps ! 0), serializePipe (?ps ! 1)]"
  let ?k3 = "k2\<lparr>os_forks := ps, os_alive := os_alive k2 @ [p], os_execs := os_execs k2 @ [(p, ?argv)]\<rparr>"
  have ends: "fd_out (r_vot_pipes rep2 ! 0) \<noteq> 0" "os_lookup k2 (fd_out (r_vot_pipes rep2 ! 0)) = Some (WriteEnd ?q)"
    "?in \<noteq> 0" "fd_out (r_rep_pipes rep2 ! 0) = 0" "os_lookup k2 ?in = Some (ReadEnd ?q)"
    "os_lookup k2 (fd_in (r_vot_pipes rep2 ! 1)) = Some (ReadEnd (Suc ?q))"
    "fd_in (r_rep_pipes rep2 ! 1) = 0" "os_lookup k2 ?out = Some (WriteEnd (Suc ?q))"
    using w0 w1 by (simp_all add: wired_def fake_pipes_def Let_def)
  have ps: "?ps ! 0 = \<lparr>tp_type = RANGE_POSE_DATA, tp_in = ?in, tp_out = 0\<rparr>" "?ps ! 1 = \<lparr>tp_type = MOV_CMD, tp_in = 0, tp_out = ?out\<rparr>"
    using convertVoteToTyped_nth [OF assms(3), of "r_rep_pipes rep2"] inf(1,2) ends(4,7) by (simp_all del: MESSAGE_T.simps)
  obtain t qs where "k2 = k\<lparr>os_fd_table := t, os_pipes := qs\<rparr>"
    using createPipe_loop_frame [of 2 ?ext k rep1] c by auto
  then have same: "os_forks k2 = p # ps" "os_execs k2 = os_execs k" using assms(4) by simp_all
  have run: "start_bench vj tj k reps = (?k3, [rep2\<lparr>r_pid := p\<rparr>])"
    using i c C(1,2) inf(3) same assms(5) unfolding start_bench_def forkReplicas_def createPipes_1
    by (simp add: Let_def for_upto_def forkSingle_def os_fork_exec_def)
  then have k': "k' = ?k3" "reps' = [rep2\<lparr>r_pid := p\<rparr>]" using assms(6) by simp_all
  show "driver_wired k' reps' ?q" "os_pipes k' = os_pipes k @ [[], []]"
    unfolding k' driver_wired_def using ends(2,6) C(3) by (simp_all add: numeral_2_eq_2)
  have d: "deserializePipe (serializePipe (?ps ! 0)) = Some (?ps ! 0)" "deserializePipe (serializePipe (?ps ! 1)) = Some (?ps ! 1)"
    unfolding pipe_text_roundtrip ps by simp_all
  have "parseArgs ?argv b = Inr (b\<lparr>b_priority := 98, b_trans := [?ps ! 0, ?ps ! 1]\<rparr>, 0)"
    by (rule parseArgs_pipes [OF d])
  then show "\<exists>argv b'. os_execs k' = os_execs k @ [(p, argv)] \<and> parseArgs argv b = Inr (b', 0) \<and>
      b' = b\<lparr>b_priority := 98, b_trans := b_trans b'\<rparr> \<and>
      os_lookup k' (tp_in (b_trans b' ! 0)) = Some (ReadEnd ?q) \<and> os_lookup k' (tp_out (b_trans b' ! 1)) = Some (WriteEnd (Suc ?q))"
    unfolding k' using same(2) ends(5,8) ps
    by (intro exI [of _ ?argv] exI [of _ "b\<lparr>b_priority := 98, b_trans := [?ps ! 0, ?ps ! 1]\<rparr>"]) simp
qed

section \<open>One turn of the loop\<close>

lemma driver_sends:
  assumes "driver_wired k (tr_reps t) q" "Suc q < length (os_pipes k)" "os_pipes k ! Suc q = []" "16 \<le> length rs"
  shows "DoOneUpdate junk [PositionState x y a, RangeScan rs] k t =
    Inr (k\<lparr>os_pipes := (os_pipes k)[q := os_pipes k ! q @ range_pose_bytes \<lparr>rp_ranges = take 16 rs, rp_pose = [x, y, a]\<rparr>]\<rparr>,
      t\<lparr>tr_pose := [x, y, a]\<rparr>)"
proof -
  let ?m = "\<lparr>rp_ranges = take 16 rs, rp_pose = [x, y, a]\<rparr>"
  let ?k = "k\<lparr>os_pipes := (os_pipes k)[q := os_pipes k ! q @ range_pose_bytes ?m]\<rparr>"
  have "map ((!) rs) [0..<16] = take 16 rs" using assms(4) by (auto intro: nth_equalityI)
  moreover have "map ((!) [x, y, a]) [0..<3] = [x, y, a]" by (simp add: upt_rec)
  moreover have "length (range_pose_bytes ?m) = 152" using assms(4) by (simp add: range_codec.length_enc wf_simps)
  ultimately have s: "ProcessMessages [PositionState x y a, RangeScan rs] k t = Inr (?k, t\<lparr>tr_pose := [x, y, a]\<rparr>)"
    using assms by (simp add: ProcessMessage_def ProcessOdom_def ProcessRanger_def driver_wired_def os_write_def)
  have "os_lookup ?k (fd_in (vot (tr_reps t) 0 1)) = Some (ReadEnd (Suc q))" "os_pipes ?k ! Suc q = []"
    using assms(1,3) by (simp_all add: driver_wired_def)
  then have "read_nonblock ?k (fd_in (vot (tr_reps t) 0 1)) 16 \<in> {(?k, None), (?k, Some [])}"
    using assms(2) by (auto simp: read_nonblock_def os_readable_def os_read_def)
  then show ?thesis using s by (auto simp: DoOneUpdate_def)
qed

lemma driver_obeys:
  assumes "driver_wired k (tr_reps t) q" "Suc q < length (os_pipes k)" "os_pipes k ! Suc q = mov_cmd_bytes \<lparr>vel_cmd = [v0, v1]\<rparr>"
    and "length junk = 16" "tr_odom t"
  shows "DoOneUpdate junk [] k t = Inr (k\<lparr>os_pipes := (os_pipes k)[Suc q := []]\<rparr>, t\<lparr>tr_sent := tr_sent t @ [(v0, v1)]\<rparr>)"
proof -
  let ?m = "\<lparr>vel_cmd = [v0, v1]\<rparr>"
  have l: "length (mov_cmd_bytes ?m) = 16" by (simp add: mov_codec.length_enc wf_simps)
  then have ne: "mov_cmd_bytes ?m \<noteq> []" by force
  then have "read_nonblock k (fd_in (vot (tr_reps t) 0 1)) 16 = (k\<lparr>os_pipes := (os_pipes k)[Suc q := []]\<rparr>, Some (mov_cmd_bytes ?m))"
    using assms(1-3) l by (simp add: driver_wired_def read_nonblock_def os_readable_def os_read_def)
  moreover have "mov_cmd_of_bytes (memcpy junk 0 (mov_cmd_bytes ?m) 0 16) = ?m"
    using mov_codec.dec_enc [of ?m "[]"] assms(4) l by (simp add: memcpy_def wf_simps)
  ultimately show ?thesis using assms(5) l ne by (simp add: DoOneUpdate_def PutCommand_def)
qed

lemma MainSetup_ok:
  assumes "MainSetup vj tj E pid o_dev hr r_dev k t = Inr (k1, t1, 0)"
  shows "tr_odom t1" "tr_sent t1 = tr_sent t" "\<exists>s. start_bench vj tj (k\<lparr>os_sched := s\<rparr>) (tr_reps t) = (k1, tr_reps t1)"
proof -
  obtain kt x where i: "InitTAS (te_affinity E) (te_mlock E) (te_maps E) pid k 0 51 = Some (kt, x)"
    using assms by (auto simp: MainSetup_def split: option.splits)
  then have "kt = fst (sched_set_policy k pid 51)" by (auto simp: InitTAS_def Let_def split: option.splits prod.splits)
  then obtain s where s: "kt = k\<lparr>os_sched := s\<rparr>" using sched_set_policy_frame by blast
  obtain k2 reps where b: "start_bench vj tj kt (tr_reps t) = (k2, reps)" by fastforce
  show "tr_odom t1" "tr_sent t1 = tr_sent t" "\<exists>s. start_bench vj tj (k\<lparr>os_sched := s\<rparr>) (tr_reps t) = (k1, tr_reps t1)"
    using assms i b s by (auto simp: MainSetup_def SetupOdom_def SetupRanger_def Let_def split: if_splits)
qed

text \<open>
  (C37) The loop through the robot is closed. Started by a successful \<open>MainSetup\<close> the benchmarker finds
  in its arguments the ends of the driver's two pipes. A position and a scan that the driver takes from
  its queue reach the system under test as one message of the scan with that very position, once the
  benchmarker has run; the velocities with which the system answers are, after its next turn, the next
  command the driver gives to the robot, and the benchmarker waits no more.
\<close>

theorem robot_loop_closed:
  assumes "MainSetup vj tj E pid o_dev hr r_dev k t = Inr (k1, t1, 0)" "driver_ready k (tr_reps t)"
    and "2 \<le> length vj" "2 \<le> length tj" "os_forks k = p # ps" "0 < p" "q = length (os_pipes k)"
    and "\<forall>f \<in> open_fds k1. os_lookup kb f = os_lookup k1 f"
    and "os_lookup kb (fd_out (vot sys 0 0)) = Some (WriteEnd w)" "os_lookup kb (fd_in (vot sys 0 1)) = Some (ReadEnd r)"
    and "distinct [q, Suc q, w, r]" "w < length P" "r < length P" "Suc q < length P"
    and "P ! q = []" "P ! Suc q = []" "P ! r = mov_cmd_bytes \<lparr>vel_cmd = [v0, v1]\<rparr>"
    and "16 \<le> length rs" "length junk = 16"
  shows "\<exists>argv b k2 t2 k3 b3 k4 b4 k5 t5.
    os_execs k1 = os_execs k @ [(p, argv)] \<and> parseArgs argv b0 = Inr (b, 0) \<and>
    DoOneUpdate junk [PositionState x y a, RangeScan rs] (k1\<lparr>os_pipes := P\<rparr>) t1 = Inr (k2, t2) \<and>
    on_scan (kb\<lparr>os_pipes := os_pipes k2\<rparr>) (b\<lparr>b_reps := sys\<rparr>) = (k3, b3) \<and>
    os_pipes k3 ! w = P ! w @ range_pose_bytes \<lparr>rp_ranges = take 16 rs, rp_pose = [x, y, a]\<rparr> \<and>
    on_response k3 b3 = (k4, b4) \<and> \<not> b_waiting b4 \<and>
    DoOneUpdate junk [] (k2\<lparr>os_pipes := os_pipes k4\<rparr>) t2 = Inr (k5, t5) \<and> tr_sent t5 = tr_sent t @ [(v0, v1)]"
proof -
  let ?m = "range_pose_bytes \<lparr>rp_ranges = take 16 rs, rp_pose = [x, y, a]\<rparr>" and ?v = "mov_cmd_bytes \<lparr>vel_cmd = [v0, v1]\<rparr>"
  have len: "length ?m = 152" "length ?v = 16" using assms(18) by (simp_all add: range_codec.length_enc mov_codec.length_enc wf_simps)
  note M = MainSetup_ok [OF assms(1)]
  obtain s where s: "start_bench vj tj (k\<lparr>os_sched := s\<rparr>) (tr_reps t) = (k1, tr_reps t1)" using M(3) by blast
  have "driver_ready (k\<lparr>os_sched := s\<rparr>) (tr_reps t)" "os_forks (k\<lparr>os_sched := s\<rparr>) = p # ps"
    using assms(2,5) by (simp_all add: driver_ready_def open_fds_def)
  note S = start_bench_connects [OF this(1) assms(3,4) this(2) assms(6) s]
  have dw: "driver_wired k1 (tr_reps t1) q" using S(1) assms(7) by simp
  obtain argv b where b: "os_execs k1 = os_execs k @ [(p, argv)]" "parseArgs argv b0 = Inr (b, 0)"
    "os_lookup k1 (tp_in (b_trans b ! 0)) = Some (ReadEnd q)" "os_lookup k1 (tp_out (b_trans b ! 1)) = Some (WriteEnd (Suc q))"
    using S(3) [of b0] assms(7) by auto
  then have kb: "os_lookup kb (tp_in (b_trans b ! 0)) = Some (ReadEnd q)" "os_lookup kb (tp_out (b_trans b ! 1)) = Some (WriteEnd (Suc q))"
    using assms(8) by (auto simp: open_fds_def)
  let ?k2 = "k1\<lparr>os_pipes := P[q := ?m]\<rparr>" and ?t2 = "t1\<lparr>tr_pose := [x, y, a]\<rparr>"
  have d1: "DoOneUpdate junk [PositionState x y a, RangeScan rs] (k1\<lparr>os_pipes := P\<rparr>) t1 = Inr (?k2, ?t2)"
    using driver_sends [of "k1\<lparr>os_pipes := P\<rparr>" t1 q rs junk x y a] dw assms(14-16,18) by (simp add: driver_wired_def)
  obtain k3 b3 where os: "on_scan (kb\<lparr>os_pipes := os_pipes ?k2\<rparr>) (b\<lparr>b_reps := sys\<rparr>) = (k3, b3)" by fastforce
  have "os_lookup (kb\<lparr>os_pipes := os_pipes ?k2\<rparr>) (tp_in (b_trans (b\<lparr>b_reps := sys\<rparr>) ! 0)) = Some (ReadEnd q)"
    "q < length (os_pipes (kb\<lparr>os_pipes := os_pipes ?k2\<rparr>))" "152 \<le> length (os_pipes (kb\<lparr>os_pipes := os_pipes ?k2\<rparr>) ! q)"
    "os_lookup (kb\<lparr>os_pipes := os_pipes ?k2\<rparr>) (fd_out (vot (b_reps (b\<lparr>b_reps := sys\<rparr>)) 0 0)) = Some (WriteEnd w)"
    "w < length (os_pipes (kb\<lparr>os_pipes := os_pipes ?k2\<rparr>))" "w \<noteq> q"
    using kb(1) assms(9,11,12,14) len(1) by simp_all
  note F = on_scan_forwards [OF this os]
  have p3: "os_pipes k3 = P[q := [], w := P ! w @ ?m]" using F(1) assms(11,14) len(1) by simp
  obtain l where b3: "b3 = b\<lparr>b_reps := sys, b_waiting := True, b_last := l\<rparr>" using F(3) by auto
  obtain k4 b4 where orr: "on_response k3 b3 = (k4, b4)" by fastforce
  have "os_lookup k3 (fd_in (vot (b_reps b3) 0 1)) = Some (ReadEnd r)" "r < length (os_pipes k3)" "16 \<le> length (os_pipes k3 ! r)"
    "os_lookup k3 (tp_out (b_trans b3 ! 1)) = Some (WriteEnd (Suc q))" "Suc q < length (os_pipes k3)" "Suc q \<noteq> r"
    using F(2) kb(2) assms(10,11,13,14,17) len(2) b3 p3 by (simp_all add: nth_list_update)
  note G = on_response_forwards [OF this orr]
  have p4: "os_pipes k4 ! Suc q = ?v" "length (os_pipes k4) = length P"
    using G(1) p3 assms(11-17) len(2) by (simp_all add: nth_list_update)
  have d2: "\<exists>k5. DoOneUpdate junk [] (?k2\<lparr>os_pipes := os_pipes k4\<rparr>) ?t2 = Inr (k5, ?t2\<lparr>tr_sent := tr_sent t1 @ [(v0, v1)]\<rparr>)"
    using driver_obeys [of "?k2\<lparr>os_pipes := os_pipes k4\<rparr>" ?t2 q v0 v1 junk] dw p4 assms(14,19) M(1)
    by (simp add: driver_wired_def)
  have "os_pipes k3 ! w = P ! w @ ?m" "\<not> b_waiting b4" using p3 assms(12) G(3) by auto
  then show ?thesis using b(1,2) d1 os orr d2 M(2) by fastforce
qed

lemma MainSetup_succeeds:
  assumes "te_maps E = None"
  shows "\<exists>k1 t1. MainSetup vj tj E pid (True, True) hr (True, True) k t = Inr (k1, t1, 0)"
proof -
  obtain kt x where i: "InitTAS (te_affinity E) (te_mlock E) (te_maps E) pid k 0 51 = Some (kt, x)"
    using assms by (cases "sched_set_policy k pid 51") (simp add: InitTAS_def forceMaps_def)
  obtain k2 reps where "start_bench vj tj kt (tr_reps t) = (k2, reps)" by fastforce
  then show ?thesis by (cases hr) (simp_all add: MainSetup_def i SetupOdom_def SetupRanger_def Let_def)
qed

text \<open>A driver with standard descriptors only, and a benchmarker with its own pipe behind the inherited ones.\<close>

abbreviation demo_end :: "fd \<Rightarrow> fd \<Rightarrow> vote_pipe" where
  "demo_end i ou \<equiv> \<lparr>rep_info = [], fd_in = i, fd_out = ou, timed = False, buff_count = 0, buff_index = 0, buffer = replicate 4096 0\<rparr>"

abbreviation demo_rep :: "fd \<Rightarrow> fd \<Rightarrow> replica" where
  "demo_rep i ou \<equiv> \<lparr>r_pid = 0, r_priority = 0, r_name = None, r_pipe_count = 0,
     r_vot_pipes = demo_end 0 ou # replicate 9 (demo_end i 0), r_in_copy = replicate 10 0, r_rep_pipes = replicate 10 (demo_end 0 0)\<rparr>"

abbreviation demo_driver :: translator where
  "demo_driver \<equiv> \<lparr>tr_pose = [0, 0, 0], tr_goal = [0, 0, 0], tr_odom = False, tr_ranger = False, tr_subscribed = [],
     tr_reps = [demo_rep 0 0], tr_sent = []\<rparr>"

abbreviation demo_host :: os where
  "demo_host \<equiv> (demo_os [])\<lparr>os_fd_table := replicate 3 (Some SocketEnd), os_pipes := [], os_forks := [77]\<rparr>"

abbreviation demo_bench :: bench where
  "demo_bench \<equiv> \<lparr>b_priority = 0, b_trans = [], b_reps = [], b_waiting = False, b_last = 0, b_times = []\<rparr>"

theorem robot_loop_closed_witness:
  "\<exists>k1 t1 k2 t2 ps k5 t5. MainSetup [demo_end 0 0, demo_end 0 0] [blank_pipe, blank_pipe] \<lparr>te_affinity = \<lambda>p s. True, te_mlock = True, te_maps = None\<rparr>
      9 (True, True) True (True, True) demo_host demo_driver = Inr (k1, t1, 0) \<and>
    DoOneUpdate (replicate 16 0) [PositionState 1 2 3, RangeScan (replicate 16 4)]
      (k1\<lparr>os_pipes := [[], [], [], mov_cmd_bytes \<lparr>vel_cmd = [5, 6]\<rparr>]\<rparr>) t1 = Inr (k2, t2) \<and>
    DoOneUpdate (replicate 16 0) [] (k2\<lparr>os_pipes := ps\<rparr>) t2 = Inr (k5, t5) \<and> tr_sent t5 = [(5, 6)]"
proof -
  let ?vj = "[demo_end 0 0, demo_end 0 0]" and ?tj = "[blank_pipe, blank_pipe]"
  let ?E = "\<lparr>te_affinity = \<lambda>p s. True, te_mlock = True, te_maps = None\<rparr>"
  let ?P = "[[], [], [], mov_cmd_bytes \<lparr>vel_cmd = [5, 6]\<rparr>]"
  obtain k1 t1 where m: "MainSetup ?vj ?tj ?E 9 (True, True) True (True, True) demo_host demo_driver = Inr (k1, t1, 0)"
    using MainSetup_succeeds [of ?E] by fastforce
  have "card (open_fds demo_host) \<le> 3" using card_open_fds_table [of demo_host] by simp
  then have rd: "driver_ready demo_host (tr_reps demo_driver)"
    by (auto simp: driver_ready_def rep_shape_def wf_vp_def nth_Cons' open_fds_def os_lookup_def demo_os_def)
  let ?n = "length (os_fd_table k1)"
  let ?kb = "k1\<lparr>os_fd_table := os_fd_table k1 @ [Some (WriteEnd 2), Some (ReadEnd 3)]\<rparr>"
  let ?sys = "[demo_rep (int ?n + 1) (int ?n)]"
  have kb: "\<forall>f \<in> open_fds k1. os_lookup ?kb f = os_lookup k1 f"
    by (auto simp: open_fds_def os_lookup_def nth_append split: if_splits)
  have l: "os_lookup ?kb (fd_out (vot ?sys 0 0)) = Some (WriteEnd 2)" "os_lookup ?kb (fd_in (vot ?sys 0 1)) = Some (ReadEnd 3)"
    by (simp_all add: os_lookup_def nth_append nat_add_distrib)
  from robot_loop_closed [OF m rd _ _ _ _ refl kb l, of 77 "[]" ?P 5 6 "replicate 16 4" "replicate 16 0" demo_bench 1 2 3]
  obtain k2 t2 k5 t5 and k4 :: os where "DoOneUpdate (replicate 16 0) [PositionState 1 2 3, RangeScan (replicate 16 4)] (k1\<lparr>os_pipes := ?P\<rparr>) t1 = Inr (k2, t2)"
    "DoOneUpdate (replicate 16 0) [] (k2\<lparr>os_pipes := os_pipes k4\<rparr>) t2 = Inr (k5, t5)" "tr_sent t5 = [(5, 6)]"
    by auto
  then show ?thesis using m by blast
qed

end
