(* ===== verification/Heartbeat.thy ===== *)
theory Heartbeat imports Controller begin

text \<open>
  The heartbeat between two machines (\<open>controllers/client.c\<close>, \<open>controllers/server.c\<close>): once a second the
  client asks the server over the urgent channel of a TCP connection whether it is alive, and starts a
  robot program of its own if the previous question was not answered. The urgent bytes that are under
  way are the record \<open>link\<close>; what arrives raises the signal \<open>SIGURG\<close>. On the ordinary channel the server
  sends back what it receives, and the client ends when the connection is closed there.
\<close>

section \<open>State\<close>

datatype hb_signal = SIGURG | SIGALRM | SIGCHLD

record hb_client =
  got_reply :: int
  alarm_set :: bool
  takeovers :: nat
  running :: bool
  receiving :: bool

record hb_server =
  hs_alive :: bool
  hs_zombies :: nat

record link =
  to_server :: string
  to_client :: string
  closed :: bool

text \<open>
  One urgent byte is read. When there is none the variable keeps what it held before, which is not
  initialised: \<open>junk\<close>.
\<close>

definition recv_oob :: "char \<Rightarrow> string \<Rightarrow> char \<times> string" where
  "recv_oob junk bs = (case bs of [] \<Rightarrow> (junk, []) | b # rest \<Rightarrow> (b, rest))"

section \<open>The client\<close>

definition client_sig_handler :: "char \<Rightarrow> hb_signal \<Rightarrow> hb_client \<times> link \<Rightarrow> hb_client \<times> link" where
  "client_sig_handler junk sig = (\<lambda>(c, l).
     case sig of
       SIGURG \<Rightarrow> (let (b, rest) = recv_oob junk (to_client l) in
         (c\<lparr>got_reply := (if b = CHR ''Y'' then 1 else 0)\<rparr>, l\<lparr>to_client := rest\<rparr>))
     | SIGALRM \<Rightarrow>
         (if got_reply c \<noteq> 0
          then (c\<lparr>alarm_set := True, got_reply := 0\<rparr>, l\<lparr>to_server := to_server l @ ''?''\<rparr>)
          else (c\<lparr>takeovers := takeovers c + 1\<rparr>, l))
     | _ \<Rightarrow> (c, l))"

text \<open>
  \<open>main\<close> of the client: the state when the connection stands, \<open>Inl Exited\<close> for a wrong number of
  arguments. Every line of input is sent and one reply awaited, until the server closes; \<open>receiving\<close> is
  the state between the two, and with \<open>running\<close> reset the program has ended.
\<close>

definition client_main :: "string list \<Rightarrow> bool \<Rightarrow> hb_client outcome" where
  "client_main argv connects =
     (if length argv \<noteq> 3 then Inl Exited
      else Inr \<lparr>got_reply = 1, alarm_set = connects, takeovers = 0, running = connects, receiving = False\<rparr>)"

text \<open>The loop in \<open>main\<close>: a line is sent; the result \<open>bytes\<close> of \<open>recv\<close> then decides.\<close>

definition client_send :: "hb_client \<Rightarrow> hb_client" where
  "client_send c = c\<lparr>receiving := True\<rparr>"

definition client_recv :: "int \<Rightarrow> hb_client \<Rightarrow> hb_client" where
  "client_recv bytes c = (if bytes > 0 then c\<lparr>receiving := False\<rparr> else c\<lparr>receiving := False, running := False\<rparr>)"

text \<open>The lines that the loop sends, given the replies it receives; an empty one is the end.\<close>

fun client_talk :: "string list \<Rightarrow> string list \<Rightarrow> string list" where
  "client_talk (line # lines) (reply # replies) = line # (if reply \<noteq> [] then client_talk lines replies else [])"
| "client_talk (line # lines) [] = [line]"
| "client_talk [] replies = []"

section \<open>The server\<close>

definition server_sig_handler :: "char \<Rightarrow> hb_signal \<Rightarrow> hb_server \<times> link \<Rightarrow> hb_server \<times> link" where
  "server_sig_handler junk sig = (\<lambda>(s, l).
     case sig of
       SIGURG \<Rightarrow> (let (b, rest) = recv_oob junk (to_server l) in
         (s, if b = CHR ''?'' then l\<lparr>to_server := rest, to_client := to_client l @ ''Y''\<rparr> else l\<lparr>to_server := rest\<rparr>))
     | SIGCHLD \<Rightarrow> (s\<lparr>hs_zombies := hs_zombies s - 1\<rparr>, l)
     | _ \<Rightarrow> (s, l))"

text \<open>\<open>servlet\<close>: what it sends for the pieces that \<open>recv\<close> returns, at most a buffer at a time.\<close>

fun servlet :: "string list \<Rightarrow> string list" where
  "servlet [] = []"
| "servlet (piece # pieces) = (if piece \<noteq> [] then piece # servlet pieces else [])"

text \<open>
  \<open>main\<close> of the server. The port is one of 16 bits; with a wrong number of arguments a character constant is
  stored as the pointer to the port's text, which \<open>atoi\<close> then reads. Each accepted connection is served by a
  child, and the parent closes its copy.
\<close>

definition server_port :: "string list \<Rightarrow> int outcome" where
  "server_port argv = (if length argv \<noteq> 2 then Inl Undefined else Inr (atoi (argv ! 1) mod 65536))"

datatype accept_action = RunServlet | CloseClient | ReportError

definition server_accept :: "fd \<Rightarrow> fork_side \<Rightarrow> accept_action" where
  "server_accept client side =
     (if client > 0 then (case side of InChild _ \<Rightarrow> RunServlet | _ \<Rightarrow> CloseClient) else ReportError)"

section \<open>The two together\<close>

type_synonym hb = "hb_client \<times> hb_server \<times> link"

text \<open>
  What can happen: the alarm goes off or a signal announces an urgent byte at either side; the client
  sends a line and receives the reply; the server's process ends, which closes the connection, or its
  machine fails, which the connection does not show. A \<open>recv\<close> on a closed connection returns 0, or -1
  when the connection was reset. A dead server answers nothing any more.
\<close>

datatype hb_label = Alarm | Question | Answer | Line | Reply | Hangup | Process_End | Machine_Crash

inductive hb_event :: "hb_label \<Rightarrow> hb \<Rightarrow> hb \<Rightarrow> bool" where
  alarm: "running c \<Longrightarrow> alarm_set c \<Longrightarrow> client_sig_handler j SIGALRM (c\<lparr>alarm_set := False\<rparr>, l) = (c', l') \<Longrightarrow>
    hb_event Alarm (c, s, l) (c', s, l')"
| question: "hs_alive s \<Longrightarrow> to_server l \<noteq> [] \<Longrightarrow> server_sig_handler j SIGURG (s, l) = (s', l') \<Longrightarrow>
    hb_event Question (c, s, l) (c, s', l')"
| answer: "running c \<Longrightarrow> to_client l \<noteq> [] \<Longrightarrow> client_sig_handler j SIGURG (c, l) = (c', l') \<Longrightarrow>
    hb_event Answer (c, s, l) (c', s, l')"
| line: "running c \<Longrightarrow> \<not> receiving c \<Longrightarrow> hb_event Line (c, s, l) (client_send c, s, l)"
| reply: "running c \<Longrightarrow> receiving c \<Longrightarrow> hs_alive s \<Longrightarrow> 0 < bytes \<Longrightarrow> hb_event Reply (c, s, l) (client_recv bytes c, s, l)"
| hangup: "running c \<Longrightarrow> receiving c \<Longrightarrow> closed l \<Longrightarrow> bytes \<in> {0, - 1} \<Longrightarrow> hb_event Hangup (c, s, l) (client_recv bytes c, s, l)"
| process_end: "hb_event Process_End (c, s, l) (c, s\<lparr>hs_alive := False\<rparr>, l\<lparr>closed := True\<rparr>)"
| machine_crash: "hb_event Machine_Crash (c, s, l) (c, s\<lparr>hs_alive := False\<rparr>, l)"

definition hb_step :: "hb \<Rightarrow> hb \<Rightarrow> bool" where
  "hb_step x y \<longleftrightarrow> (\<exists>e. hb_event e x y)"

inductive hb_reaches :: "hb \<Rightarrow> bool" where
  start: "client_main argv True = Inr c \<Longrightarrow>
    hb_reaches (c, \<lparr>hs_alive = True, hs_zombies = z\<rparr>, \<lparr>to_server = [], to_client = [], closed = False\<rparr>)"
| step: "hb_reaches s \<Longrightarrow> hb_step s s' \<Longrightarrow> hb_reaches s'"

inductive hb_run :: "hb_label list \<Rightarrow> hb \<Rightarrow> hb \<Rightarrow> bool" where
  none: "hb_run [] x x"
| event: "hb_event e x y \<Longrightarrow> hb_run es y z \<Longrightarrow> hb_run (e # es) x z"

inductive_cases hb_eventE: "hb_event e (c, s, l) s'"

lemmas handler_defs = client_sig_handler_def server_sig_handler_def recv_oob_def Let_def client_send_def client_recv_def

text \<open>
  The invariant: at most one urgent byte is under way, and only while the client waits for an answer;
  the alarm stays set until the server has been given up, which happens at most once; a living server's
  connection is open, and the client ends only when it was closed.
\<close>

definition hb_ok :: "hb \<Rightarrow> bool" where
  "hb_ok = (\<lambda>(c, s, l). got_reply c \<in> {0, 1} \<and> takeovers c \<le> 1 \<and> (alarm_set c \<longleftrightarrow> takeovers c = 0) \<and>
     (to_server l, to_client l) \<in> (if got_reply c = 1 then {([], [])} else {([], []), (''?'', []), ([], ''Y'')}) \<and>
     (hs_alive s \<and> got_reply c = 0 \<longrightarrow> (to_server l, to_client l) \<noteq> ([], [])) \<and>
     (closed l \<longrightarrow> \<not> hs_alive s) \<and> (\<not> running c \<longrightarrow> closed l))"

lemma hb_event_ok: "hb_event e x y \<Longrightarrow> hb_ok x \<Longrightarrow> hb_ok y"
  by (induction rule: hb_event.induct) (auto simp: hb_ok_def handler_defs split: if_splits)

lemma hb_reaches_ok: "hb_reaches x \<Longrightarrow> hb_ok x"
proof (induction rule: hb_reaches.induct)
  case (start argv c z)
  then show ?case by (auto simp: client_main_def hb_ok_def split: if_splits)
next
  case (step s s')
  then obtain e where "hb_event e s s'" by (auto simp: hb_step_def)
  then show ?case using hb_event_ok step.IH by blast
qed

text \<open>
  (C39) No server is given up for nothing. When a step of the system makes the client take over, it has
  not done so before, and at that moment the server is dead or its answer to the last question is still
  under way: a living server whose answer arrived before the alarm is never replaced.
\<close>

theorem takeover_only_on_silence:
  assumes "hb_reaches (c, s, l)" "hb_step (c, s, l) (c', s', l')" "takeovers c' \<noteq> takeovers c"
  shows "takeovers c = 0 \<and> takeovers c' = 1 \<and> got_reply c = 0 \<and>
    (\<not> hs_alive s \<or> to_server l = ''?'' \<or> to_client l = ''Y'')"
proof -
  obtain e where "hb_event e (c, s, l) (c', s', l')" using assms(2) by (auto simp: hb_step_def)
  then show ?thesis
    using assms(3) hb_reaches_ok [OF assms(1)]
    by (elim hb_eventE) (auto simp: hb_ok_def handler_defs split: if_splits)
qed

section \<open>A dead server\<close>

text \<open>
  How many alarms a client whose server is dead still needs: one while it waits in vain for an answer,
  two otherwise, and none once it has taken over. No event adds to them and each alarm takes one away.
\<close>

definition alarms_left :: "hb \<Rightarrow> nat" where
  "alarms_left = (\<lambda>(c, s, l). if takeovers c = 1 then 0 else if to_client l = [] \<and> got_reply c = 0 then 1 else 2)"

lemma alarm_progress:
  assumes "hb_event e x y" "hb_ok x" "\<not> hs_alive (fst (snd x))"
  shows "\<not> hs_alive (fst (snd y)) \<and> alarms_left y \<le> alarms_left x \<and> (e = Alarm \<longrightarrow> alarms_left y < alarms_left x)"
  using assms by cases (auto simp: hb_ok_def handler_defs alarms_left_def split: if_splits)

lemma hb_run_ok: "hb_run es x y \<Longrightarrow> hb_ok x \<Longrightarrow> hb_ok y"
  by (induction rule: hb_run.induct) (auto dest: hb_event_ok)

lemma alarms_run:
  "hb_run es x y \<Longrightarrow> hb_ok x \<Longrightarrow> \<not> hs_alive (fst (snd x)) \<Longrightarrow> alarms_left y + count_list es Alarm \<le> alarms_left x"
proof (induction rule: hb_run.induct)
  case (event e x y es z)
  then have "alarms_left z + count_list es Alarm \<le> alarms_left y" using hb_event_ok alarm_progress by blast
  then show ?case using alarm_progress [OF event(1,4,5)] by auto
qed simp

text \<open>The client ends only on a closed connection, and only the end of the server's process closes it.\<close>

lemma running_run:
  "hb_run es x y \<Longrightarrow> hb_ok x \<Longrightarrow> \<not> closed (snd (snd x)) \<Longrightarrow> Process_End \<notin> set es \<Longrightarrow> running (fst y)"
proof (induction rule: hb_run.induct)
  case (none x)
  then show ?case by (auto simp: hb_ok_def)
next
  case (event e x y es z)
  have "\<not> closed (snd (snd y))" using event(1,5,6) by cases (auto simp: handler_defs split: if_splits list.splits)
  then show ?case using event hb_event_ok by auto
qed

lemma alarm_enabled:
  assumes "running c" "alarm_set c"
  shows "\<exists>y. hb_event Alarm (c, s, l) y"
proof -
  obtain c' l' where "client_sig_handler undefined SIGALRM (c\<lparr>alarm_set := False\<rparr>, l) = (c', l')" by fastforce
  from hb_event.alarm [OF assms this] show ?thesis by blast
qed

text \<open>
  (C40) The end of the server is noticed. Once the server is dead, whatever was under way and whatever
  happens after it, in every continuation the second alarm at the latest makes the client take over, and
  until then the next alarm can always go off unless the client has ended. The client ends only after
  the server's process closed the connection: when the machine failed it runs on in every continuation.
\<close>

theorem heartbeat_detects_crash:
  assumes "hb_reaches (c, s, l)" "\<not> hs_alive s" "hb_run es (c, s, l) (c', s', l')"
  shows "(2 \<le> count_list es Alarm \<longrightarrow> takeovers c' = 1) \<and>
    (takeovers c' = 0 \<and> running c' \<longrightarrow> (\<exists>y. hb_event Alarm (c', s', l') y)) \<and>
    (\<not> closed l \<and> Process_End \<notin> set es \<longrightarrow> running c')"
proof -
  note ok = hb_reaches_ok [OF assms(1)]
  have ok': "hb_ok (c', s', l')" using hb_run_ok [OF assms(3) ok] .
  have "alarms_left (c, s, l) \<le> 2" by (simp add: alarms_left_def)
  then have "2 \<le> count_list es Alarm \<longrightarrow> alarms_left (c', s', l') = 0"
    using alarms_run [OF assms(3) ok] assms(2) by simp
  then have "2 \<le> count_list es Alarm \<longrightarrow> takeovers c' = 1" by (auto simp: alarms_left_def split: if_splits)
  moreover have "takeovers c' = 0 \<and> running c' \<longrightarrow> (\<exists>y. hb_event Alarm (c', s', l') y)"
    using alarm_enabled ok' by (simp add: hb_ok_def)
  moreover have "\<not> closed l \<and> Process_End \<notin> set es \<longrightarrow> running c'" using running_run [OF assms(3) ok] by auto
  ultimately show ?thesis by blast
qed

section \<open>Runs\<close>

text \<open>The steps of the client while it runs, with the states that follow.\<close>

lemma alarm_asks:
  "running c \<Longrightarrow> alarm_set c \<Longrightarrow> got_reply c \<noteq> 0 \<Longrightarrow>
    hb_event Alarm (c, s, l) (c\<lparr>alarm_set := True, got_reply := 0\<rparr>, s, l\<lparr>to_server := to_server l @ ''?''\<rparr>)"
  by (rule hb_event.alarm [where j = undefined]) (simp_all add: handler_defs)

lemma alarm_takes_over:
  "running c \<Longrightarrow> alarm_set c \<Longrightarrow> got_reply c = 0 \<Longrightarrow>
    hb_event Alarm (c, s, l) (c\<lparr>alarm_set := False, takeovers := takeovers c + 1\<rparr>, s, l)"
  by (rule hb_event.alarm [where j = undefined]) (simp_all add: handler_defs)

text \<open>The exchange can go on: with a living server that has answered, question and answer lead back.\<close>

lemma heartbeat_cycle:
  assumes "hb_reaches (c, s, l)" "takeovers c = 0" "hs_alive s" "got_reply c = 1"
  shows "hb_run [Alarm, Question, Answer] (c, s, l) (c, s, l)"
proof -
  have ok: "hb_ok (c, s, l)" using hb_reaches_ok [OF assms(1)] .
  then have c: "running c" "alarm_set c" and l: "to_server l = []" "to_client l = []" using assms by (auto simp: hb_ok_def)
  let ?c = "c\<lparr>alarm_set := True, got_reply := 0\<rparr>" and ?l = "l\<lparr>to_server := ''?''\<rparr>" and ?m = "l\<lparr>to_client := ''Y''\<rparr>"
  have same: "?c\<lparr>got_reply := 1\<rparr> = c" using c(2) assms(4) by simp
  have "hb_event Alarm (c, s, l) (?c, s, ?l)" using alarm_asks [OF c, of s l] l assms(4) by simp
  moreover have "hb_event Question (?c, s, ?l) (?c, s, ?m)"
    using assms(3) l by (intro hb_event.question [where j = undefined]) (simp_all add: handler_defs)
  moreover have "hb_event Answer (?c, s, ?m) (c, s, l)"
    using l c same by (intro hb_event.answer [where j = undefined]) (simp_all add: handler_defs)
  ultimately show ?thesis by (blast intro: hb_run.intros)
qed

text \<open>The start, and the states in which the first question is under way, before and after a crash.\<close>

abbreviation demo_client :: "int \<Rightarrow> hb_client" where
  "demo_client r \<equiv> \<lparr>got_reply = r, alarm_set = True, takeovers = 0, running = True, receiving = False\<rparr>"

abbreviation demo_link :: "string \<Rightarrow> link" where
  "demo_link q \<equiv> \<lparr>to_server = q, to_client = [], closed = False\<rparr>"

abbreviation demo_server :: "bool \<Rightarrow> hb_server" where
  "demo_server b \<equiv> \<lparr>hs_alive = b, hs_zombies = 0\<rparr>"

abbreviation demo_beat :: hb where
  "demo_beat \<equiv> (demo_client 1, demo_server True, demo_link [])"

abbreviation demo_asked :: hb where
  "demo_asked \<equiv> (demo_client 0, demo_server True, demo_link ''?'')"

lemma demo_beat_reached: "hb_reaches demo_beat" "hb_reaches demo_asked"
  "hb_reaches (demo_client 1, demo_server False, demo_link [])"
proof -
  show b: "hb_reaches demo_beat"
    by (rule hb_reaches.start [where argv = "[''client'', ''10.0.0.1'', ''1234'']"]) (simp add: client_main_def)
  have "hb_event Alarm demo_beat demo_asked" using alarm_asks [of "demo_client 1" "demo_server True" "demo_link []"] by simp
  then show "hb_reaches demo_asked" using hb_reaches.step [OF b] by (auto simp: hb_step_def)
  show "hb_reaches (demo_client 1, demo_server False, demo_link [])"
    using hb_event.machine_crash [of "demo_client 1" "demo_server True" "demo_link []"] hb_reaches.step [OF b]
    by (auto simp: hb_step_def)
qed

theorem takeover_only_on_silence_witness:
  "\<exists>c'. hb_step demo_asked (c', demo_server True, demo_link ''?'') \<and> takeovers c' = 1"
proof -
  let ?c = "(demo_client 0)\<lparr>alarm_set := False, takeovers := 1\<rparr>"
  have s: "hb_step demo_asked (?c, demo_server True, demo_link ''?'')"
    using alarm_takes_over [of "demo_client 0" "demo_server True" "demo_link ''?''"] by (auto simp: hb_step_def)
  from takeover_only_on_silence [OF demo_beat_reached(2) s] s show ?thesis by auto
qed

theorem heartbeat_detects_crash_witness:
  "\<exists>c' l'. hb_run [Alarm, Line, Alarm] (demo_client 1, demo_server False, demo_link []) (c', demo_server False, l') \<and>
    takeovers c' = 1 \<and> running c'"
proof -
  let ?l = "demo_link ''?''" and ?d = "demo_server False" and ?w = "(demo_client 0)\<lparr>receiving := True\<rparr>"
  have "hb_event Alarm (demo_client 1, ?d, demo_link []) (demo_client 0, ?d, ?l)"
    using alarm_asks [of "demo_client 1" ?d "demo_link []"] by simp
  moreover have "hb_event Line (demo_client 0, ?d, ?l) (?w, ?d, ?l)"
    using hb_event.line [of "demo_client 0" ?d ?l] by (simp add: client_send_def)
  moreover have "hb_event Alarm (?w, ?d, ?l) (?w\<lparr>alarm_set := False, takeovers := 1\<rparr>, ?d, ?l)"
    using alarm_takes_over [of ?w ?d ?l] by simp
  ultimately have r: "hb_run [Alarm, Line, Alarm] (demo_client 1, ?d, demo_link []) (?w\<lparr>alarm_set := False, takeovers := 1\<rparr>, ?d, ?l)"
    by (blast intro: hb_run.intros)
  from heartbeat_detects_crash [OF demo_beat_reached(3) _ r] r show ?thesis by fastforce
qed

text \<open>
  When the server's process ends while the client waits for a reply, the client leaves its loop and ends:
  the server is dead, nobody has taken over, and no alarm will come.
\<close>

lemma client_leaves_dead_server:
  "\<exists>c s l. hb_reaches (c, s, l) \<and> \<not> hs_alive s \<and> takeovers c = 0 \<and> \<not> running c"
proof -
  let ?c = "client_send (demo_client 1)" and ?l = "(demo_link [])\<lparr>closed := True\<rparr>"
  have "hb_step demo_beat (?c, demo_server True, demo_link [])"
    using hb_event.line [of "demo_client 1" "demo_server True" "demo_link []"] by (auto simp: hb_step_def)
  moreover have "hb_step (?c, demo_server True, demo_link []) (?c, demo_server False, ?l)"
    using hb_event.process_end [of ?c "demo_server True" "demo_link []"] by (auto simp: hb_step_def)
  moreover have "hb_step (?c, demo_server False, ?l) (client_recv 0 ?c, demo_server False, ?l)"
    using hb_event.hangup [of ?c ?l 0 "demo_server False"] by (auto simp: hb_step_def client_send_def)
  ultimately have "hb_reaches (client_recv 0 ?c, demo_server False, ?l)" using demo_beat_reached(1) by (blast intro: hb_reaches.step)
  then show ?thesis by (intro exI conjI) (assumption, simp_all add: handler_defs)
qed

text \<open>After a take-over the client asks no more: the alarm is off for good, whatever arrives.\<close>

lemma no_alarm_after_takeover: "hb_reaches (c, s, l) \<Longrightarrow> takeovers c = 1 \<Longrightarrow> \<not> alarm_set c"
  using hb_reaches_ok [of "(c, s, l)"] by (simp add: hb_ok_def)

text \<open>The ordinary channel: the server sends back everything up to the end of the connection.\<close>

lemma servlet_echoes: "concat (servlet ps) = concat (takeWhile (\<lambda>p. p \<noteq> []) ps)"
  by (induction ps) auto

end
