(* ===== verification/Fault_Injection.thy ===== *)
theory Fault_Injection imports Controller begin

unbundle bit_operations_syntax

text \<open>
  The fault injector (\<open>fault_injection/register_util.c\<close>): it stops a process, flips one bit of its saved
  registers and lets it go on. The registers of the x86-64 are the 27 words of \<open>struct user_regs_struct\<close>
  in their order; what \<open>rand\<close> returns is a script.
\<close>

section \<open>The tool\<close>

type_synonym register_file = "64 word list"

text \<open>What the tool does with the traced process, in order.\<close>

datatype trace_call = Attach int | Wait int | GetRegs int | SetRegs int register_file | Cont int

text \<open>The choice of register and bit from the next two random numbers.\<close>

definition pick_reg :: "nat \<Rightarrow> nat" where
  "pick_reg rand1 = rand1 mod (27 - 4)"

definition pick_bit :: "nat \<Rightarrow> nat \<Rightarrow> nat" where
  "pick_bit reg_pick rand2 =
     (if reg_pick = 17 \<or> reg_pick = 20 then rand2 mod (64 - 2) + 2
      else if reg_pick = 21 \<or> reg_pick = 22 then rand2 mod 47
      else rand2 mod 64)"

definition flip :: "register_file \<Rightarrow> nat \<Rightarrow> nat \<Rightarrow> register_file" where
  "flip regs reg_pick bit_pick = regs[reg_pick := (regs ! reg_pick) XOR push_bit bit_pick 1]"

text \<open>\<open>regs\<close> is what \<open>PTRACE_GETREGS\<close> delivers, if it succeeds.\<close>

definition injectRegError :: "int \<Rightarrow> register_file option \<Rightarrow> nat \<Rightarrow> nat \<Rightarrow> trace_call list \<times> int" where
  "injectRegError pid regs rand1 rand2 =
     (case regs of
        None \<Rightarrow> ([GetRegs pid], - 1)
      | Some rs \<Rightarrow>
          (let reg_pick = pick_reg rand1; bit_pick = pick_bit reg_pick rand2 in
           ([GetRegs pid, SetRegs pid (flip rs reg_pick bit_pick)], 0)))"

definition inject_main :: "string list \<Rightarrow> bool \<Rightarrow> register_file option \<Rightarrow> nat \<Rightarrow> nat \<Rightarrow> trace_call list" where
  "inject_main argv attaches regs rand1 rand2 =
     (if length argv < 2 then []
      else
        (let pid = atoi (argv ! 1) in
         if \<not> attaches then [Attach pid]
         else [Attach pid, Wait pid] @ fst (injectRegError pid regs rand1 rand2) @ [Cont pid]))"

section \<open>One bit\<close>

lemma pick_reg_bound: "pick_reg r < 23"
  by (simp add: pick_reg_def)

lemma pick_bit_bounds:
  "pick_bit g r < 64" "g = 17 \<or> g = 20 \<Longrightarrow> 2 \<le> pick_bit g r" "g = 21 \<or> g = 22 \<Longrightarrow> pick_bit g r < 47"
  by (auto simp: pick_bit_def intro: order_less_le_trans [OF mod_less_divisor])

lemma bit_flip:
  assumes "g < length regs" "b < 64" "n < 64" "i < length regs"
  shows "bit (flip regs g b ! i) n = (bit (regs ! i) n \<noteq> (i = g \<and> n = b))"
  using assms by (cases "i = g") (auto simp: flip_def bit_xor_iff bit_exp_iff)

text \<open>
  A single bit. Whatever \<open>rand\<close> returns, the registers written back differ from those read in
  exactly one bit; it lies in one of the first 23 registers, is not among the two lowest bits of the
  segment registers \<open>cs\<close> and \<open>ss\<close>, and is below bit 47 in \<open>fs_base\<close> and \<open>gs_base\<close>. The process is
  stopped before and continued after.
\<close>

theorem injector_flips_one_bit:
  assumes "length regs = 27" "2 \<le> length argv"
  shows "\<exists>regs' g b. inject_main argv True (Some regs) rand1 rand2 =
      [Attach (atoi (argv ! 1)), Wait (atoi (argv ! 1)), GetRegs (atoi (argv ! 1)), SetRegs (atoi (argv ! 1)) regs', Cont (atoi (argv ! 1))] \<and>
    length regs' = 27 \<and> g < 23 \<and> b < 64 \<and> (g \<in> {17, 20} \<longrightarrow> 2 \<le> b) \<and> (g \<in> {21, 22} \<longrightarrow> b < 47) \<and>
    (\<forall>i < 27. \<forall>n < 64. bit (regs' ! i) n \<noteq> bit (regs ! i) n \<longleftrightarrow> i = g \<and> n = b)"
proof -
  let ?g = "pick_reg rand1"
  let ?b = "pick_bit ?g rand2"
  have g: "?g < 23" "?b < 64" using pick_reg_bound pick_bit_bounds(1) .
  then have "\<forall>i < 27. \<forall>n < 64. bit (flip regs ?g ?b ! i) n \<noteq> bit (regs ! i) n \<longleftrightarrow> i = ?g \<and> n = ?b"
    using bit_flip [of ?g regs ?b] assms(1) by auto
  moreover have "length (flip regs ?g ?b) = 27" using assms(1) by (simp add: flip_def)
  moreover have "?g \<in> {17, 20} \<longrightarrow> 2 \<le> ?b" "?g \<in> {21, 22} \<longrightarrow> ?b < 47"
    using pick_bit_bounds(2,3) [of ?g rand2] by auto
  moreover have "inject_main argv True (Some regs) rand1 rand2 =
      [Attach (atoi (argv ! 1)), Wait (atoi (argv ! 1)), GetRegs (atoi (argv ! 1)), SetRegs (atoi (argv ! 1)) (flip regs ?g ?b), Cont (atoi (argv ! 1))]"
    using assms(2) by (simp add: inject_main_def injectRegError_def Let_def)
  ultimately show ?thesis using g by blast
qed

text \<open>The stack pointer, register 19, bit 3.\<close>

theorem injector_flips_one_bit_witness:
  "\<exists>regs'. inject_main [''inject_error'', ''77''] True (Some (replicate 27 0)) 42 67 =
    [Attach 77, Wait 77, GetRegs 77, SetRegs 77 regs', Cont 77] \<and> length regs' = 27"
proof -
  have "atoi ''77'' = 77" by code_simp
  then show ?thesis
    using injector_flips_one_bit [of "replicate 27 0" "[''inject_error'', ''77'']" 42 67] by fastforce
qed

end
