(* ===== verification/Spec2Isabelle.thy ===== *)
theory Spec2Isabelle
  imports Voter_Configured Voter_Blocking System_Wiring Print_Buffer Stage_Control Empty Log_Report Robot_Loop Heartbeat Fault_Injection
begin

text \<open>
  A verification library for PINT, a system of robot controllers that run as replicated processes
  connected by pipes, with a voter between the replicas of a controller and the rest of the system.

  \<^bold>\<open>The program.\<close> The plumber reads a configuration, creates one pipe for each link between components and
  starts the components, each directly or under a voter. A voter starts two or three replicas of its
  controller, copies every input to all of them, keeps what they write in ring buffers, forwards it once
  the replicas agree, and replaces a replica that disagrees or falls behind: a healthy replica forks on a
  signal and the child fetches its own pipe ends from the voter over a socket. The controllers read
  messages from their pipes and write messages: the filter distributes the sensors' scans, the mapper
  turns them into obstacles on a grid, the planner finds a path around the obstacles, the navigator
  steers along it. In front of all this the robot's driver sends the scans of the robot to the benchmarker
  and its answers to the robot; the benchmarker starts the plumber and measures the time in between. The
  logger and an artificial load run beside the controllers; a heartbeat and a fault injector are programs
  of their own.

  \<^bold>\<open>The theories and the code.\<close>
  \<^item> \<open>Prelude\<close>: C integers in memory, \<open>memcpy\<close>, \<open>asprintf\<close> and \<open>sscanf\<close> as far as they are used, \<open>atoi\<close>, counting
    loops (\<open>for_upto\<close>) with their invariant rules.
  \<^item> \<open>Posix\<close>: the kernel as a process sees it (record \<open>os\<close>): descriptor table, pipes, \<open>select\<close>, signals,
    \<open>fork\<close>, scheduling. What other processes do is a script or an argument.
  \<^item> \<open>Vote_Buff\<close>: \<open>voter/vote_buff.c\<close>, the ring buffers. The locale \<open>byte_fifo\<close> states the contract of a
    byte queue and is interpreted on the ring.
  \<^item> \<open>Comm_Types\<close>: \<open>src/commtypes.c\<close>, messages and typed pipes. The locale \<open>wire_codec\<close> states the contract of
    a message of fixed size on a pipe and is interpreted on the three such messages. \<open>Print_Buffer\<close>:
    \<open>printBuffer\<close> of the same file, with which the voter shows two messages that differ.
  \<^item> \<open>Fd_Passing\<close>: \<open>src/fd_server.c\<close> and \<open>src/fd_client.c\<close>, the hand over of descriptors.
  \<^item> \<open>Tas_Lib\<close>: \<open>tas_lib/\<close>, scheduling, time stamps and the walk over the memory map; also the record \<open>fp\<close>
    of floating-point operations.
  \<^item> \<open>Replicas\<close>: \<open>src/replicas.c\<close>, life cycle, wiring and balance of the replicas.
  \<^item> \<open>Voter\<close>: \<open>voter/voterd.c\<close>, the voter daemon. \<open>Voter_Start\<close>: what its start establishes.
    \<open>Voter_Restart\<close>: what a restart does to the input of the replicas. \<open>Voter_Blocking\<close>: which descriptors
    a replacement gets, and what the rest of the update then reads.
  \<^item> \<open>Controller\<close>: \<open>src/controller.c\<close>, what all controllers share; the type \<open>outcome\<close> of controller code. The
    relation \<open>program_reaches\<close> is the life of a controller, and the locale \<open>controller_program\<close> states what
    makes a condition on its globals hold for ever; it is interpreted on planner, mapper, navigator, filter,
    logger and both measurement controllers.
  \<^item> \<open>Grid_Map\<close>: \<open>controllers/mapping.c\<close>, grid coordinates and the sorted lists.
  \<^item> \<open>A_Star\<close>, \<open>Mapper\<close>, \<open>Art_Pot\<close>, \<open>Scan_Filter\<close>: \<open>controllers/a_star.c\<close>, \<open>mapper.c\<close>, \<open>art_pot.c\<close>, \<open>filter.c\<close>, each from
    its globals (a record that extends \<open>controller\<close>) to \<open>main\<close>. \<open>Empty\<close>: the measurement controllers
    \<open>empty.c\<close> and \<open>generic_empty.c\<close>.
  \<^item> \<open>Plumber\<close>: \<open>plumber/plumbing.c\<close>, components, links and command lines. \<open>Config_Lexer\<close>: \<open>plumber/pb.l\<close>, the
    rules with the longest match of \<open>flex\<close>. \<open>Config_Parser\<close>: \<open>plumber/pb.y\<close>, the statements with their
    actions, what happens at a syntax error, and \<open>main\<close>. \<open>Config_Graph\<close>: what a configuration means, a list
    of components with their ports, as a specification of its own. \<open>Plumber_Main\<close>: from the text to the
    started programs.
  \<^item> \<open>System_Wiring\<close> and \<open>Voter_Configured\<close>: the plumber together with the controllers and with the voters
    that it starts.
  \<^item> \<open>Translator\<close>: \<open>player_translator_driver/translator_driver.cc\<close>, the robot's driver with its constructor.
    \<open>Benchmarker\<close>: \<open>controllers/benchmarker.c\<close>. \<open>Robot_Loop\<close>: the two together. \<open>Stage_Control\<close>:
    \<open>stage_control/basic.c\<close>, the client that puts the robot at its start in the simulator and sends it off.
  \<^item> \<open>Logger\<close>, \<open>Load\<close>: \<open>controllers/logger.c\<close> and \<open>load.c\<close>. \<open>Log_Report\<close>: the two together.
  \<^item> \<open>Heartbeat\<close>: \<open>controllers/client.c\<close> and \<open>server.c\<close>, with the relation \<open>hb_step\<close> for their exchange.
    \<open>Fault_Injection\<close>: \<open>fault_injection/register_util.c\<close>.

  A C global is a field of the record of its program, a function is a function on kernel and record.
  \<open>main\<close> without its loop is \<open>main_init\<close>, and \<open>enterLoop\<close> and \<open>doOneUpdate\<close> are one round of the endless
  loop; the relations \<open>voter_reaches\<close>, \<open>a_star_reaches\<close> and \<open>mapper_reaches\<close> are the states that rounds,
  signals, restarts and the other processes can lead to. Accesses outside an array, null pointers, \<open>exit\<close>
  and uninitialised values are values of the type \<open>outcome\<close> or \<open>None\<close>.

  \<^bold>\<open>What is shown.\<close>
  \<^item> Voter: the start establishes the invariant, and all reachable states satisfy it; with three replicas
    the majority's bytes are forwarded, the minority is replaced, and nothing happens without a majority;
    input reaches every replica; a restart leaks no descriptor and keeps the waiting input; balancing
    promotes the replica that is furthest behind; and a vote that replaces a replica can make the voter wait
    on an empty pipe, because the answer of \<open>select\<close> is older than the replacement.
  \<^item> Ring buffers: every operation is a queue operation, nothing is lost or reordered unless a ring
    overflows, and what happens then; comparison decides equality.
  \<^item> Messages, texts, descriptors: what one side writes the other side reads, with the limits of the
    buffers; the voter understands the plumber's command line.
  \<^item> Configurations: the text of a list of lines is read as its statements; the actions of the parser
    implement the graph that the statements mean; every component of the graph is started with arguments
    that describe it; after a syntax error the plumber starts what came before it and reports success;
    the five programs of \<open>controllers/configs/all.cfg\<close> are connected by the nine links of the file; and each replicated
    component of any configuration is a voter that gets into its invariant and stays there.
  \<^item> Planner: the search finds a path exactly if there is one, terminates, and stays inside its arrays on
    a map with a blocked border; one map on which the list code dereferences a null pointer.
  \<^item> Mapper, navigator, filter: the messages that follow a scan, and that no round of mapper, filter and
    measurement controllers leaves an array; the theorem of this theory connects mapper and planner.
  \<^item> Memory: the walk over the printed memory map touches every page of every writable mapping and nothing else.
  \<^item> Robot, load, heartbeat, injector: a scan goes from the robot to the system under test and a command back;
    the report of the load lacks the null character that the logger needs; a server is given up only
    after silence, and after the death of one the second alarm makes the client take over in every run in
    which it has not ended; it can end early when the connection is closed; the injector flips one bit.

  \<^bold>\<open>Bounds.\<close> The search of the planner runs with fuel 6401, one expansion for each of the 80 * 80 cells and
  one round more; a closed cell is never expanded again and at most 78 * 78 cells are inside the border,
  so \<open>plan_terminates\<close> holds. All other recursion is structural or has a termination proof.

  \<^bold>\<open>Parameters.\<close> Floating-point arithmetic is the record \<open>fp\<close>; the statements on the grid assume rounding
  laws that are stated with them, and \<open>rat_fp\<close> is an instance. The answers of the system (\<open>tas_env\<close>, the
  offers of the descriptor server, the side of a \<open>fork\<close>) and the behaviour of other processes between
  two steps of the voter (\<open>env\<close>) are arguments.

  \<^bold>\<open>Not modelled.\<close> The drafts \<open>controllers/cs.c\<close> and \<open>ris.c\<close>, which do not compile (\<open>sigset_t_\<close>, \<open>SIG\<close> and
  \<open>initRIS\<close> are declared nowhere); the header of libccv, a library that the load only calls; the
  registration of the driver with the Player server; the tables that \<open>flex\<close> and \<open>bison\<close> generate; the
  test drivers; debug output. Signal masks, memory exhaustion and the capacity of a kernel pipe are outside
  the model. A call that waits for ever has no outcome of its own: a \<open>read\<close> gives no bytes then and an \<open>accept\<close>
  fails, so the statements that a start or an update completes are about runs in which no call waits for
  ever; \<open>read_waits\<close> is the condition under which a \<open>read\<close> does.
\<close>

section \<open>From the mapper to the planner\<close>

lemma mark_obstacles_map:
  assumes "\<forall>(x, y) \<in> set os. in_grid x y"
  shows "\<exists>m'. mark_obstacles os m = Inr m' \<and> (\<forall>x y. m' x y \<longleftrightarrow> m x y \<or> (x, y) \<in> set os)"
  using assms
proof (induction os m rule: mark_obstacles.induct)
  case (2 a b os m)
  let ?m = "m(a := (m a)(b := True))"
  have "obs_set m a b = Inr ?m" using 2(2) by (simp add: obs_set_def)
  moreover have "\<forall>(x, y) \<in> set os. in_grid x y" using 2(2) by simp
  from 2(1) [OF this, of ?m] obtain m' where "mark_obstacles os ?m = Inr m'" "\<forall>x y. m' x y \<longleftrightarrow> ?m x y \<or> (x, y) \<in> set os"
    by blast
  ultimately show ?case by auto
qed simp

text \<open>
  (C34) What the mapper reports, the planner knows. When a scan has been processed and the update went
  over an empty pipe, the planner receives it without leaving its arrays, and its obstacle map is then
  the old one together with exactly the cells that the mapper reported; the pose is the mapper's.
\<close>

theorem planner_learns_reported_obstacles:
  assumes "counted c" "pipe_at c (m_update_index c) = Inr po" "updateMap F k c data = Inr (k', c')"
    and "tp_out po \<noteq> 0" "tp_type po = MAP_UPDATE" "os_lookup k (tp_out po) = Some (WriteEnd q)"
    and "tp_in pin \<noteq> 0" "tp_type pin = MAP_UPDATE" "os_lookup k (tp_in pin) = Some (ReadEnd q)"
    and "q < length (os_pipes k)" "os_pipes k ! q = []" "a_star_ok F a"
    and "c_int (mu_pose_x (m_msg c'))" "c_int (mu_pose_y (m_msg c'))"
  shows "\<exists>k2 u r m. commRecvMapUpdate k' pin (as_recv a) = Some (k2, u, r) \<and> 0 < r \<and>
    mu_pose_x u = mu_pose_x (m_msg c') \<and> mu_pose_y u = mu_pose_y (m_msg c') \<and>
    mark_obstacles (zip (take (nat (mu_obs_count u)) (mu_obs_x u)) (take (nat (mu_obs_count u)) (mu_obs_y u))) (as_map a) = Inr m \<and>
    (\<forall>x y. m x y \<longleftrightarrow> as_map a x y \<or> (x, y) \<in> set (reported c'))"
proof -
  let ?msg = "m_msg c'"
  let ?n = "nat (mu_obs_count ?msg)"
  obtain r where S: "counted c'" "commSendMapUpdate k po ?msg = Some (k', r)"
    "set (reported c') = {(x, y). m_map c x y \<le> 2 \<and> m_map c' x y > 2}"
    "0 \<le> mu_obs_count ?msg" "mu_obs_count ?msg \<le> 16"
    using updateMap_scan [OF assms(1,2), of F k data] assms(3) by auto
  have len: "length (mu_obs_x ?msg) = 128" "length (mu_obs_y ?msg) = 128" "?n \<le> 16"
    using S(1,5) by (simp_all add: counted_def nat_le_iff)
  have grid: "in_grid x y" if "(x, y) \<in> set (reported c')" for x y
    using that updateMap_grid [OF assms(3), of x y] S(3) by (auto simp: in_grid_def)
  have rep: "reported c' = zip (take ?n (mu_obs_x ?msg)) (take ?n (mu_obs_y ?msg))"
    by (simp add: reported_def Let_def)
  have "in_grid (mu_obs_x ?msg ! i) (mu_obs_y ?msg ! i)" if "i < ?n" for i
    using grid that len nth_mem [of i "reported c'"] by (simp add: rep)
  then have ci: "c_int_update ?msg"
    using assms(13,14) by (force simp: wf_simps in_grid_def c_int_def)
  let ?k1 = "k\<lparr>os_pipes := (os_pipes k)[q := ints_bytes (map_update_ints ?msg)]\<rparr>"
  have arr: "obs_arrays ?msg ?n" "obs_arrays (as_recv a) ?n"
    using len assms(12) by (simp_all add: wf_simps a_star_ok_def)
  then have k': "k' = ?k1"
    using commSendMapUpdate_eq [OF assms(4,5) arr(1)] S(2,5) assms(6,10,11) by (simp add: os_write_def)
  have "os_lookup ?k1 (tp_in pin) = Some (ReadEnd q)" "q < length (os_pipes ?k1)"
    "os_pipes ?k1 ! q = ints_bytes (map_update_ints ?msg) @ []" "mu_obs_count ?msg \<le> 510"
    using assms(9,10) S(5) by simp_all
  from commRecvMapUpdate_read [OF assms(7,8) this(1-3) S(4) this(4) ci arr] k'
  obtain k2 u r2 where u: "commRecvMapUpdate k' pin (as_recv a) = Some (k2, u, r2)" "0 < r2"
    "mu_pose_x u = mu_pose_x ?msg" "mu_pose_y u = mu_pose_y ?msg" "mu_obs_count u = mu_obs_count ?msg"
    "take ?n (mu_obs_x u) = take ?n (mu_obs_x ?msg)" "take ?n (mu_obs_y u) = take ?n (mu_obs_y ?msg)" by metis
  have "zip (take (nat (mu_obs_count u)) (mu_obs_x u)) (take (nat (mu_obs_count u)) (mu_obs_y u)) = reported c'"
    by (simp add: rep u(5-7))
  then show ?thesis using u(1-4) mark_obstacles_map [of "reported c'" "as_map a"] grid by auto
qed

theorem planner_learns_reported_obstacles_witness:
  "\<exists>k c k' c' ka a k2 u r m. demo_mapper = Inr (k, c, 0) \<and> demo_start = Inr (ka, a, 0) \<and>
    updateMap rat_fp (demo_os []) c \<lparr>rp_ranges = replicate 16 0, rp_pose = [0, 0, 0]\<rparr> = Inr (k', c') \<and>
    commRecvMapUpdate k' \<lparr>tp_type = MAP_UPDATE, tp_in = 3, tp_out = 0\<rparr> (as_recv a) = Some (k2, u, r) \<and> mu_pose_x u = 40 \<and>
    mark_obstacles (zip (take (nat (mu_obs_count u)) (mu_obs_x u)) (take (nat (mu_obs_count u)) (mu_obs_y u))) (as_map a) = Inr m"
proof -
  let ?data = "\<lparr>rp_ranges = replicate 16 0, rp_pose = [0, 0, 0]\<rparr>" and ?p = "\<lparr>tp_type = MAP_UPDATE, tp_in = 3, tp_out = 0\<rparr>"
  obtain k c where c: "demo_mapper = Inr (k, c, 0)" "mapper_reaches rat_fp k c" "\<not> insertSDC c"
    "pipe_at c (m_update_index c) = Inr \<lparr>tp_type = MAP_UPDATE, tp_in = 0, tp_out = 4\<rparr>"
    by (rule demo_mapper_reached)
  have cc: "counted c" using mapper_reaches_ok [OF c(2)] by (simp add: mapper_ok_def)
  obtain k' c' where u: "updateMap rat_fp (demo_os []) c ?data = Inr (k', c')"
    using updateMap_scan [OF cc c(4)] by blast
  have pose: "mu_pose_x (m_msg c') = 40" "mu_pose_y (m_msg c') = 40"
    using updateMap_pose [OF u c(3)] by (simp_all add: rat_fp_def gridify_def interval_def grid_edge_def rat_trunc_def Let_def)
  obtain ka a where a: "demo_start = Inr (ka, a, 0)" using demo_start_ok by (auto split: sum.splits)
  then have ok: "a_star_ok rat_fp a" using main_init_ok [of rat_fp] unfolding demo_start_def by blast
  have os: "os_lookup (demo_os []) 4 = Some (WriteEnd 0)" "os_lookup (demo_os []) 3 = Some (ReadEnd 0)"
    "0 < length (os_pipes (demo_os []))" "os_pipes (demo_os []) ! 0 = []"
    by (simp_all add: demo_os_def os_lookup_def)
  from planner_learns_reported_obstacles [OF cc c(4) u _ _ _ _ _ _ os(3,4) ok, of ?p] os pose
  have "\<exists>k2 u r m. commRecvMapUpdate k' ?p (as_recv a) = Some (k2, u, r) \<and> mu_pose_x u = 40 \<and>
    mark_obstacles (zip (take (nat (mu_obs_count u)) (mu_obs_x u)) (take (nat (mu_obs_count u)) (mu_obs_y u))) (as_map a) = Inr m"
    by (auto simp: c_int_def)
  then show ?thesis using c(1) u a by blast
qed

end
